(* ===== verification/Prelude.thy ===== *)
theory Prelude
  imports Main "HOL-Library.Word"
begin

text \<open>
  Shared ground of the development: the machine types of \<^verbatim>\<open>types.h\<close>, the names of the
  kernel's spin locks and sleep channels, the result type and state monad every kernel
  routine is written in, a weakest-precondition calculus for it, and the facts about byte
  arrays and little-endian words that the on-disk and in-memory structures rest on.
\<close>

unbundle bit_operations_syntax

named_theorems run_simps \<open>equations that run a routine of the monad\<close>
named_theorems wp_simps \<open>rewrite rules that push wp through the monad's operations\<close>
named_theorems frame \<open>fields of the state an operation leaves alone\<close>

section \<open>Machine types\<close>

text \<open>\<^verbatim>\<open>uchar\<close>, \<^verbatim>\<open>ushort\<close> and \<^verbatim>\<open>uint\<close> of \<^verbatim>\<open>types.h\<close>.\<close>

type_synonym uchar = "8 word"
type_synonym ushort = "16 word"
type_synonym uint = "32 word"

text \<open>A character literal of the source as a byte.\<close>

definition chr :: "char \<Rightarrow> uchar" where
  "chr c = word_of_nat (of_char c)"

definition str :: "string \<Rightarrow> uchar list" where
  "str s = map chr s"

lemma chr_inject: "chr c = chr d \<longleftrightarrow> c = d"
proof
  assume "chr c = chr d"
  then have "unat (chr c) = unat (chr d)" by simp
  moreover have "unat (chr x) = of_char x" for x
    by (simp add: chr_def unat_of_nat take_bit_nat_eq_self of_char_def)
  ultimately have "(of_char c :: nat) = of_char d" by simp
  then show "c = d" by simp
qed simp

lemma str_simps [simp]: "str [] = []" "str (c # cs) = chr c # str cs"
  by (simp_all add: str_def)

section \<open>Results and the kernel state monad\<close>

text \<open>
  Spin locks by name. Each is one \<^verbatim>\<open>struct spinlock\<close> of the kernel; the locks inside sleep
  locks and pipes are numbered by the object that holds them.
\<close>

datatype lockid =
    L_kmem | L_ptable | L_tickslock | L_bcache | L_log | L_icache | L_ftable | L_idelock | L_cons
  | L_buf nat | L_inode nat | L_pipe uint

text \<open>
  Sleep channels: the addresses the code passes to \<^verbatim>\<open>sleep\<close> and \<^verbatim>\<open>wakeup\<close>. Different
  objects have different addresses, so a channel is named by its object.
\<close>

datatype chan =
    ChProc nat | ChTicks | ChLog | ChBufLock nat | ChInodeLock nat | ChBuf nat
  | ChPipeRead uint | ChPipeWrite uint | ChInput

text \<open>
  What running a kernel routine gives: a value and a new state; a call of \<^verbatim>\<open>panic\<close>, after
  which nothing runs; or a call of \<^verbatim>\<open>sched\<close> that switches to the scheduler, with the state at
  the switch (the process table says whether the process sleeps, and on which channel).
\<close>

datatype ('a, 's) res = Ok 'a 's | Panic string | Swtch 's

type_synonym ('s, 'a) kop = "'s \<Rightarrow> ('a, 's) res"

definition ret :: "'a \<Rightarrow> ('s, 'a) kop" where
  "ret x s = Ok x s"

definition bnd :: "('s, 'a) kop \<Rightarrow> ('a \<Rightarrow> ('s, 'b) kop) \<Rightarrow> ('s, 'b) kop" where
  "bnd m f s = (case m s of Ok x t \<Rightarrow> f x t | Panic e \<Rightarrow> Panic e | Swtch t \<Rightarrow> Swtch t)"

abbreviation seq :: "('s, 'a) kop \<Rightarrow> ('s, 'b) kop \<Rightarrow> ('s, 'b) kop" where
  "seq m k \<equiv> bnd m (\<lambda>_. k)"

definition fetch :: "('s \<Rightarrow> 'a) \<Rightarrow> ('s, 'a) kop" where
  "fetch f s = Ok (f s) s"

definition modify :: "('s \<Rightarrow> 's) \<Rightarrow> ('s, unit) kop" where
  "modify f s = Ok () (f s)"

definition kpanic :: "string \<Rightarrow> ('s, 'a) kop" where
  "kpanic e s = Panic e"

definition panic_if :: "bool \<Rightarrow> string \<Rightarrow> ('s, unit) kop" where
  "panic_if c e = (if c then kpanic e else ret ())"

fun foreach :: "'x list \<Rightarrow> ('x \<Rightarrow> ('s, unit) kop) \<Rightarrow> ('s, unit) kop" where
  "foreach [] f = ret ()"
| "foreach (x # xs) f = seq (f x) (foreach xs f)"

lemma bnd_ret [simp]: "bnd (ret x) f = f x"
  by (rule ext) (simp add: bnd_def ret_def)

lemma bnd_assoc: "bnd (bnd m f) g = bnd m (\<lambda>x. bnd (f x) g)"
  by (rule ext) (simp add: bnd_def split: res.splits)

lemma bnd_Ok: "bnd m f s = Ok y u \<longleftrightarrow> (\<exists>x t. m s = Ok x t \<and> f x t = Ok y u)"
  by (simp add: bnd_def split: res.splits)

lemma bnd_step: "m s = Ok x t \<Longrightarrow> bnd m f s = f x t"
  by (simp add: bnd_def)

lemma bnd_panic: "m s = Panic e \<Longrightarrow> bnd m f s = Panic e"
  by (simp add: bnd_def)

lemma bnd_swtch: "m s = Swtch t \<Longrightarrow> bnd m f s = Swtch t"
  by (simp add: bnd_def)

text \<open>Symbolic execution: the equations that run a routine step by step.\<close>

lemma bnd_runs [run_simps]:
  "bnd (ret x) f s = f x s"
  "bnd (fetch g) f s = f (g s) s"
  "bnd (modify h) fu s = fu () (h s)"
  "bnd (kpanic e) f s = Panic e"
  "bnd (panic_if c e) fu s = (if c then Panic e else fu () s)"
  "bnd (bnd m k) f s = bnd m (\<lambda>x. bnd (k x) f) s"
  "bnd (if c then m1 else m2) f s = (if c then bnd m1 f s else bnd m2 f s)"
  by (simp_all add: bnd_def ret_def fetch_def modify_def kpanic_def panic_if_def split: res.splits)

lemma run_ends [run_simps]:
  "ret x s = Ok x s" "fetch g s = Ok (g s) s" "modify h s = Ok () (h s)" "kpanic e s = Panic e"
  by (simp_all add: ret_def fetch_def modify_def kpanic_def)

lemmas kop_defs = ret_def fetch_def modify_def kpanic_def panic_if_def

subsection \<open>Weakest preconditions\<close>

text \<open>
  \<open>wp E m Q s\<close>: run from \<open>s\<close>, the routine \<open>m\<close> returns a value and a state that satisfy
  \<open>Q\<close>, or calls \<^verbatim>\<open>panic\<close> with a message of \<open>E\<close>; it never gives up the processor. With \<open>E = {}\<close> this is
  total correctness.
\<close>

definition wp :: "string set \<Rightarrow> ('s, 'a) kop \<Rightarrow> ('a \<Rightarrow> 's \<Rightarrow> bool) \<Rightarrow> 's \<Rightarrow> bool" where
  "wp E m Q s = (case m s of Ok x t \<Rightarrow> Q x t | Panic e \<Rightarrow> e \<in> E | Swtch t \<Rightarrow> False)"

lemma wp_ret [wp_simps]: "wp E (ret x) Q s \<longleftrightarrow> Q x s"
  by (simp add: wp_def ret_def)

lemma wp_bnd [wp_simps]: "wp E (bnd m f) Q s \<longleftrightarrow> wp E m (\<lambda>x. wp E (f x) Q) s"
  by (simp add: wp_def bnd_def split: res.splits)

lemma wp_fetch [wp_simps]: "wp E (fetch f) Q s \<longleftrightarrow> Q (f s) s"
  by (simp add: wp_def fetch_def)

lemma wp_modify [wp_simps]: "wp E (modify f) Q s \<longleftrightarrow> Q () (f s)"
  by (simp add: wp_def modify_def)

lemma wp_kpanic [wp_simps]: "wp E (kpanic e) Q s \<longleftrightarrow> e \<in> E"
  by (simp add: wp_def kpanic_def)

lemma wp_panic_if [wp_simps]:
  "wp E (panic_if c e) Q s \<longleftrightarrow> (if c then e \<in> E else Q () s)"
  by (simp add: panic_if_def wp_simps)

lemma wp_if [wp_simps]:
  "wp E (if c then m else n) Q s \<longleftrightarrow> (if c then wp E m Q s else wp E n Q s)"
  by simp

lemma wp_mono: "wp E m P s \<Longrightarrow> (\<And>x t. P x t \<Longrightarrow> Q x t) \<Longrightarrow> wp E m Q s"
  by (auto simp: wp_def split: res.splits)

lemma wp_weaken: "wp E m Q s \<Longrightarrow> E \<subseteq> F \<Longrightarrow> wp F m Q s"
  by (auto simp: wp_def split: res.splits)

lemma wp_Ok: "m s = Ok x t \<Longrightarrow> wp E m Q s \<longleftrightarrow> Q x t"
  by (simp add: wp_def)

lemma wp_OkD: "wp {} m Q s \<Longrightarrow> \<exists>x t. m s = Ok x t \<and> Q x t"
  by (auto simp: wp_def split: res.splits)

lemma wp_OkI: "\<exists>x t. m s = Ok x t \<and> Q x t \<Longrightarrow> wp E m Q s"
  by (auto simp: wp_def)

text \<open>A loop over a list keeps an invariant indexed by the elements that remain.\<close>

lemma wp_foreach:
  assumes "I xs s"
    and "\<And>x ys t. I (x # ys) t \<Longrightarrow> set (x # ys) \<subseteq> set xs \<Longrightarrow> wp E (f x) (\<lambda>_. I ys) t"
    and "\<And>t. I [] t \<Longrightarrow> Q () t"
  shows "wp E (foreach xs f) Q s"
proof -
  have "I ys t \<Longrightarrow> set ys \<subseteq> set xs \<Longrightarrow> wp E (foreach ys f) Q t" for ys t
  proof (induction ys arbitrary: t)
    case Nil
    then show ?case by (simp add: wp_simps assms(3))
  next
    case (Cons y ys)
    have "wp E (f y) (\<lambda>_. I ys) t" by (rule assms(2) [OF Cons.prems])
    moreover have "set ys \<subseteq> set xs" using Cons.prems(2) by simp
    ultimately have "wp E (f y) (\<lambda>_. wp E (foreach ys f) Q) t"
      by (elim wp_mono) (rule Cons.IH)
    then show ?case by (simp add: wp_simps)
  qed
  then show ?thesis using assms(1) by simp
qed

section \<open>Byte arrays\<close>

text \<open>Overwriting part of an array, as \<^verbatim>\<open>memmove(dst + off, src, n)\<close> does inside one object.\<close>

definition splice :: "'a list \<Rightarrow> nat \<Rightarrow> 'a list \<Rightarrow> 'a list" where
  "splice d off src = take off d @ src @ drop (off + length src) d"

definition slice :: "'a list \<Rightarrow> nat \<Rightarrow> nat \<Rightarrow> 'a list" where
  "slice d off n = take n (drop off d)"

lemma length_splice [simp]: "off + length src \<le> length d \<Longrightarrow> length (splice d off src) = length d"
  by (simp add: splice_def)

lemma length_slice [simp]: "off + n \<le> length d \<Longrightarrow> length (slice d off n) = n"
  by (simp add: slice_def)

lemma nth_slice: "i < n \<Longrightarrow> off + n \<le> length d \<Longrightarrow> slice d off n ! i = d ! (off + i)"
  by (simp add: slice_def)

lemma nth_splice:
  assumes "off + length src \<le> length d" and "i < length d"
  shows "splice d off src ! i =
    (if off \<le> i \<and> i < off + length src then src ! (i - off) else d ! i)"
proof -
  consider "i < off" | "off \<le> i" "i < off + length src" | "off + length src \<le> i"
    by linarith
  then show ?thesis
    using assms by cases (auto simp: splice_def nth_append min_def)
qed

lemma slice_splice_same:
  "off + length src \<le> length d \<Longrightarrow> n = length src \<Longrightarrow> slice (splice d off src) off n = src"
  by (simp add: slice_def splice_def)

lemma slice_splice_other:
  assumes "off + length src \<le> length d" and "o' + n \<le> length d"
    and "o' + n \<le> off \<or> off + length src \<le> o'"
  shows "slice (splice d off src) o' n = slice d o' n"
  using assms by (intro nth_equalityI) (auto simp: nth_slice nth_splice)

lemma splice_slice: "off + n \<le> length d \<Longrightarrow> splice d off (slice d off n) = d"
  by (rule nth_equalityI) (auto simp: nth_splice nth_slice)

lemma slice_slice: "o' + m \<le> n \<Longrightarrow> slice (slice d off n) o' m = slice d (off + o') m"
  by (simp add: slice_def drop_take add.commute min_def)

lemma slice_append: "slice d off n @ slice d (off + n) m = slice d off (n + m)"
  unfolding slice_def by (metis take_add drop_drop add.commute)

lemma slice_full: "slice d 0 (length d) = d"
  by (simp add: slice_def)

lemma splice_full: "length src = length d \<Longrightarrow> splice d 0 src = src"
  by (simp add: splice_def)

section \<open>Little-endian words in byte arrays\<close>

definition le16 :: "ushort \<Rightarrow> uchar list" where
  "le16 w = [ucast w, ucast (drop_bit 8 w)]"

definition le32 :: "uint \<Rightarrow> uchar list" where
  "le32 w = [ucast w, ucast (drop_bit 8 w), ucast (drop_bit 16 w), ucast (drop_bit 24 w)]"

definition un16 :: "uchar list \<Rightarrow> ushort" where
  "un16 bs = ucast (bs ! 0) OR push_bit 8 (ucast (bs ! 1))"

definition un32 :: "uchar list \<Rightarrow> uint" where
  "un32 bs = ucast (bs ! 0) OR push_bit 8 (ucast (bs ! 1)) OR push_bit 16 (ucast (bs ! 2))
     OR push_bit 24 (ucast (bs ! 3))"

definition get16 :: "uchar list \<Rightarrow> nat \<Rightarrow> ushort" where
  "get16 d off = un16 (slice d off 2)"

definition get32 :: "uchar list \<Rightarrow> nat \<Rightarrow> uint" where
  "get32 d off = un32 (slice d off 4)"

definition put16 :: "uchar list \<Rightarrow> nat \<Rightarrow> ushort \<Rightarrow> uchar list" where
  "put16 d off w = splice d off (le16 w)"

definition put32 :: "uchar list \<Rightarrow> nat \<Rightarrow> uint \<Rightarrow> uchar list" where
  "put32 d off w = splice d off (le32 w)"

lemma length_le [simp]: "length (le16 w) = 2" "length (le32 v) = 4"
  by (simp_all add: le16_def le32_def)

lemma un16_le16 [simp]: "un16 (le16 w) = w"
proof (rule bit_word_eqI)
  fix n
  assume "n < LENGTH(16)"
  then have n: "n < 16" by simp
  consider "n < 8" | "8 \<le> n" by linarith
  then show "bit (un16 (le16 w)) n \<longleftrightarrow> bit w n"
    unfolding un16_def le16_def
    by cases (use n in \<open>auto simp: bit_or_iff bit_push_bit_iff bit_unsigned_iff bit_drop_bit_eq\<close>)
qed

lemma un32_le32 [simp]: "un32 (le32 w) = w"
proof (rule bit_word_eqI)
  fix n
  assume "n < LENGTH(32)"
  then have n: "n < 32" by simp
  consider "n < 8" | "8 \<le> n" "n < 16" | "16 \<le> n" "n < 24" | "24 \<le> n" by linarith
  then show "bit (un32 (le32 w)) n \<longleftrightarrow> bit w n"
    unfolding un32_def le32_def
    by cases (use n in \<open>auto simp: bit_or_iff bit_push_bit_iff bit_unsigned_iff bit_drop_bit_eq\<close>)
qed

lemma length_put [simp]:
  "off + 2 \<le> length d \<Longrightarrow> length (put16 d off w) = length d"
  "off + 4 \<le> length d \<Longrightarrow> length (put32 d off v) = length d"
  by (simp_all add: put16_def put32_def)

lemma get_put_same [simp]:
  "off + 2 \<le> length d \<Longrightarrow> get16 (put16 d off w) off = w"
  "off + 4 \<le> length d \<Longrightarrow> get32 (put32 d off v) off = v"
  by (simp_all add: get16_def put16_def get32_def put32_def slice_splice_same)

lemma get32_put32_other:
  assumes "off + 4 \<le> length d" and "o' + 4 \<le> length d" and "o' + 4 \<le> off \<or> off + 4 \<le> o'"
  shows "get32 (put32 d off v) o' = get32 d o'"
  using assms by (simp add: get32_def put32_def slice_splice_other)

lemma get32_slice: "o' + 4 \<le> n \<Longrightarrow> get32 (slice d off n) o' = get32 d (off + o')"
  by (simp add: get32_def slice_slice)

lemma get16_slice: "o' + 2 \<le> n \<Longrightarrow> get16 (slice d off n) o' = get16 d (off + o')"
  by (simp add: get16_def slice_slice)

lemma un32_zero [simp]: "un32 [0, 0, 0, 0] = 0"
  by (simp add: un32_def)

lemma slice_replicate: "off + n \<le> m \<Longrightarrow> slice (replicate m x) off n = replicate n x"
  by (simp add: slice_def)

lemma get32_replicate0 [simp]: "off + 4 \<le> n \<Longrightarrow> get32 (replicate n 0) off = 0"
  by (simp add: get32_def slice_replicate numeral_eq_Suc un32_def)

lemma get16_replicate0 [simp]: "off + 2 \<le> n \<Longrightarrow> get16 (replicate n 0) off = 0"
  by (simp add: get16_def slice_replicate numeral_eq_Suc un16_def)

lemma unat_uint_less [simp]: "unat (x :: uint) < 4294967296"
  using unsigned_less [of x] by simp

lemma unat_ushort_less [simp]: "unat (x :: ushort) < 65536"
  using unsigned_less [of x] by simp

lemma unat_uchar_less [simp]: "unat (x :: uchar) < 256"
  using unsigned_less [of x] by simp

lemma unat_of_nat_small: "n < 4294967296 \<Longrightarrow> unat (of_nat n :: uint) = n"
  by (simp add: unat_of_nat take_bit_nat_eq_self)

lemma replicate4: "replicate 4 x = [x, x, x, x]"
  by (simp add: numeral_eq_Suc)

section \<open>Lists and arrays updated in place\<close>

lemma nth_list_update_if: "i < length xs \<Longrightarrow> xs[i := v] ! j = (if i = j then v else xs ! j)"
  by (simp add: nth_list_update)

text \<open>The first index of a list that satisfies a test, as the scan loops of the kernel find it.\<close>

fun first_idx :: "('a \<Rightarrow> bool) \<Rightarrow> 'a list \<Rightarrow> nat option" where
  "first_idx P [] = None"
| "first_idx P (x # xs) = (if P x then Some 0 else map_option Suc (first_idx P xs))"

lemma first_idx_None: "first_idx P xs = None \<longleftrightarrow> (\<forall>x \<in> set xs. \<not> P x)"
  by (induction xs) auto

lemma first_idx_Some:
  "first_idx P xs = Some i \<longleftrightarrow> i < length xs \<and> P (xs ! i) \<and> (\<forall>j < i. \<not> P (xs ! j))"
proof (induction xs arbitrary: i)
  case (Cons x xs)
  show ?case
    by (cases i) (auto simp: Cons.IH All_less_Suc2)
qed simp

lemma first_idx_SomeD:
  assumes "first_idx P xs = Some i"
  shows "i < length xs" "P (xs ! i)" "\<And>j. j < i \<Longrightarrow> \<not> P (xs ! j)"
  using assms by (auto simp: first_idx_Some)

end
