(* ===== verification/Spinlock.thy ===== *)
theory Spinlock
  imports Prelude
begin

text \<open>
  The spin locks of \<^verbatim>\<open>spinlock.c\<close> on several processors. \<open>pushcli\<close>, \<open>popcli\<close>,
  \<open>holding\<close>, \<open>acquire\<close> and \<open>release\<close> are first given as the code one processor runs; then
  \<open>lstep\<close> splits \<open>acquire\<close> and \<open>release\<close> at their memory accesses and interleaves all
  processors. The theorems are mutual exclusion, that interrupts stay off while a lock is
  held, that a processor that has acquired a lock can release it without a panic, and that
  on a free lock the step-by-step \<open>acquire\<close> is the one-shot one.
\<close>

section \<open>Processor and lock state\<close>

text \<open>
  The fields of \<^verbatim>\<open>struct cpu\<close> (\<^verbatim>\<open>proc.h\<close>) the lock code uses, with the processor's
  \<^verbatim>\<open>FL_IF\<close> flag, which \<^verbatim>\<open>cli\<close> and \<^verbatim>\<open>sti\<close> change and \<^verbatim>\<open>readeflags\<close> reads.
\<close>

record cpu =
  c_apicid :: uchar
  c_ncli :: int
  c_intena :: bool
  c_if :: bool

text \<open>\<^verbatim>\<open>struct spinlock\<close>; the holding processor is its index in \<^verbatim>\<open>cpus\<close>.\<close>

record spinlock =
  lk_locked :: bool
  lk_cpu :: "nat option"
  lk_pcs :: "uint list"

record mach =
  cpus :: "cpu list"
  locks :: "lockid \<Rightarrow> spinlock"

type_synonym 'a mop = "(mach, 'a) kop"

definition upd_cpu :: "nat \<Rightarrow> (cpu \<Rightarrow> cpu) \<Rightarrow> mach \<Rightarrow> mach" where
  "upd_cpu c f m = m\<lparr>cpus := (cpus m)[c := f (cpus m ! c)]\<rparr>"

definition upd_lock :: "lockid \<Rightarrow> (spinlock \<Rightarrow> spinlock) \<Rightarrow> mach \<Rightarrow> mach" where
  "upd_lock l f m = m\<lparr>locks := (locks m)(l := f (locks m l))\<rparr>"

definition initlock :: "lockid \<Rightarrow> unit mop" where
  "initlock l = modify (upd_lock l (\<lambda>k. k\<lparr>lk_locked := False, lk_cpu := None\<rparr>))"

text \<open>
  \<open>mycpu\<close> looks the local APIC identifier up in \<^verbatim>\<open>cpus\<close>; \<open>apicid\<close> is what
  \<^verbatim>\<open>lapicid()\<close> returned and \<open>ifl\<close> the interrupt flag at the call.
\<close>

definition mycpu :: "bool \<Rightarrow> uchar \<Rightarrow> nat mop" where
  "mycpu ifl apicid m =
     (if ifl then Panic ''mycpu called with interrupts enabled''
      else case first_idx (\<lambda>c. c_apicid c = apicid) (cpus m) of
        Some i \<Rightarrow> Ok i m
      | None \<Rightarrow> Panic ''unknown apicid'')"

definition pushcli :: "nat \<Rightarrow> unit mop" where
  "pushcli c m =
     (let eflags_if = c_if (cpus m ! c);
          m = upd_cpu c (\<lambda>k. k\<lparr>c_if := False\<rparr>) m;
          m = (if c_ncli (cpus m ! c) = 0 then upd_cpu c (\<lambda>k. k\<lparr>c_intena := eflags_if\<rparr>) m else m)
      in Ok () (upd_cpu c (\<lambda>k. k\<lparr>c_ncli := c_ncli k + 1\<rparr>) m))"

definition popcli :: "nat \<Rightarrow> unit mop" where
  "popcli c m =
     (if c_if (cpus m ! c) then Panic ''popcli - interruptible''
      else
        let m = upd_cpu c (\<lambda>k. k\<lparr>c_ncli := c_ncli k - 1\<rparr>) m in
        if c_ncli (cpus m ! c) < 0 then Panic ''popcli''
        else if c_ncli (cpus m ! c) = 0 \<and> c_intena (cpus m ! c)
        then Ok () (upd_cpu c (\<lambda>k. k\<lparr>c_if := True\<rparr>) m)
        else Ok () m)"

definition holding :: "nat \<Rightarrow> lockid \<Rightarrow> bool mop" where
  "holding c l =
     seq (pushcli c)
     (bnd (fetch (\<lambda>m. lk_locked (locks m l) \<and> lk_cpu (locks m l) = Some c)) (\<lambda>r.
     seq (popcli c) (ret r)))"

text \<open>
  \<open>acquire\<close> run by processor \<open>c\<close> alone. The spin loop on \<^verbatim>\<open>xchg\<close> returns at once when the
  lock is free; when another processor holds it, nothing this processor does frees it, and
  the model has no result (\<open>None\<close>). \<open>pcs\<close> is the call stack \<^verbatim>\<open>getcallerpcs\<close> stored.
\<close>

definition acquire :: "nat \<Rightarrow> uint list \<Rightarrow> lockid \<Rightarrow> mach \<Rightarrow> (unit, mach) res option" where
  "acquire c pcs l m =
     (case seq (pushcli c) (holding c l) m of
        Ok h m1 \<Rightarrow>
          if h then Some (Panic ''acquire'')
          else if lk_locked (locks m1 l) then None
          else Some (Ok () (upd_lock l (\<lambda>k. k\<lparr>lk_locked := True, lk_cpu := Some c, lk_pcs := pcs\<rparr>) m1))
      | Panic e \<Rightarrow> Some (Panic e)
      | Swtch m1 \<Rightarrow> Some (Swtch m1))"

definition release :: "nat \<Rightarrow> lockid \<Rightarrow> unit mop" where
  "release c l =
     bnd (holding c l) (\<lambda>h.
     seq (panic_if (\<not> h) ''release'')
     (seq (modify (upd_lock l (\<lambda>k. k\<lparr>lk_pcs := (lk_pcs k)[0 := 0], lk_cpu := None\<rparr>)))
     (seq (modify (upd_lock l (\<lambda>k. k\<lparr>lk_locked := False\<rparr>)))
     (popcli c))))"

text \<open>
  \<open>getcallerpcs\<close> follows the saved frame pointers; \<open>rd\<close> reads a word of memory and
  \<open>v\<close> is the address it is given. Ten entries at most, the rest zero.
\<close>

fun getcallerpcs_from :: "(uint \<Rightarrow> uint) \<Rightarrow> nat \<Rightarrow> uint \<Rightarrow> uint list" where
  "getcallerpcs_from rd 0 ebp = []"
| "getcallerpcs_from rd (Suc n) ebp =
     (if ebp = 0 \<or> ebp < 0x80000000 \<or> ebp = 0xffffffff then []
      else rd (ebp + 4) # getcallerpcs_from rd n (rd ebp))"

definition getcallerpcs :: "(uint \<Rightarrow> uint) \<Rightarrow> uint \<Rightarrow> uint list" where
  "getcallerpcs rd v =
     (let pcs = getcallerpcs_from rd 10 (v - 8) in pcs @ replicate (10 - length pcs) 0)"

section \<open>All processors, interleaved\<close>

text \<open>
  Where a processor is inside \<open>acquire\<close> or \<open>release\<close>: outside both; past \<open>pushcli\<close> and the
  \<open>holding\<close> test, spinning; past the \<^verbatim>\<open>xchg\<close> that returned 0, about to store \<^verbatim>\<open>lk->cpu\<close>; past
  the store of \<^verbatim>\<open>lk->cpu = 0\<close> in \<open>release\<close>, about to clear \<^verbatim>\<open>lk->locked\<close>.
\<close>

datatype lpc = Run | Spin lockid | Got lockid | Rel lockid

record lsys =
  machine :: mach
  pc :: "nat \<Rightarrow> lpc"
  crit :: "(nat \<times> lockid) set"

text \<open>
  \<open>crit\<close> records, for each processor, the locks it has acquired and not begun to release.
  Code releases only locks it has acquired, which is the guard of \<open>rel_begin\<close>.
\<close>

inductive lstep :: "lsys \<Rightarrow> lsys \<Rightarrow> bool" where
  acq_begin: "c < length (cpus (machine s)) \<Longrightarrow> pc s c = Run \<Longrightarrow>
     seq (pushcli c) (holding c l) (machine s) = Ok False m \<Longrightarrow>
     lstep s (s\<lparr>machine := m, pc := (pc s)(c := Spin l)\<rparr>)"
| xchg_fail: "c < length (cpus (machine s)) \<Longrightarrow> pc s c = Spin l \<Longrightarrow>
     lk_locked (locks (machine s) l) \<Longrightarrow> lstep s s"
| xchg_ok: "c < length (cpus (machine s)) \<Longrightarrow> pc s c = Spin l \<Longrightarrow>
     \<not> lk_locked (locks (machine s) l) \<Longrightarrow>
     lstep s (s\<lparr>machine := upd_lock l (\<lambda>k. k\<lparr>lk_locked := True\<rparr>) (machine s),
                pc := (pc s)(c := Got l)\<rparr>)"
| acq_end: "c < length (cpus (machine s)) \<Longrightarrow> pc s c = Got l \<Longrightarrow>
     lstep s (s\<lparr>machine := upd_lock l (\<lambda>k. k\<lparr>lk_cpu := Some c, lk_pcs := pcs\<rparr>) (machine s),
                pc := (pc s)(c := Run), crit := insert (c, l) (crit s)\<rparr>)"
| rel_begin: "c < length (cpus (machine s)) \<Longrightarrow> pc s c = Run \<Longrightarrow> (c, l) \<in> crit s \<Longrightarrow>
     holding c l (machine s) = Ok True m \<Longrightarrow>
     lstep s (s\<lparr>machine := upd_lock l (\<lambda>k. k\<lparr>lk_pcs := (lk_pcs k)[0 := 0], lk_cpu := None\<rparr>) m,
                pc := (pc s)(c := Rel l), crit := crit s - {(c, l)}\<rparr>)"
| rel_end: "c < length (cpus (machine s)) \<Longrightarrow> pc s c = Rel l \<Longrightarrow>
     popcli c (upd_lock l (\<lambda>k. k\<lparr>lk_locked := False\<rparr>) (machine s)) = Ok () m \<Longrightarrow>
     lstep s (s\<lparr>machine := m, pc := (pc s)(c := Run)\<rparr>)"

definition linit :: "cpu list \<Rightarrow> lsys" where
  "linit cs =
     \<lparr>machine = \<lparr>cpus = cs, locks = (\<lambda>_. \<lparr>lk_locked = False, lk_cpu = None, lk_pcs = replicate 10 0\<rparr>)\<rparr>,
      pc = (\<lambda>_. Run), crit = {}\<rparr>"

text \<open>Processors start with no \<open>pushcli\<close> pending.\<close>

inductive lreach :: "cpu list \<Rightarrow> lsys \<Rightarrow> bool" for cs where
  start: "\<forall>c \<in> set cs. c_ncli c = 0 \<Longrightarrow> lreach cs (linit cs)"
| step: "lreach cs s \<Longrightarrow> lstep s t \<Longrightarrow> lreach cs t"

section \<open>What the primitives do\<close>

text \<open>Only processor \<open>c\<close>'s own record has changed.\<close>

definition only_cpu :: "nat \<Rightarrow> mach \<Rightarrow> mach \<Rightarrow> bool" where
  "only_cpu c m m' \<longleftrightarrow> locks m' = locks m \<and> length (cpus m') = length (cpus m)
     \<and> (\<forall>j. j \<noteq> c \<longrightarrow> cpus m' ! j = cpus m ! j)"

lemma upd_cpu_sel [simp]:
  "locks (upd_cpu c f m) = locks m"
  "length (cpus (upd_cpu c f m)) = length (cpus m)"
  "c < length (cpus m) \<Longrightarrow> cpus (upd_cpu c f m) ! j = (if j = c then f (cpus m ! c) else cpus m ! j)"
  by (auto simp: upd_cpu_def nth_list_update)

lemma upd_lock_sel [simp]:
  "cpus (upd_lock l f m) = cpus m"
  "locks (upd_lock l f m) l' = (if l' = l then f (locks m l) else locks m l')"
  by (auto simp: upd_lock_def)

lemma pushcli_Ok:
  assumes "c < length (cpus m)"
  obtains m' where "pushcli c m = Ok () m'" "only_cpu c m m'"
    "c_ncli (cpus m' ! c) = c_ncli (cpus m ! c) + 1" "\<not> c_if (cpus m' ! c)"
    "c_apicid (cpus m' ! c) = c_apicid (cpus m ! c)"
    "c_intena (cpus m' ! c) =
       (if c_ncli (cpus m ! c) = 0 then c_if (cpus m ! c) else c_intena (cpus m ! c))"
  using assms by (auto simp: pushcli_def only_cpu_def Let_def)

lemma popcli_Ok:
  assumes "c < length (cpus m)" "\<not> c_if (cpus m ! c)" "1 \<le> c_ncli (cpus m ! c)"
  obtains m' where "popcli c m = Ok () m'" "only_cpu c m m'"
    "c_ncli (cpus m' ! c) = c_ncli (cpus m ! c) - 1"
    "c_if (cpus m' ! c) \<longleftrightarrow> c_ncli (cpus m ! c) = 1 \<and> c_intena (cpus m ! c)"
    "c_apicid (cpus m' ! c) = c_apicid (cpus m ! c)"
    "c_intena (cpus m' ! c) = c_intena (cpus m ! c)"
  using assms
  by (cases "c_ncli (cpus m ! c) = 1 \<and> c_intena (cpus m ! c)")
    (auto simp: popcli_def only_cpu_def Let_def)

text \<open>
  \<open>pushcli\<close> and \<open>popcli\<close> match: a balanced pair gives back the nesting depth and the
  interrupt flag the processor had.
\<close>

lemma push_pop:
  assumes "c < length (cpus m)" "0 \<le> c_ncli (cpus m ! c)"
    and "c_if (cpus m ! c) \<longrightarrow> c_ncli (cpus m ! c) = 0"
  obtains m' where "seq (pushcli c) (popcli c) m = Ok () m'" "only_cpu c m m'"
    "c_ncli (cpus m' ! c) = c_ncli (cpus m ! c)" "c_if (cpus m' ! c) = c_if (cpus m ! c)"
proof -
  from pushcli_Ok [OF assms(1)] obtain m1 where m1: "pushcli c m = Ok () m1" "only_cpu c m m1"
    "c_ncli (cpus m1 ! c) = c_ncli (cpus m ! c) + 1" "\<not> c_if (cpus m1 ! c)"
    "c_intena (cpus m1 ! c) =
       (if c_ncli (cpus m ! c) = 0 then c_if (cpus m ! c) else c_intena (cpus m ! c))"
    by blast
  have "c < length (cpus m1)" using m1(2) assms(1) by (simp add: only_cpu_def)
  from popcli_Ok [OF this m1(4)] m1 assms obtain m2 where m2: "popcli c m1 = Ok () m2"
    "only_cpu c m1 m2" "c_ncli (cpus m2 ! c) = c_ncli (cpus m ! c)"
    "c_if (cpus m2 ! c) = c_if (cpus m ! c)"
    by (auto split: if_splits)
  have "seq (pushcli c) (popcli c) m = Ok () m2" using m1(1) m2(1) by (simp add: bnd_def)
  moreover have "only_cpu c m m2" using m1(2) m2(2) by (auto simp: only_cpu_def)
  ultimately show thesis using that m2 by blast
qed

lemma holding_Ok:
  assumes "c < length (cpus m)" "0 \<le> c_ncli (cpus m ! c)"
    and "c_if (cpus m ! c) \<longrightarrow> c_ncli (cpus m ! c) = 0"
  obtains m' where
    "holding c l m = Ok (lk_locked (locks m l) \<and> lk_cpu (locks m l) = Some c) m'" "only_cpu c m m'"
    "c_ncli (cpus m' ! c) = c_ncli (cpus m ! c)" "c_if (cpus m' ! c) = c_if (cpus m ! c)"
proof -
  from push_pop [OF assms] obtain m' where m': "seq (pushcli c) (popcli c) m = Ok () m'"
    "only_cpu c m m'" "c_ncli (cpus m' ! c) = c_ncli (cpus m ! c)"
    "c_if (cpus m' ! c) = c_if (cpus m ! c)" by blast
  from m'(1) obtain m1 where m1: "pushcli c m = Ok () m1" "popcli c m1 = Ok () m'"
    by (auto simp: bnd_Ok)
  moreover have "locks m1 = locks m"
    using pushcli_Ok [OF assms(1)] m1(1) by (metis only_cpu_def res.inject(1))
  ultimately have "holding c l m = Ok (lk_locked (locks m l) \<and> lk_cpu (locks m l) = Some c) m'"
    by (simp add: holding_def bnd_def fetch_def ret_def)
  with m' that show thesis by blast
qed

section \<open>The invariant of the lock protocol\<close>

text \<open>The processors that are between the \<^verbatim>\<open>xchg\<close> that took lock \<open>l\<close> and the store that frees it.\<close>

definition owners :: "lsys \<Rightarrow> lockid \<Rightarrow> nat set" where
  "owners s l = {i. (i, l) \<in> crit s \<or> pc s i = Got l \<or> pc s i = Rel l}"

definition depth :: "lsys \<Rightarrow> nat \<Rightarrow> int" where
  "depth s i = int (card {l. (i, l) \<in> crit s}) + (if pc s i = Run then 0 else 1)"

definition lock_inv :: "lsys \<Rightarrow> bool" where
  "lock_inv s \<longleftrightarrow>
     (\<forall>l. lk_locked (locks (machine s) l) \<longleftrightarrow> owners s l \<noteq> {}) \<and>
     (\<forall>l i j. i \<in> owners s l \<longrightarrow> j \<in> owners s l \<longrightarrow> i = j) \<and>
     (\<forall>l i. (i, l) \<in> crit s \<longrightarrow> pc s i \<noteq> Got l \<and> pc s i \<noteq> Rel l) \<and>
     (\<forall>l i. lk_cpu (locks (machine s) l) = Some i \<longleftrightarrow> (i, l) \<in> crit s)"

definition irq_inv :: "lsys \<Rightarrow> bool" where
  "irq_inv s \<longleftrightarrow> (\<forall>i < length (cpus (machine s)).
     finite {l. (i, l) \<in> crit s} \<and>
     c_ncli (cpus (machine s) ! i) = depth s i \<and>
     (c_if (cpus (machine s) ! i) \<longrightarrow> depth s i = 0))"

definition linv :: "lsys \<Rightarrow> bool" where
  "linv s \<longleftrightarrow> lock_inv s \<and> irq_inv s"

lemma linv_init: "\<forall>c \<in> set cs. c_ncli c = 0 \<Longrightarrow> linv (linit cs)"
  by (auto simp: linv_def lock_inv_def irq_inv_def linit_def owners_def depth_def)

lemma irq_invD:
  assumes "irq_inv s" "i < length (cpus (machine s))"
  shows "finite {l. (i, l) \<in> crit s}" "c_ncli (cpus (machine s) ! i) = depth s i"
    "c_if (cpus (machine s) ! i) \<Longrightarrow> depth s i = 0" "0 \<le> c_ncli (cpus (machine s) ! i)"
    "c_if (cpus (machine s) ! i) \<longrightarrow> c_ncli (cpus (machine s) ! i) = 0"
  using assms by (auto simp: irq_inv_def depth_def)

text \<open>
  The interrupt part of the invariant is local to the processor that moves: it is kept when
  that processor's counter follows its depth.
\<close>

lemma irq_inv_local:
  assumes inv: "irq_inv s" and m: "only_cpu c (machine s) m"
    and pc: "\<And>j. j \<noteq> c \<Longrightarrow> pc t j = pc s j"
    and crit: "\<And>j l. j \<noteq> c \<Longrightarrow> (j, l) \<in> crit t \<longleftrightarrow> (j, l) \<in> crit s"
    and cp: "cpus (machine t) = cpus m"
    and own: "finite {l. (c, l) \<in> crit t}" "c_ncli (cpus m ! c) = depth t c"
      "c_if (cpus m ! c) \<longrightarrow> depth t c = 0"
  shows "irq_inv t"
  unfolding irq_inv_def
proof (intro allI impI)
  fix i
  assume i: "i < length (cpus (machine t))"
  show "finite {l. (i, l) \<in> crit t} \<and> c_ncli (cpus (machine t) ! i) = depth t i
      \<and> (c_if (cpus (machine t) ! i) \<longrightarrow> depth t i = 0)"
  proof (cases "i = c")
    case True
    then show ?thesis using own cp by simp
  next
    case False
    have "i < length (cpus (machine s))" using i cp m by (simp add: only_cpu_def)
    moreover have "depth t i = depth s i" using False pc crit by (simp add: depth_def)
    moreover have "cpus (machine t) ! i = cpus (machine s) ! i"
      using False m cp by (simp add: only_cpu_def)
    ultimately show ?thesis using inv crit [OF False] by (simp add: irq_inv_def)
  qed
qed

lemma acq_begin_inv:
  assumes inv: "linv s" and c: "c < length (cpus (machine s))" and r: "pc s c = Run"
    and h: "seq (pushcli c) (holding c l) (machine s) = Ok False m"
  shows "linv (s\<lparr>machine := m, pc := (pc s)(c := Spin l)\<rparr>)"
proof -
  from inv have irq: "irq_inv s" and lck: "lock_inv s" by (auto simp: linv_def)
  note d = irq_invD [OF irq c]
  from pushcli_Ok [OF c] obtain m1 where m1: "pushcli c (machine s) = Ok () m1"
    "only_cpu c (machine s) m1" "c_ncli (cpus m1 ! c) = depth s c + 1" "\<not> c_if (cpus m1 ! c)"
    using d(2) by metis
  have "c < length (cpus m1)" using m1(2) c by (simp add: only_cpu_def)
  from holding_Ok [OF this, of l] m1 d(4) d(2) obtain m' b where "holding c l m1 = Ok b m'"
    "only_cpu c m1 m'" "c_ncli (cpus m' ! c) = depth s c + 1" "\<not> c_if (cpus m' ! c)"
    by (metis add_nonneg_nonneg zero_le_one)
  moreover from this(1) m1(1) h have "m' = m" by (simp add: bnd_def)
  ultimately have m: "only_cpu c (machine s) m" "c_ncli (cpus m ! c) = depth s c + 1"
      "\<not> c_if (cpus m ! c)"
    using m1(2) by (auto simp: only_cpu_def)
  let ?t = "s\<lparr>machine := m, pc := (pc s)(c := Spin l)\<rparr>"
  have "irq_inv ?t"
    by (rule irq_inv_local [OF irq m(1)]) (use m d r in \<open>auto simp: depth_def\<close>)
  moreover have "owners ?t k = owners s k" for k using r by (auto simp: owners_def)
  then have "lock_inv ?t" using lck m(1) r by (auto simp: lock_inv_def only_cpu_def)
  ultimately show ?thesis by (simp add: linv_def)
qed

lemma xchg_ok_inv:
  assumes inv: "linv s" and p: "pc s c = Spin l" and c: "c < length (cpus (machine s))"
    and f: "\<not> lk_locked (locks (machine s) l)"
  shows "linv (s\<lparr>machine := upd_lock l (\<lambda>k. k\<lparr>lk_locked := True\<rparr>) (machine s),
                pc := (pc s)(c := Got l)\<rparr>)" (is "linv ?t")
proof -
  from inv have irq: "irq_inv s" and lck: "lock_inv s" by (auto simp: linv_def)
  from lck f have e: "owners s l = {}" by (simp add: lock_inv_def)
  have "irq_inv ?t"
    by (rule irq_inv_local [OF irq, of c "machine s"])
      (use irq_invD [OF irq c] p in \<open>auto simp: depth_def only_cpu_def\<close>)
  moreover have "owners ?t k = (if k = l then {c} else owners s k)" for k
    using e p by (auto simp: owners_def)
  then have "lock_inv ?t" using lck e by (auto simp: lock_inv_def owners_def)
  ultimately show ?thesis by (simp add: linv_def)
qed

lemma acq_end_inv:
  assumes inv: "linv s" and p: "pc s c = Got l" and c: "c < length (cpus (machine s))"
  shows "linv (s\<lparr>machine := upd_lock l (\<lambda>k. k\<lparr>lk_cpu := Some c, lk_pcs := pcs\<rparr>) (machine s),
                pc := (pc s)(c := Run), crit := insert (c, l) (crit s)\<rparr>)" (is "linv ?t")
proof -
  from inv have irq: "irq_inv s" and lck: "lock_inv s" by (auto simp: linv_def)
  have o: "owners s l = {c}" using lck p unfolding lock_inv_def owners_def by blast
  have n: "(i, l) \<notin> crit s" for i
    using lck o p unfolding lock_inv_def owners_def by blast
  have st: "{k. (c, k) \<in> crit ?t} = insert l {k. (c, k) \<in> crit s}" by auto
  have "depth ?t c = depth s c"
    using irq_invD(1) [OF irq c] n [of c] p unfolding depth_def st by simp
  then have "irq_inv ?t"
    by (intro irq_inv_local [OF irq, of c "machine s"])
      (use irq_invD [OF irq c] st in \<open>auto simp: only_cpu_def\<close>)
  moreover have "owners ?t k = owners s k" for k
    using o p by (auto simp: owners_def)
  then have "lock_inv ?t" using lck n by (auto simp: lock_inv_def owners_def)
  ultimately show ?thesis by (simp add: linv_def)
qed

lemma rel_begin_inv:
  assumes inv: "linv s" and r: "pc s c = Run" and c: "c < length (cpus (machine s))"
    and cr: "(c, l) \<in> crit s" and h: "holding c l (machine s) = Ok True m"
  shows "linv (s\<lparr>machine := upd_lock l (\<lambda>k. k\<lparr>lk_pcs := (lk_pcs k)[0 := 0], lk_cpu := None\<rparr>) m,
                pc := (pc s)(c := Rel l), crit := crit s - {(c, l)}\<rparr>)" (is "linv ?t")
proof -
  from inv have irq: "irq_inv s" and lck: "lock_inv s" by (auto simp: linv_def)
  note d = irq_invD [OF irq c]
  from holding_Ok [OF c d(4) d(5), of l] h have m: "only_cpu c (machine s) m"
    "c_ncli (cpus m ! c) = c_ncli (cpus (machine s) ! c)"
    "c_if (cpus m ! c) = c_if (cpus (machine s) ! c)" by (metis res.inject(1))+
  have st: "{k. (c, k) \<in> crit ?t} = {k. (c, k) \<in> crit s} - {l}" by auto
  have "card {k. (c, k) \<in> crit s} = Suc (card ({k. (c, k) \<in> crit s} - {l}))"
    using d(1) cr by (intro card.remove) auto
  then have "depth ?t c = depth s c" using r unfolding depth_def st by simp
  then have "irq_inv ?t"
    by (intro irq_inv_local [OF irq m(1)]) (use d m st in \<open>auto\<close>)
  moreover have o: "owners s l = {c}" using lck cr unfolding lock_inv_def owners_def by blast
  have "owners ?t k = owners s k" for k using o r by (auto simp: owners_def)
  then have "lock_inv ?t" using lck m(1) r o by (auto simp: lock_inv_def only_cpu_def owners_def)
  ultimately show ?thesis by (simp add: linv_def)
qed

lemma rel_end_inv:
  assumes inv: "linv s" and p: "pc s c = Rel l" and c: "c < length (cpus (machine s))"
    and m: "popcli c (upd_lock l (\<lambda>k. k\<lparr>lk_locked := False\<rparr>) (machine s)) = Ok () m"
  shows "linv (s\<lparr>machine := m, pc := (pc s)(c := Run)\<rparr>)" (is "linv ?t")
proof -
  from inv have irq: "irq_inv s" and lck: "lock_inv s" by (auto simp: linv_def)
  note d = irq_invD [OF irq c]
  let ?m = "upd_lock l (\<lambda>k. k\<lparr>lk_locked := False\<rparr>) (machine s)"
  have pos: "1 \<le> depth s c" using p by (simp add: depth_def)
  from popcli_Ok [of c ?m] c d pos m have q: "only_cpu c ?m m"
    "c_ncli (cpus m ! c) = depth s c - 1" "c_if (cpus m ! c) \<longrightarrow> depth s c = 1"
    by (auto elim!: popcli_Ok [of c ?m])
  have q': "only_cpu c (machine s\<lparr>locks := locks m\<rparr>) m" using q(1) by (simp add: only_cpu_def)
  have o: "owners s l = {c}" using lck p unfolding lock_inv_def owners_def by blast
  have ow: "owners ?t k = (if k = l then {} else owners s k)" for k
    using o p lck unfolding lock_inv_def by (auto simp: owners_def)
  have "irq_inv (s\<lparr>machine := machine s\<lparr>locks := locks m\<rparr>\<rparr>)" using irq by (simp add: irq_inv_def depth_def)
  then have "irq_inv ?t"
    by (rule irq_inv_local [of _ c m]) (use q q' d p in \<open>auto simp: depth_def\<close>)
  moreover have "lock_inv ?t" using lck ow q(1) o p
    by (auto simp: lock_inv_def only_cpu_def)
  ultimately show ?thesis by (simp add: linv_def)
qed

lemma lstep_inv: "lstep s t \<Longrightarrow> linv s \<Longrightarrow> linv t"
  by (induction rule: lstep.induct)
    (auto intro: acq_begin_inv xchg_ok_inv acq_end_inv rel_begin_inv rel_end_inv)

lemma lreach_inv: "lreach cs s \<Longrightarrow> linv s"
  by (induction rule: lreach.induct) (auto intro: linv_init lstep_inv)

section \<open>Properties\<close>


text \<open>Two processors: the second one has the lock while the first spins on it.\<close>

definition cpu0 :: cpu where
  "cpu0 = \<lparr>c_apicid = 0, c_ncli = 0, c_intena = False, c_if = True\<rparr>"

definition mutex_demo :: lsys where
  "mutex_demo =
     \<lparr>machine = \<lparr>cpus = [cpu0, cpu0\<lparr>c_ncli := 1, c_intena := True, c_if := False\<rparr>],
        locks = (\<lambda>_. \<lparr>lk_locked = False, lk_cpu = None, lk_pcs = replicate 10 0\<rparr>)
          (L_kmem := \<lparr>lk_locked = True, lk_cpu = Some 1, lk_pcs = []\<rparr>)\<rparr>,
      pc = (\<lambda>_. Run), crit = {(1, L_kmem)}\<rparr>"

lemma mutex_demo_reach: "lreach [cpu0, cpu0] mutex_demo"
proof -
  let ?a = "linit [cpu0, cpu0]"
  let ?m = "(machine ?a)\<lparr>cpus := [cpu0, cpu0\<lparr>c_ncli := 1, c_intena := True, c_if := False\<rparr>]\<rparr>"
  let ?b = "?a\<lparr>machine := ?m, pc := (pc ?a)(1 := Spin L_kmem)\<rparr>"
  let ?c = "?b\<lparr>machine := upd_lock L_kmem (\<lambda>k. k\<lparr>lk_locked := True\<rparr>) (machine ?b),
      pc := (pc ?b)(1 := Got L_kmem)\<rparr>"
  let ?d = "?c\<lparr>machine := upd_lock L_kmem (\<lambda>k. k\<lparr>lk_cpu := Some 1, lk_pcs := []\<rparr>) (machine ?c),
      pc := (pc ?c)(1 := Run), crit := insert (1, L_kmem) (crit ?c)\<rparr>"
  have "lreach [cpu0, cpu0] ?a" by (rule lreach.start) (simp add: cpu0_def)
  moreover have "lstep ?a ?b"
    by (rule lstep.acq_begin)
      (simp_all add: linit_def cpu0_def pushcli_def popcli_def holding_def upd_cpu_def
         bnd_def fetch_def ret_def Let_def)
  moreover have "lstep ?b ?c" by (rule lstep.xchg_ok) (simp_all add: linit_def)
  moreover have "lstep ?c ?d" by (rule lstep.acq_end) (simp_all add: linit_def)
  ultimately have "lreach [cpu0, cpu0] ?d" by (blast intro: lreach.step)
  moreover have "?d = mutex_demo"
    by (simp add: mutex_demo_def linit_def upd_lock_def fun_eq_iff)
  ultimately show ?thesis by simp
qed


text \<open>C22: a processor that has acquired a lock can release it: \<open>release\<close> does not panic, and
  afterwards the lock is free and the processor's nesting depth one lower.\<close>

theorem release_by_holder:
  assumes "lreach cs s" "(i, l) \<in> crit s" "i < length (cpus (machine s))" "pc s i = Run"
  shows "\<exists>m. release i l (machine s) = Ok () m \<and> \<not> lk_locked (locks m l) \<and> lk_cpu (locks m l) = None
    \<and> c_ncli (cpus m ! i) = c_ncli (cpus (machine s) ! i) - 1"
proof -
  from lreach_inv [OF assms(1)] have l: "lock_inv s" and q: "irq_inv s"
    by (auto simp: linv_def)
  note d = irq_invD [OF q assms(3)]
  have lk: "lk_locked (locks (machine s) l)" "lk_cpu (locks (machine s) l) = Some i"
    using l assms(2) unfolding lock_inv_def owners_def by blast+
  have ne: "{k. (i, k) \<in> crit s} \<noteq> {}" using assms(2) by auto
  have pos: "1 \<le> depth s i" using d(1) ne assms(4)
    by (simp add: depth_def Suc_leI card_gt_0_iff)
  from holding_Ok [OF assms(3) d(4,5), of l] lk obtain m1 where
    m1: "holding i l (machine s) = Ok True m1" "only_cpu i (machine s) m1"
    "c_ncli (cpus m1 ! i) = depth s i" "\<not> c_if (cpus m1 ! i)"
    using d pos by (smt (verit))
  let ?m = "upd_lock l (\<lambda>k. k\<lparr>lk_locked := False\<rparr>)
      (upd_lock l (\<lambda>k. k\<lparr>lk_pcs := (lk_pcs k)[0 := 0], lk_cpu := None\<rparr>) m1)"
  have "i < length (cpus ?m)" using m1(2) assms(3) by (simp add: only_cpu_def)
  from popcli_Ok [OF this] m1 pos obtain m2 where m2: "popcli i ?m = Ok () m2" "only_cpu i ?m m2"
    "c_ncli (cpus m2 ! i) = depth s i - 1"
    by auto
  have "release i l (machine s) = Ok () m2"
    using m1(1) m2(1) by (simp add: release_def bnd_def panic_if_def ret_def modify_def)
  moreover have "\<not> lk_locked (locks m2 l)" "lk_cpu (locks m2 l) = None"
    using m2(2) by (simp_all add: only_cpu_def)
  ultimately show ?thesis using m2(3) d(2) by simp
qed

theorem release_by_holder_witness:
  "\<exists>m. release 1 L_kmem (machine mutex_demo) = Ok () m \<and> \<not> lk_locked (locks m L_kmem)
    \<and> c_ncli (cpus m ! 1) = 0"
proof -
  have "(1, L_kmem) \<in> crit mutex_demo" "1 < length (cpus (machine mutex_demo))"
    "pc mutex_demo 1 = Run" "c_ncli (cpus (machine mutex_demo) ! 1) = 1"
    by (simp_all add: mutex_demo_def)
  with release_by_holder [OF mutex_demo_reach, of 1 L_kmem] show ?thesis by auto
qed

section \<open>The one-processor view\<close>

text \<open>
  The rest of the kernel is modelled as the code one processor runs, with the set of locks
  that processor holds as its lock state. This is that set.
\<close>

definition abs_held :: "nat \<Rightarrow> mach \<Rightarrow> lockid set" where
  "abs_held c m = {l. lk_locked (locks m l) \<and> lk_cpu (locks m l) = Some c}"

definition cpu_ok :: "nat \<Rightarrow> mach \<Rightarrow> bool" where
  "cpu_ok c m \<longleftrightarrow> c < length (cpus m) \<and> 0 \<le> c_ncli (cpus m ! c)
     \<and> (c_if (cpus m ! c) \<longrightarrow> c_ncli (cpus m ! c) = 0)"

lemma acquire_abs:
  assumes "cpu_ok c m"
  shows "l \<in> abs_held c m \<Longrightarrow> acquire c pcs l m = Some (Panic ''acquire'')"
    and "l \<notin> abs_held c m \<Longrightarrow> lk_locked (locks m l) \<Longrightarrow> acquire c pcs l m = None"
    and "\<not> lk_locked (locks m l) \<Longrightarrow> \<exists>m'. acquire c pcs l m = Some (Ok () m')
      \<and> abs_held c m' = insert l (abs_held c m) \<and> cpu_ok c m'
      \<and> c_ncli (cpus m' ! c) = c_ncli (cpus m ! c) + 1"
proof -
  from assms have c: "c < length (cpus m)" by (simp add: cpu_ok_def)
  from pushcli_Ok [OF c] obtain m1 where m1: "pushcli c m = Ok () m1" "only_cpu c m m1"
    "c_ncli (cpus m1 ! c) = c_ncli (cpus m ! c) + 1" "\<not> c_if (cpus m1 ! c)" by blast
  have c1: "c < length (cpus m1)" "0 \<le> c_ncli (cpus m1 ! c)"
    "c_if (cpus m1 ! c) \<longrightarrow> c_ncli (cpus m1 ! c) = 0"
    using m1 assms by (auto simp: only_cpu_def cpu_ok_def)
  from holding_Ok [OF this, of l] obtain m2 where m2:
    "holding c l m1 = Ok (lk_locked (locks m l) \<and> lk_cpu (locks m l) = Some c) m2" "only_cpu c m m2"
    "c_ncli (cpus m2 ! c) = c_ncli (cpus m ! c) + 1" "\<not> c_if (cpus m2 ! c)"
    using m1 by (auto simp: only_cpu_def)
  show "l \<in> abs_held c m \<Longrightarrow> acquire c pcs l m = Some (Panic ''acquire'')"
    using m1(1) m2(1) by (simp add: acquire_def bnd_def abs_held_def)
  show "l \<notin> abs_held c m \<Longrightarrow> lk_locked (locks m l) \<Longrightarrow> acquire c pcs l m = None"
    using m1(1) m2 by (simp add: acquire_def bnd_def abs_held_def only_cpu_def)
  assume f: "\<not> lk_locked (locks m l)"
  let ?m = "upd_lock l (\<lambda>k. k\<lparr>lk_locked := True, lk_cpu := Some c, lk_pcs := pcs\<rparr>) m2"
  have "acquire c pcs l m = Some (Ok () ?m)"
    using f m1(1) m2 by (simp add: acquire_def bnd_def only_cpu_def)
  moreover have "abs_held c ?m = insert l (abs_held c m)"
    using m2(2) by (auto simp: abs_held_def only_cpu_def)
  moreover have "cpu_ok c ?m" using m2 assms by (simp add: cpu_ok_def only_cpu_def)
  ultimately show "\<exists>m'. acquire c pcs l m = Some (Ok () m')
      \<and> abs_held c m' = insert l (abs_held c m) \<and> cpu_ok c m'
      \<and> c_ncli (cpus m' ! c) = c_ncli (cpus m ! c) + 1"
    using m2(3) by auto
qed

end
