(* ===== verification/Kstate.thy ===== *)
theory Kstate
  imports Spinlock
begin

text \<open>
  The base of the kernel state as one processor sees it: the set of spin locks it holds.
  \<open>kacquire\<close> and \<open>krelease\<close> are what the rest of the kernel calls; they are the abstract
  view of \<^verbatim>\<open>acquire\<close> and \<^verbatim>\<open>release\<close> in \<open>Spinlock\<close>, with a lock that another processor
  holds taken to be released before the caller goes on. The locale \<open>locking\<close> states the
  contract of the two operations for their clients.
\<close>

record klock =
  held :: "lockid set"

definition kacquire :: "lockid \<Rightarrow> ('a klock_scheme, unit) kop" where
  "kacquire l s = (if l \<in> held s then Panic ''acquire'' else Ok () (s\<lparr>held := insert l (held s)\<rparr>))"

definition krelease :: "lockid \<Rightarrow> ('a klock_scheme, unit) kop" where
  "krelease l s = (if l \<in> held s then Ok () (s\<lparr>held := held s - {l}\<rparr>) else Panic ''release'')"

lemma wp_kacquire [wp_simps]:
  "wp E (kacquire l) Q s \<longleftrightarrow>
     (if l \<in> held s then ''acquire'' \<in> E else Q () (s\<lparr>held := insert l (held s)\<rparr>))"
  by (simp add: wp_def kacquire_def)

lemma wp_krelease [wp_simps]:
  "wp E (krelease l) Q s \<longleftrightarrow>
     (if l \<in> held s then Q () (s\<lparr>held := held s - {l}\<rparr>) else ''release'' \<in> E)"
  by (simp add: wp_def krelease_def)

lemma run_locks [run_simps]:
  "bnd (kacquire l) f s =
     (if l \<in> held s then Panic ''acquire'' else f () (s\<lparr>held := insert l (held s)\<rparr>))"
  "bnd (krelease l) f s =
     (if l \<in> held s then f () (s\<lparr>held := held s - {l}\<rparr>) else Panic ''release'')"
  by (simp_all add: bnd_def kacquire_def krelease_def)

lemma held_id: "held s = h \<Longrightarrow> s\<lparr>held := h\<rparr> = s"
  by auto

section \<open>The two views of a lock agree\<close>

text \<open>
  A processor of \<open>Spinlock\<close> and a one-processor state correspond when they have the same
  locks; the processor's \<open>pushcli\<close> depth is then the number of locks held.
\<close>

definition same_locks :: "nat \<Rightarrow> mach \<Rightarrow> 'a klock_scheme \<Rightarrow> bool" where
  "same_locks c m s \<longleftrightarrow> cpu_ok c m \<and> abs_held c m = held s \<and> finite (held s)
     \<and> c_ncli (cpus m ! c) = int (card (held s))"

lemma acquire_sim:
  assumes s: "same_locks c m s" and ok: "kacquire l s = Ok () t" and free: "\<not> lk_locked (locks m l)"
  shows "\<exists>m'. acquire c pcs l m = Some (Ok () m') \<and> same_locks c m' t"
proof -
  from s have "cpu_ok c m" by (simp add: same_locks_def)
  from acquire_abs(3) [OF this free] obtain m' where m': "acquire c pcs l m = Some (Ok () m')"
    "abs_held c m' = insert l (abs_held c m)" "cpu_ok c m'"
    "c_ncli (cpus m' ! c) = c_ncli (cpus m ! c) + 1" by blast
  moreover from ok have "l \<notin> held s" "t = s\<lparr>held := insert l (held s)\<rparr>"
    by (auto simp: kacquire_def split: if_splits)
  ultimately show ?thesis using s by (auto simp: same_locks_def)
qed

lemma acquire_panic_sim:
  "same_locks c m s \<Longrightarrow> kacquire l s = Panic e \<Longrightarrow> acquire c pcs l m = Some (Panic e)"
  by (auto simp: same_locks_def kacquire_def acquire_abs(1) split: if_splits)

section \<open>The locking contract\<close>

text \<open>
  What a routine relies on when it brackets a critical section: taking a lock that is not
  held succeeds and marks it, giving it back restores the set, and a state change in between
  that leaves the set alone does not disturb it.
\<close>

locale locking =
  fixes acq rel :: "lockid \<Rightarrow> 's \<Rightarrow> (unit, 's) res"
    and locks_of :: "'s \<Rightarrow> lockid set"
    and set_locks :: "lockid set \<Rightarrow> 's \<Rightarrow> 's"
  assumes acq_free: "l \<notin> locks_of s \<Longrightarrow> acq l s = Ok () (set_locks (insert l (locks_of s)) s)"
    and acq_held: "l \<in> locks_of s \<Longrightarrow> acq l s = Panic ''acquire''"
    and rel_held: "l \<in> locks_of s \<Longrightarrow> rel l s = Ok () (set_locks (locks_of s - {l}) s)"
    and rel_free: "l \<notin> locks_of s \<Longrightarrow> rel l s = Panic ''release''"
    and locks_set: "locks_of (set_locks L s) = L"
begin

lemma critical_section:
  assumes "l \<notin> locks_of s"
    and "body (set_locks (insert l (locks_of s)) s) = Ok x t"
    and "locks_of t = insert l (locks_of s)"
  shows "seq (acq l) (bnd body (\<lambda>x. seq (rel l) (ret x))) s = Ok x (set_locks (locks_of s) t)"
  using assms by (simp add: bnd_def acq_free rel_held ret_def)

lemma no_double_acquire: "seq (acq l) (acq l) s = Panic ''acquire''"
  by (cases "l \<in> locks_of s") (simp_all add: bnd_def acq_free acq_held locks_set)

end

interpretation klk: locking kacquire krelease held "\<lambda>L s. s\<lparr>held := L\<rparr>"
  by unfold_locales (simp_all add: kacquire_def krelease_def)

end
