(* ===== verification/Strings.thy ===== *)
theory Strings
  imports Prelude
begin

text \<open>
  \<^verbatim>\<open>string.c\<close>: the kernel's memory and string routines, over a byte-addressed memory with
  32-bit addresses that wrap as the processor's do. Each loop is a recursive function on the
  number of bytes left; the lemmas give what the routine leaves in memory, and for the
  string routines what it does to the arrays the rest of the kernel keeps as byte lists.
\<close>

type_synonym memory = "uint \<Rightarrow> uchar"

definition rd32 :: "memory \<Rightarrow> uint \<Rightarrow> uint" where
  "rd32 m a = un32 [m a, m (a + 1), m (a + 2), m (a + 3)]"

definition wr32 :: "memory \<Rightarrow> uint \<Rightarrow> uint \<Rightarrow> memory" where
  "wr32 m a v = m(a := le32 v ! 0, a + 1 := le32 v ! 1, a + 2 := le32 v ! 2, a + 3 := le32 v ! 3)"

text \<open>The \<open>n\<close> bytes at address \<open>a\<close>.\<close>

definition bytes :: "memory \<Rightarrow> uint \<Rightarrow> nat \<Rightarrow> uchar list" where
  "bytes m a n = map (\<lambda>i. m (a + of_nat i)) [0..<n]"

lemma length_bytes [simp]: "length (bytes m a n) = n"
  by (simp add: bytes_def)

lemma nth_bytes [simp]: "i < n \<Longrightarrow> bytes m a n ! i = m (a + of_nat i)"
  by (simp add: bytes_def)

section \<open>memset\<close>

text \<open>\<^verbatim>\<open>stosb\<close> and \<^verbatim>\<open>stosl\<close> of \<^verbatim>\<open>x86.h\<close>: \<open>rep\<close> stores of bytes and of words.\<close>

fun stosb :: "memory \<Rightarrow> uint \<Rightarrow> uchar \<Rightarrow> nat \<Rightarrow> memory" where
  "stosb m a c 0 = m"
| "stosb m a c (Suc n) = stosb (m(a := c)) (a + 1) c n"

fun stosl :: "memory \<Rightarrow> uint \<Rightarrow> uint \<Rightarrow> nat \<Rightarrow> memory" where
  "stosl m a c 0 = m"
| "stosl m a c (Suc n) = stosl (wr32 m a c) (a + 4) c n"

definition memset :: "memory \<Rightarrow> uint \<Rightarrow> uint \<Rightarrow> uint \<Rightarrow> memory" where
  "memset m dst c n =
     (if dst mod 4 = 0 \<and> n mod 4 = 0 then
        let c = c AND 0xFF in
        stosl m dst (push_bit 24 c OR push_bit 16 c OR push_bit 8 c OR c) (unat n div 4)
      else stosb m dst (ucast c) (unat n))"

lemma le32_fill:
  fixes c :: uint
  defines "b \<equiv> c AND 0xFF"
  shows "le32 (push_bit 24 b OR push_bit 16 b OR push_bit 8 b OR b) = replicate 4 (ucast c)"
proof -
  have "b = take_bit 8 c"
    by (simp add: b_def take_bit_eq_mask mask_eq_exp_minus_1)
  then show ?thesis
    unfolding le32_def replicate4
    by (auto intro!: bit_word_eqI simp: bit_simps)
qed

lemma unat_diff_Suc:
  fixes x a :: uint
  assumes "n < 2 ^ 32"
  shows "unat (x - a) < Suc n \<longleftrightarrow> x = a \<or> unat (x - (a + 1)) < n"
proof (cases "x = a")
  case False
  then have "x - a \<noteq> 0" by simp
  then have "unat (x - a - 1) = unat (x - a) - 1" and "0 < unat (x - a)"
    by (auto simp: unat_minus_one unat_gt_0)
  then show ?thesis using False by (simp add: diff_diff_eq) linarith
qed simp

lemma stosb_eq:
  "n \<le> 2 ^ 32 \<Longrightarrow> stosb m a c n x = (if unat (x - a) < n then c else m x)"
proof (induction n arbitrary: m a)
  case (Suc n)
  then show ?case by (auto simp: unat_diff_Suc)
qed simp

lemma stosb4:
  "stosb m a c (Suc (Suc (Suc (Suc k)))) = stosb (m(a := c, a + 1 := c, a + 2 := c, a + 3 := c)) (a + 4) c k"
  by (simp add: add.assoc)

lemma stosl_stosb: "le32 v = replicate 4 c \<Longrightarrow> stosl m a v n = stosb m a c (4 * n)"
proof (induction n arbitrary: m a)
  case (Suc n)
  have e: "4 * Suc n = Suc (Suc (Suc (Suc (4 * n))))" by simp
  have "stosb m a c (4 * Suc n) = stosb (m(a := c, a + 1 := c, a + 2 := c, a + 3 := c)) (a + 4) c (4 * n)"
    unfolding e by (rule stosb4)
  also have "m(a := c, a + 1 := c, a + 2 := c, a + 3 := c) = wr32 m a v"
    using Suc.prems by (simp add: wr32_def replicate4)
  finally show ?case using Suc.IH [OF Suc.prems, of "wr32 m a v" "a + 4"] by (simp only: stosl.simps)
qed simp

lemma memset_stosb: "memset m dst c n = stosb m dst (ucast c) (unat n)"
proof (cases "dst mod 4 = 0 \<and> n mod 4 = 0")
  case True
  then have "unat (n mod 4) = 0" by simp
  then have "unat n mod 4 = 0" by (simp add: unat_mod_distrib)
  then have "4 * (unat n div 4) = unat n" by presburger
  then show ?thesis
    using True by (simp only: memset_def Let_def stosl_stosb [OF le32_fill] if_True simp_thms)
qed (auto simp: memset_def)

lemma memset_eq: "memset m dst c n = (\<lambda>x. if unat (x - dst) < unat n then ucast c else m x)"
  by (rule ext) (simp add: memset_stosb stosb_eq less_imp_le)

section \<open>memmove and memcmp\<close>

text \<open>The two copying loops: upwards from the first byte, downwards from past the last one.\<close>

fun copy_up :: "memory \<Rightarrow> uint \<Rightarrow> uint \<Rightarrow> nat \<Rightarrow> memory" where
  "copy_up m d s 0 = m"
| "copy_up m d s (Suc n) = copy_up (m(d := m s)) (d + 1) (s + 1) n"

fun copy_down :: "memory \<Rightarrow> uint \<Rightarrow> uint \<Rightarrow> nat \<Rightarrow> memory" where
  "copy_down m d s 0 = m"
| "copy_down m d s (Suc n) = copy_down (m(d - 1 := m (s - 1))) (d - 1) (s - 1) n"

definition memmove :: "memory \<Rightarrow> uint \<Rightarrow> uint \<Rightarrow> uint \<Rightarrow> memory" where
  "memmove m dst src n =
     (if src < dst \<and> src + n > dst then copy_down m (dst + n) (src + n) (unat n)
      else copy_up m dst src (unat n))"

fun memcmp_loop :: "memory \<Rightarrow> uint \<Rightarrow> uint \<Rightarrow> nat \<Rightarrow> int" where
  "memcmp_loop m s1 s2 0 = 0"
| "memcmp_loop m s1 s2 (Suc n) =
     (if m s1 \<noteq> m s2 then uint (m s1) - uint (m s2) else memcmp_loop m (s1 + 1) (s2 + 1) n)"

definition memcmp :: "memory \<Rightarrow> uint \<Rightarrow> uint \<Rightarrow> uint \<Rightarrow> int" where
  "memcmp m v1 v2 n = memcmp_loop m v1 v2 (unat n)"

text \<open>
  Copying upwards is right when the destination is not inside the source after its start;
  copying downwards when the source is not inside the destination after its start. Distances
  are taken modulo the size of the address space.
\<close>

lemma copy_up_eq:
  assumes "n \<le> 2 ^ 32" and "d = s \<or> n \<le> unat (d - s)"
  shows "copy_up m d s n x = (if unat (x - d) < n then m (s + (x - d)) else m x)"
  using assms
proof (induction n arbitrary: m d s)
  case (Suc n)
  have "d + 1 = s + 1 \<or> n \<le> unat (d + 1 - (s + 1))" using Suc.prems by auto
  then have IH: "copy_up (m(d := m s)) (d + 1) (s + 1) n x =
      (if unat (x - (d + 1)) < n then (m(d := m s)) (s + 1 + (x - (d + 1))) else (m(d := m s)) x)"
    using Suc.prems by (intro Suc.IH) auto
  have n: "n < 2 ^ 32" using Suc.prems by simp
  have e: "s + 1 + (x - (d + 1)) = s + (x - d)" by simp
  show ?case
  proof (cases "unat (x - (d + 1)) < n \<and> s + (x - d) = d \<and> d \<noteq> s")
    case True
    then have eq: "x - (d + 1) = d - s - 1" by (simp add: algebra_simps)
    have "unat (d - s - 1) < n" using True unfolding eq by blast
    moreover have "d - s \<noteq> 0" using True by simp
    then have "unat (d - s - 1) = unat (d - s) - 1" by (rule unat_minus_one)
    ultimately have "unat (d - s) \<le> n" by linarith
    then show ?thesis using Suc.prems True by auto
  next
    case False
    then show ?thesis using IH n e by (auto simp: unat_diff_Suc)
  qed
qed simp

lemma copy_down_eq:
  assumes "n \<le> 2 ^ 32" and "d = s \<or> n \<le> unat (s - d)"
  shows "copy_down m (d + of_nat n) (s + of_nat n) n x =
    (if unat (x - d) < n then m (s + (x - d)) else m x)"
  using assms
proof (induction n arbitrary: m)
  case (Suc n)
  let ?d = "d + of_nat n" and ?s = "s + of_nat n"
  have IH: "copy_down (m(?d := m ?s)) ?d ?s n x =
      (if unat (x - d) < n then (m(?d := m ?s)) (s + (x - d)) else (m(?d := m ?s)) x)"
    using Suc.prems by (intro Suc.IH) auto
  have n: "unat (of_nat n :: uint) = n" using Suc.prems by (simp add: unat_of_nat_small)
  have last: "unat (x - d) < Suc n \<longleftrightarrow> x = ?d \<or> unat (x - d) < n"
  proof
    assume "unat (x - d) < Suc n"
    then consider "unat (x - d) = n" | "unat (x - d) < n" by linarith
    then show "x = ?d \<or> unat (x - d) < n"
    proof cases
      case 1
      then have "x - d = of_nat n" using word_unat_eq_iff n by metis
      then have "x = ?d" by (simp add: algebra_simps)
      then show ?thesis ..
    qed simp
  qed (use n in auto)
  show ?case
  proof (cases "unat (x - d) < n \<and> s + (x - d) = ?d \<and> d \<noteq> s")
    case True
    then have eq: "s - d = of_nat n - (x - d)" by (simp add: algebra_simps)
    have le: "x - d \<le> of_nat n" using True n by (simp add: word_le_nat_alt)
    have "unat (s - d) = n - unat (x - d)"
      unfolding eq using n by (simp add: unat_sub [OF le])
    then have "unat (s - d) \<le> n" by simp
    then show ?thesis using Suc.prems True by auto
  next
    case False
    have "copy_down m (d + of_nat (Suc n)) (s + of_nat (Suc n)) (Suc n) x =
        copy_down (m(?d := m ?s)) ?d ?s n x" by (simp add: add.assoc [symmetric])
    moreover have "s + (x - d) = ?s" if "x = ?d" using that by simp
    ultimately show ?thesis using IH last False n by auto
  qed
qed simp

text \<open>The specification of \<open>memmove\<close>: the destination holds what the source held before.\<close>

definition moved :: "memory \<Rightarrow> uint \<Rightarrow> uint \<Rightarrow> nat \<Rightarrow> memory" where
  "moved m dst src n = (\<lambda>x. if unat (x - dst) < n then m (src + (x - dst)) else m x)"

lemma memmove_moved:
  assumes s: "unat src + unat n < 2 ^ 32" and d: "unat dst + unat n < 2 ^ 32"
  shows "memmove m dst src n = moved m dst src (unat n)"
proof (cases "src < dst \<and> src + n > dst")
  case True
  have "unat (src - dst) = 2 ^ 32 - (unat dst - unat src)"
    using True by (simp add: word_less_nat_alt unat_sub_if')
  moreover have "unat n \<le> 2 ^ 32 - (unat dst - unat src)" using d by linarith
  ultimately have "copy_down m (dst + of_nat (unat n)) (src + of_nat (unat n)) (unat n) x =
      moved m dst src (unat n) x" for x
    unfolding moved_def by (intro copy_down_eq) auto
  then show ?thesis using True by (simp add: memmove_def fun_eq_iff)
next
  case False
  have "dst = src \<or> unat n \<le> unat (dst - src)"
  proof (cases "src < dst")
    case True
    with False have "src + n \<le> dst" by simp
    then have "unat src + unat n \<le> unat dst"
      using s by (simp add: word_le_nat_alt unat_word_ariths)
    moreover have "unat (dst - src) = unat dst - unat src"
      using True by (simp add: unat_sub less_imp_le)
    ultimately have "unat n \<le> unat (dst - src)" by linarith
    then show ?thesis ..
  next
    case nl: False
    show ?thesis
    proof (cases "dst = src")
      case False
      then have lt: "dst < src" using nl by simp
      then have "unat (dst - src) = 2 ^ 32 - (unat src - unat dst)"
        by (simp add: word_less_nat_alt unat_sub_if')
      then have "unat n \<le> unat (dst - src)" using s by linarith
      then show ?thesis ..
    qed simp
  qed
  then have "copy_up m dst src (unat n) x = moved m dst src (unat n) x" for x
    unfolding moved_def by (intro copy_up_eq) (auto intro: less_imp_le)
  then have "copy_up m dst src (unat n) = moved m dst src (unat n)" by (rule ext)
  then show ?thesis using False by (simp only: memmove_def if_False)
qed

lemma memcmp_loop_0: "memcmp_loop m s1 s2 n = 0 \<longleftrightarrow> bytes m s1 n = bytes m s2 n"
proof (induction n arbitrary: s1 s2)
  case (Suc n)
  have "bytes m a (Suc n) = m a # bytes m (a + 1) n" for a
    unfolding bytes_def by (simp add: upt_conv_Cons map_Suc_upt [symmetric] add.assoc del: upt_Suc)
  then show ?case using Suc.IH by (auto simp: word_uint_eq_iff [symmetric])
qed (simp add: bytes_def)

section \<open>String routines\<close>

text \<open>\<^verbatim>\<open>memcpy\<close> only calls \<open>memmove\<close>.\<close>

definition memcpy :: "memory \<Rightarrow> uint \<Rightarrow> uint \<Rightarrow> uint \<Rightarrow> memory" where
  "memcpy m dst src n = memmove m dst src n"

fun strncmp_loop :: "memory \<Rightarrow> uint \<Rightarrow> uint \<Rightarrow> nat \<Rightarrow> int" where
  "strncmp_loop m p q 0 = 0"
| "strncmp_loop m p q (Suc n) =
     (if m p \<noteq> 0 \<and> m p = m q then strncmp_loop m (p + 1) (q + 1) n
      else uint (m p) - uint (m q))"

definition strncmp :: "memory \<Rightarrow> uint \<Rightarrow> uint \<Rightarrow> uint \<Rightarrow> int" where
  "strncmp m p q n = strncmp_loop m p q (unat n)"

text \<open>
  \<open>strncpy\<close>: copy up to and including a NUL, then fill what is left of the \<open>n\<close> bytes with
  NULs; the second loop is \<open>stosb\<close> with 0. A negative \<open>n\<close> copies nothing.
\<close>

fun strncpy_loop :: "memory \<Rightarrow> uint \<Rightarrow> uint \<Rightarrow> nat \<Rightarrow> memory" where
  "strncpy_loop m s t 0 = m"
| "strncpy_loop m s t (Suc n) =
     (if m t \<noteq> 0 then strncpy_loop (m(s := m t)) (s + 1) (t + 1) n
      else stosb (m(s := m t)) (s + 1) 0 n)"

definition strncpy :: "memory \<Rightarrow> uint \<Rightarrow> uint \<Rightarrow> int \<Rightarrow> memory" where
  "strncpy m s t n = strncpy_loop m s t (nat n)"

text \<open>
  \<open>safestrcpy\<close>: at most \<open>n - 1\<close> bytes, stopping after a copied NUL (where \<open>s\<close> has already
  moved past it), then a NUL.
\<close>

fun safestrcpy_loop :: "memory \<Rightarrow> uint \<Rightarrow> uint \<Rightarrow> nat \<Rightarrow> memory" where
  "safestrcpy_loop m s t 0 = m(s := 0)"
| "safestrcpy_loop m s t (Suc k) =
     (if m t \<noteq> 0 then safestrcpy_loop (m(s := m t)) (s + 1) (t + 1) k
      else (m(s := m t))(s + 1 := 0))"

definition safestrcpy :: "memory \<Rightarrow> uint \<Rightarrow> uint \<Rightarrow> int \<Rightarrow> memory" where
  "safestrcpy m s t n = (if n \<le> 0 then m else safestrcpy_loop m s t (nat n - 1))"

text \<open>\<open>strlen\<close> has no bound: without a NUL it does not return.\<close>

partial_function (option) strlen_from :: "memory \<Rightarrow> uint \<Rightarrow> nat \<Rightarrow> nat option" where
  "strlen_from m s n = (if m (s + of_nat n) = 0 then Some n else strlen_from m s (Suc n))"

definition strlen :: "memory \<Rightarrow> uint \<Rightarrow> nat option" where
  "strlen m s = strlen_from m s 0"

subsection \<open>What they do to arrays\<close>

text \<open>
  The same operations on the arrays themselves: comparison up to the first NUL or the end,
  and copying a string into an array of its own length padded with NULs.
\<close>

fun ncmp :: "uchar list \<Rightarrow> uchar list \<Rightarrow> int" where
  "ncmp (x # xs) (y # ys) = (if x \<noteq> 0 \<and> x = y then ncmp xs ys else uint x - uint y)"
| "ncmp _ _ = 0"

definition cstr :: "uchar list \<Rightarrow> uchar list" where
  "cstr xs = takeWhile (\<lambda>c. c \<noteq> 0) xs"

definition ncpy :: "uchar list \<Rightarrow> uchar list" where
  "ncpy xs = cstr xs @ replicate (length xs - length (cstr xs)) 0"

lemma cstr_simps [simp]: "cstr [] = []" "cstr (x # xs) = (if x = 0 then [] else x # cstr xs)"
  by (simp_all add: cstr_def)

lemma cstr_le: "length (cstr xs) \<le> length xs"
  by (simp add: cstr_def length_takeWhile_le)

lemma ncpy_simps [simp]:
  "ncpy [] = []" "ncpy (x # xs) = (if x = 0 then replicate (Suc (length xs)) 0 else x # ncpy xs)"
  by (simp_all add: ncpy_def)

lemma length_ncpy [simp]: "length (ncpy xs) = length xs"
  by (induction xs) auto

lemma cstr_replicate0 [simp]: "cstr (replicate n 0) = []"
  by (cases n) simp_all

lemma cstr_ncpy [simp]: "cstr (ncpy xs) = cstr xs"
  by (induction xs) auto

lemma ncmp_0: "length xs = length ys \<Longrightarrow> ncmp xs ys = 0 \<longleftrightarrow> cstr xs = cstr ys"
proof (induction xs ys rule: ncmp.induct)
  case (1 x xs y ys)
  then show ?case by (auto simp: uint_0_iff dest: word_uint_eq_iff [THEN iffD2])
qed auto

lemma bytes_Suc: "bytes m a (Suc n) = m a # bytes m (a + 1) n"
  unfolding bytes_def by (simp add: upt_conv_Cons map_Suc_upt [symmetric] add.assoc del: upt_Suc)

lemma strncmp_ncmp: "strncmp m p q n = ncmp (bytes m p (unat n)) (bytes m q (unat n))"
proof -
  have "strncmp_loop m p q k = ncmp (bytes m p k) (bytes m q k)" for k
    by (induction k arbitrary: p q) (simp_all add: bytes_Suc, simp add: bytes_def)
  then show ?thesis by (simp add: strncmp_def)
qed

text \<open>Two ranges of \<open>n\<close> bytes with no byte in common.\<close>

definition apart :: "uint \<Rightarrow> uint \<Rightarrow> nat \<Rightarrow> bool" where
  "apart s t n \<longleftrightarrow> (\<forall>i < n. \<forall>j < n. s + of_nat i \<noteq> t + of_nat j)"

lemma apartD: "apart s t n \<Longrightarrow> i < n \<Longrightarrow> j < n \<Longrightarrow> s + of_nat i \<noteq> t + of_nat j"
  by (simp add: apart_def)

lemma apart_Suc: "apart s t (Suc n) \<Longrightarrow> apart (s + 1) (t + 1) n \<and> s \<noteq> t"
  using apartD [of s t "Suc n" "Suc _" "Suc _"] apartD [of s t "Suc n" 0 0]
  by (auto simp: apart_def add.assoc)

lemma apart_head: "apart s t (Suc n) \<Longrightarrow> i < n \<Longrightarrow> t + 1 + of_nat i \<noteq> s"
  using apartD [of s t "Suc n" 0 "Suc i"] by (auto simp: add.assoc)

lemma bytes_upd_other: "\<forall>i < n. a + of_nat i \<noteq> x \<Longrightarrow> bytes (m(x := v)) a n = bytes m a n"
  by (simp add: bytes_def)

lemma strncpy_loop_out: "unat (x - s) \<ge> n \<Longrightarrow> n \<le> 2 ^ 32 \<Longrightarrow> strncpy_loop m s t n x = m x"
proof (induction n arbitrary: m s t)
  case (Suc n)
  then have "\<not> unat (x - s) < Suc n" by simp
  then have "x \<noteq> s" "n \<le> unat (x - (s + 1))" using Suc.prems(2) by (auto simp: unat_diff_Suc)
  then show ?case using Suc by (auto simp: stosb_eq)
qed simp

lemma unat_minus1: "unat (s - (s + 1) :: uint) = 2 ^ 32 - 1"
  by (simp add: unsigned_minus_1_eq_mask mask_eq_exp_minus_1)

lemma stosb_bytes: "n \<le> 2 ^ 32 \<Longrightarrow> bytes (stosb m a c n) a n = replicate n c"
  by (intro nth_equalityI) (auto simp: stosb_eq unat_of_nat_small)

lemma strncpy_loop_bytes:
  "apart s t n \<Longrightarrow> n \<le> 2 ^ 32 \<Longrightarrow> bytes (strncpy_loop m s t n) s n = ncpy (bytes m t n)"
proof (induction n arbitrary: m s t)
  case (Suc n)
  have ap: "apart (s + 1) (t + 1) n" using apart_Suc [OF Suc.prems(1)] by simp
  have n: "n \<le> 2 ^ 32" "n \<le> unat (s - (s + 1))" using Suc.prems(2) unat_minus1 [of s] by auto
  have r: "bytes (m(s := v)) (t + 1) n = bytes m (t + 1) n" for v
    using apart_head [OF Suc.prems(1)] by (intro bytes_upd_other) auto
  show ?case
  proof (cases "m t = 0")
    case True
    have "stosb (m(s := 0)) (s + 1) 0 n s = 0" using n by (simp add: stosb_eq)
    then show ?thesis using n True by (simp add: bytes_Suc stosb_bytes)
  next
    case False
    have "bytes (strncpy_loop (m(s := m t)) (s + 1) (t + 1) n) (s + 1) n = ncpy (bytes m (t + 1) n)"
      using Suc.IH [OF ap n(1), of "m(s := m t)"] unfolding r .
    then show ?thesis using n False by (simp add: bytes_Suc strncpy_loop_out)
  qed
qed (simp add: bytes_def)

lemma safestrcpy_loop_out:
  "unat (x - s) > k \<Longrightarrow> k < 2 ^ 32 \<Longrightarrow> safestrcpy_loop m s t k x = m x"
proof (induction k arbitrary: m s t)
  case 0
  then show ?case by auto
next
  case (Suc k)
  then have "\<not> unat (x - s) < Suc (Suc k)" by simp
  then have "x \<noteq> s" "\<not> unat (x - (s + 1)) < Suc k" using Suc.prems(2) by (auto simp: unat_diff_Suc)
  then show ?case using Suc by auto
qed

lemma safestrcpy_loop_cstr:
  "apart s t (Suc k) \<Longrightarrow> k < 2 ^ 32 - 1 \<Longrightarrow>
     cstr (bytes (safestrcpy_loop m s t k) s (Suc k)) = cstr (bytes m t k)
     \<and> (\<exists>i \<le> k. safestrcpy_loop m s t k (s + of_nat i) = 0)"
proof (induction k arbitrary: m s t)
  case 0
  then show ?case by (simp add: bytes_Suc) (simp add: bytes_def)
next
  case (Suc k)
  have ap: "apart (s + 1) (t + 1) (Suc k)" using apart_Suc [OF Suc.prems(1)] by simp
  have r: "bytes (m(s := v)) (t + 1) k = bytes m (t + 1) k" for v
    using apart_head [OF Suc.prems(1)] by (intro bytes_upd_other) auto
  show ?case
  proof (cases "m t = 0")
    case True
    then show ?thesis by (auto simp: bytes_Suc intro!: exI [of _ 0])
  next
    case False
    let ?m = "m(s := m t)"
    have s: "safestrcpy_loop ?m (s + 1) (t + 1) k s = m t"
      using Suc.prems(2) unat_minus1 [of s] by (simp add: safestrcpy_loop_out)
    have IH: "cstr (bytes (safestrcpy_loop ?m (s + 1) (t + 1) k) (s + 1) (Suc k)) = cstr (bytes m (t + 1) k)"
      "\<exists>i \<le> k. safestrcpy_loop ?m (s + 1) (t + 1) k (s + 1 + of_nat i) = 0"
    proof -
      have "k < 2 ^ 32 - 1" using Suc.prems(2) by simp
      from Suc.IH [OF ap this, of ?m] show
        "cstr (bytes (safestrcpy_loop ?m (s + 1) (t + 1) k) (s + 1) (Suc k)) = cstr (bytes m (t + 1) k)"
        "\<exists>i \<le> k. safestrcpy_loop ?m (s + 1) (t + 1) k (s + 1 + of_nat i) = 0"
        unfolding r by blast+
    qed
    from IH(2) obtain i where "i \<le> k" "safestrcpy_loop ?m (s + 1) (t + 1) k (s + of_nat (Suc i)) = 0"
      by (auto simp: add.assoc)
    then have "\<exists>i \<le> Suc k. safestrcpy_loop m s t (Suc k) (s + of_nat i) = 0"
      using False by (intro exI [of _ "Suc i"]) simp
    moreover have "cstr (bytes (safestrcpy_loop m s t (Suc k)) s (Suc (Suc k))) = cstr (bytes m t (Suc k))"
      unfolding bytes_Suc [of _ _ "Suc k"] bytes_Suc [of m t k] using False s IH(1) by simp
    ultimately show ?thesis by simp
  qed
qed

lemma strlen_from_eq:
  "m (s + of_nat n) = 0 \<Longrightarrow> k \<le> n \<Longrightarrow> (\<And>i. k \<le> i \<Longrightarrow> i < n \<Longrightarrow> m (s + of_nat i) \<noteq> 0) \<Longrightarrow>
     strlen_from m s k = Some n"
proof (induction "n - k" arbitrary: k)
  case 0
  then show ?case by (subst strlen_from.simps) simp
next
  case (Suc d)
  then have "strlen_from m s (Suc k) = Some n" by auto
  moreover have "m (s + of_nat k) \<noteq> 0" using Suc.hyps(2) Suc.prems(3) [of k] by auto
  ultimately show ?case by (subst strlen_from.simps) simp
qed

end
