(* ===== verification/Mmu.thy ===== *)
theory Mmu
  imports Prelude
begin

text \<open>
  The address arithmetic of \<^verbatim>\<open>mmu.h\<close> and \<^verbatim>\<open>memlayout.h\<close> on 32-bit words: page rounding,
  the three parts of a virtual address, the parts of a page table entry, and the kernel's
  fixed offset between virtual and physical addresses. The lemmas relate the masks and
  shifts to division by the page size and show that the parts of an address recompose.
\<close>

abbreviation (input) EXTMEM :: uint where "EXTMEM \<equiv> 0x100000"
abbreviation (input) PHYSTOP :: uint where "PHYSTOP \<equiv> 0xE000000"
abbreviation (input) DEVSPACE :: uint where "DEVSPACE \<equiv> 0xFE000000"
abbreviation (input) KERNBASE :: uint where "KERNBASE \<equiv> 0x80000000"
abbreviation (input) KERNLINK :: uint where "KERNLINK \<equiv> KERNBASE + EXTMEM"

definition V2P :: "uint \<Rightarrow> uint" where "V2P a = a - KERNBASE"
definition P2V :: "uint \<Rightarrow> uint" where "P2V a = a + KERNBASE"

abbreviation (input) PGSIZE :: uint where "PGSIZE \<equiv> 4096"

definition PDX :: "uint \<Rightarrow> uint" where "PDX va = drop_bit 22 va AND 0x3FF"
definition PTX :: "uint \<Rightarrow> uint" where "PTX va = drop_bit 12 va AND 0x3FF"
definition PGADDR :: "uint \<Rightarrow> uint \<Rightarrow> uint \<Rightarrow> uint" where
  "PGADDR d t o' = push_bit 22 d OR push_bit 12 t OR o'"

definition PGROUNDUP :: "uint \<Rightarrow> uint" where
  "PGROUNDUP sz = (sz + PGSIZE - 1) AND NOT (PGSIZE - 1)"
definition PGROUNDDOWN :: "uint \<Rightarrow> uint" where
  "PGROUNDDOWN a = a AND NOT (PGSIZE - 1)"

abbreviation (input) PTE_P :: uint where "PTE_P \<equiv> 1"
abbreviation (input) PTE_W :: uint where "PTE_W \<equiv> 2"
abbreviation (input) PTE_U :: uint where "PTE_U \<equiv> 4"
abbreviation (input) PTE_PS :: uint where "PTE_PS \<equiv> 0x80"

definition PTE_ADDR :: "uint \<Rightarrow> uint" where "PTE_ADDR pte = pte AND NOT 0xFFF"
definition PTE_FLAGS :: "uint \<Rightarrow> uint" where "PTE_FLAGS pte = pte AND 0xFFF"

section \<open>Masks as bit positions\<close>

lemma mask12: "(0xFFF :: uint) = mask 12" and mask10: "(0x3FF :: uint) = mask 10"
  by (simp_all add: mask_eq_exp_minus_1)

lemma bit_PGROUNDDOWN: "bit (PGROUNDDOWN a) n \<longleftrightarrow> 12 \<le> n \<and> bit a n"
proof -
  have "PGROUNDDOWN a = a AND NOT (mask 12)" by (simp add: PGROUNDDOWN_def mask_eq_exp_minus_1)
  then show ?thesis by (auto simp: bit_simps dest: bit_imp_le_length)
qed

lemma bit_PTE_ADDR: "bit (PTE_ADDR a) n \<longleftrightarrow> 12 \<le> n \<and> bit a n"
  using bit_PGROUNDDOWN [of a n] by (simp add: PTE_ADDR_def PGROUNDDOWN_def)

lemma bit_PTE_FLAGS: "bit (PTE_FLAGS a) n \<longleftrightarrow> n < 12 \<and> bit a n"
  unfolding PTE_FLAGS_def mask12 by (auto simp: bit_simps)

lemma bit_PDX: "bit (PDX a) n \<longleftrightarrow> n < 10 \<and> bit a (22 + n)"
  unfolding PDX_def mask10 by (auto simp: bit_simps)

lemma bit_PTX: "bit (PTX a) n \<longleftrightarrow> n < 10 \<and> bit a (12 + n)"
  unfolding PTX_def mask10 by (auto simp: bit_simps)

section \<open>Rounding\<close>

lemma unat_PGROUNDDOWN: "unat (PGROUNDDOWN a) = unat a div 4096 * 4096"
proof -
  have "PGROUNDDOWN a = push_bit 12 (drop_bit 12 a)"
    by (rule bit_word_eqI) (auto simp: bit_PGROUNDDOWN bit_simps)
  then have "unat (PGROUNDDOWN a) = unat (drop_bit 12 a * 4096)"
    by (simp add: push_bit_eq_mult)
  also have "\<dots> = (unat (drop_bit 12 a) * 4096) mod 2 ^ 32" by (simp add: unat_word_ariths)
  also have "unat (drop_bit 12 a) = unat a div 4096"
    by (simp add: drop_bit_eq_div unat_div_distrib)
  also have "(unat a div 4096 * 4096) mod 2 ^ 32 = unat a div 4096 * 4096"
  proof (rule mod_less)
    have "unat a div 4096 * 4096 \<le> unat a" by simp
    also have "\<dots> < 2 ^ 32" by simp
    finally show "unat a div 4096 * 4096 < 2 ^ 32" .
  qed
  finally show ?thesis .
qed

lemma unat_PGROUNDUP:
  assumes "unat a \<le> 0xFFFFF000"
  shows "unat (PGROUNDUP a) = (unat a + 4095) div 4096 * 4096"
proof -
  have "PGROUNDUP a = PGROUNDDOWN (a + 4095)" by (simp add: PGROUNDUP_def PGROUNDDOWN_def add.commute)
  moreover have "unat (a + 4095) = unat a + 4095"
    using assms by (simp add: unat_word_ariths)
  ultimately show ?thesis by (simp add: unat_PGROUNDDOWN)
qed

lemma PGROUNDDOWN_le: "unat (PGROUNDDOWN a) \<le> unat a"
  unfolding unat_PGROUNDDOWN by (metis div_times_less_eq_dividend)

lemma PGROUNDUP_ge: "unat a \<le> 0xFFFFF000 \<Longrightarrow> unat a \<le> unat (PGROUNDUP a)"
  by (simp add: unat_PGROUNDUP)

lemma PGROUNDUP_less: "unat a \<le> 0xFFFFF000 \<Longrightarrow> unat (PGROUNDUP a) < unat a + 4096"
  by (simp add: unat_PGROUNDUP)

lemma aligned_mod: "unat a mod 4096 = 0 \<longleftrightarrow> (a :: uint) mod 4096 = 0"
  by (simp add: unat_eq_0 [symmetric] unat_mod_distrib)

section \<open>Addresses and entries recompose\<close>

lemma PGADDR_recompose: "PGADDR (PDX va) (PTX va) (va AND 0xFFF) = va"
  unfolding PGADDR_def mask12
proof (rule bit_word_eqI)
  fix n
  assume "n < LENGTH(32)"
  then have n: "n < 32" by simp
  consider "n < 12" | "12 \<le> n" "n < 22" | "22 \<le> n" by linarith
  then show "bit (push_bit 22 (PDX va) OR push_bit 12 (PTX va) OR va AND mask 12) n \<longleftrightarrow> bit va n"
    by cases (use n in \<open>auto simp: bit_simps bit_PDX bit_PTX\<close>)
qed

lemma PTE_recompose: "PTE_ADDR e OR PTE_FLAGS e = e"
  by (rule bit_word_eqI) (auto simp: bit_simps bit_PTE_ADDR bit_PTE_FLAGS)

lemma PDX_less: "unat (PDX a) < 1024" and PTX_less: "unat (PTX a) < 1024"
proof -
  have "PDX a = take_bit 10 (drop_bit 22 a)" "PTX a = take_bit 10 (drop_bit 12 a)"
    by (simp_all add: PDX_def PTX_def mask10 take_bit_eq_mask)
  then show "unat (PDX a) < 1024" "unat (PTX a) < 1024"
    by (simp_all add: take_bit_eq_mod unat_mod_distrib)
qed

lemma V2P_P2V [simp]: "V2P (P2V a) = a" "P2V (V2P a) = a"
  by (simp_all add: V2P_def P2V_def)

end
