(* ===== verification/Kalloc.thy ===== *)
theory Kalloc
  imports Kstate Strings Mmu
begin

text \<open>
  \<^verbatim>\<open>kalloc.c\<close>: the allocator of 4096-byte pages. The free pages form a linked list through
  their own first words (\<^verbatim>\<open>struct run\<close>), in memory. \<open>free_list\<close> says that memory holds such a
  list; the operations are proved to be push and pop on it, and \<open>freerange\<close> to push every
  page of a range. The locale \<open>page_allocator\<close> is the contract page table and process code
  relies on.
\<close>

text \<open>\<^verbatim>\<open>kmem\<close>, the memory it manages, and \<^verbatim>\<open>end\<close>, the first address after the kernel image.\<close>

record kmem = klock +
  mem :: memory
  freelist :: uint
  use_lock :: bool
  kend :: uint

definition lock_kmem :: "('a kmem_scheme, unit) kop" where
  "lock_kmem = bnd (fetch use_lock) (\<lambda>u. if u then kacquire L_kmem else ret ())"

definition unlock_kmem :: "('a kmem_scheme, unit) kop" where
  "unlock_kmem = bnd (fetch use_lock) (\<lambda>u. if u then krelease L_kmem else ret ())"

definition kfree :: "uint \<Rightarrow> ('a kmem_scheme, unit) kop" where
  "kfree v =
     bnd (fetch kend) (\<lambda>e.
     seq (panic_if (v mod PGSIZE \<noteq> 0 \<or> v < e \<or> V2P v \<ge> PHYSTOP) ''kfree'')
     (seq (modify (\<lambda>s. s\<lparr>mem := memset (mem s) v 1 PGSIZE\<rparr>))
     (seq lock_kmem
     (seq (modify (\<lambda>s. s\<lparr>mem := wr32 (mem s) v (freelist s)\<rparr>))
     (seq (modify (\<lambda>s. s\<lparr>freelist := v\<rparr>))
     unlock_kmem)))))"

definition kalloc :: "('a kmem_scheme, uint) kop" where
  "kalloc =
     seq lock_kmem
     (bnd (fetch freelist) (\<lambda>r.
     seq (if r \<noteq> 0 then modify (\<lambda>s. s\<lparr>freelist := rd32 (mem s) r\<rparr>) else ret ())
     (seq unlock_kmem
     (ret r))))"

function freerange_loop :: "uint \<Rightarrow> uint \<Rightarrow> ('a kmem_scheme, unit) kop" where
  "freerange_loop p vend =
     (if unat p + 4096 \<le> unat vend then seq (kfree p) (freerange_loop (p + PGSIZE) vend) else ret ())"
  by pat_completeness auto
termination
proof (relation "measure (\<lambda>(p, vend). unat vend - unat p)")
  fix p vend :: uint
  assume "unat p + 4096 \<le> unat vend"
  moreover have "unat vend < 4294967296" by simp
  ultimately have "unat p + 4096 < 4294967296" by linarith
  then have "unat (p + PGSIZE) = unat p + 4096" by (simp add: unat_word_ariths)
  then show "((p + PGSIZE, vend), p, vend) \<in> measure (\<lambda>(p, vend). unat vend - unat p)"
    using \<open>unat p + 4096 \<le> unat vend\<close> by simp
qed simp

declare freerange_loop.simps [simp del]

definition freerange :: "uint \<Rightarrow> uint \<Rightarrow> ('a kmem_scheme, unit) kop" where
  "freerange vstart vend = freerange_loop (PGROUNDUP vstart) vend"

text \<open>\<^verbatim>\<open>initlock\<close> leaves the lock free.\<close>

definition kinit1 :: "uint \<Rightarrow> uint \<Rightarrow> ('a kmem_scheme, unit) kop" where
  "kinit1 vstart vend =
     seq (modify (\<lambda>s. s\<lparr>held := held s - {L_kmem}\<rparr>))
     (seq (modify (\<lambda>s. s\<lparr>use_lock := False\<rparr>))
     (freerange vstart vend))"

definition kinit2 :: "uint \<Rightarrow> uint \<Rightarrow> ('a kmem_scheme, unit) kop" where
  "kinit2 vstart vend =
     seq (freerange vstart vend) (modify (\<lambda>s. s\<lparr>use_lock := True\<rparr>))"

section \<open>Pages in memory\<close>

definition page_ok :: "uint \<Rightarrow> uint \<Rightarrow> bool" where
  "page_ok e v \<longleftrightarrow> v mod PGSIZE = 0 \<and> e \<le> v \<and> V2P v < PHYSTOP"

lemma page_ok_nonzero: "page_ok e v \<Longrightarrow> v \<noteq> 0"
  by (auto simp: page_ok_def V2P_def)

lemma page_okI:
  assumes "unat x mod 4096 = 0" "unat e \<le> unat x" "0x80000000 \<le> unat x" "unat x < 0x8E000000"
  shows "page_ok e x"
proof -
  have "KERNBASE \<le> x" using assms(3) by (simp add: word_le_nat_alt)
  then have "unat (V2P x) = unat x - unat KERNBASE" unfolding V2P_def by (rule unat_sub)
  then have "unat (V2P x) = unat x - 0x80000000" by simp
  then have "unat (V2P x) < 0xE000000" using assms(3,4) by linarith
  then have "V2P x < PHYSTOP" by (simp add: word_less_nat_alt)
  then show ?thesis
    using assms(1,2) unfolding page_ok_def aligned_mod word_le_nat_alt by blast
qed

lemma aligned_plus:
  fixes v k :: uint
  assumes "v mod PGSIZE = 0" and "unat k < 4096"
  shows "PGROUNDDOWN (v + k) = v"
proof -
  have "unat v mod 4096 = 0" using assms(1) by (simp add: aligned_mod)
  then obtain q where q: "unat v = 4096 * q" by (auto elim: dvdE simp: mod_eq_0_iff_dvd)
  then have "4096 * q < 4294967296" using unat_uint_less [of v] by simp
  then have "q \<le> 1048575" by linarith
  then have "unat (v + k) = unat v + unat k" using assms(2) q by (simp add: unat_word_ariths)
  then have "unat (PGROUNDDOWN (v + k)) = unat v"
    using q assms(2) by (simp add: unat_PGROUNDDOWN)
  then show ?thesis by (simp add: word_unat_eq_iff)
qed

lemma other_page:
  fixes v x k :: uint
  assumes "v mod PGSIZE = 0" "x mod PGSIZE = 0" "x \<noteq> v" "unat k < 4096"
  shows "\<not> unat (x + k - v) < 4096"
proof
  assume "unat (x + k - v) < 4096"
  then have "PGROUNDDOWN (v + (x + k - v)) = v" by (rule aligned_plus [OF assms(1)])
  moreover have "PGROUNDDOWN (x + k) = x" by (rule aligned_plus [OF assms(2,4)])
  ultimately show False using assms(3) by simp
qed

lemma rd32_wr32 [simp]: "rd32 (wr32 m a v) a = v"
proof -
  have "[le32 v ! 0, le32 v ! 1, le32 v ! 2, le32 v ! 3] = le32 v" by (simp add: le32_def)
  then show ?thesis by (simp add: rd32_def wr32_def)
qed

text \<open>Two memories that agree on every page but \<open>v\<close>.\<close>

definition page_eq :: "uint \<Rightarrow> memory \<Rightarrow> memory \<Rightarrow> bool" where
  "page_eq v m m' \<longleftrightarrow> (\<forall>x. \<not> unat (x - v) < 4096 \<longrightarrow> m' x = m x)"

lemma page_eq_memset: "page_eq v m (memset m v c 4096)"
  by (simp add: page_eq_def memset_eq)

lemma page_eq_wr32: "page_eq v m (wr32 m v x)"
proof -
  have "unat (v + k - v) < 4096" if "unat k < 4096" for k using that by simp
  from this [of 0] this [of 1] this [of 2] this [of 3] show ?thesis
    by (auto simp: page_eq_def wr32_def)
qed

lemma page_eq_trans: "page_eq v m m' \<Longrightarrow> page_eq v m' m'' \<Longrightarrow> page_eq v m m''"
  by (simp add: page_eq_def)

lemma rd32_page_eq:
  assumes "page_eq v m m'" "v mod PGSIZE = 0" "x mod PGSIZE = 0" "v \<noteq> x"
  shows "rd32 m' x = rd32 m x"
proof -
  have "m' (x + k) = m (x + k)" if "unat k < 4096" for k
    using assms(1) other_page [OF assms(2,3) assms(4) [symmetric] that] by (simp add: page_eq_def)
  from this [of 0] this [of 1] this [of 2] this [of 3] show ?thesis by (simp add: rd32_def)
qed

section \<open>The free list\<close>

fun chain :: "memory \<Rightarrow> uint \<Rightarrow> uint list \<Rightarrow> bool" where
  "chain m p [] \<longleftrightarrow> p = 0"
| "chain m p (x # xs) \<longleftrightarrow> p = x \<and> x \<noteq> 0 \<and> chain m (rd32 m x) xs"

definition free_list :: "'a kmem_scheme \<Rightarrow> uint list \<Rightarrow> bool" where
  "free_list s xs \<longleftrightarrow> chain (mem s) (freelist s) xs \<and> distinct xs
     \<and> (\<forall>x \<in> set xs. page_ok (kend s) x) \<and> L_kmem \<notin> held s"

lemma chain_page_eq:
  "chain m p xs \<Longrightarrow> page_eq v m m' \<Longrightarrow> page_ok e v \<Longrightarrow> v \<notin> set xs \<Longrightarrow> \<forall>x \<in> set xs. page_ok e x \<Longrightarrow>
     chain m' p xs"
  by (induction xs arbitrary: p) (auto simp: page_ok_def rd32_page_eq [of v m m'])

lemma chain_unique: "chain m p xs \<Longrightarrow> chain m p ys \<Longrightarrow> xs = ys"
proof (induction xs arbitrary: p ys)
  case Nil
  then show ?case by (cases ys) auto
next
  case (Cons x xs)
  then show ?case by (cases ys) auto
qed

lemma kalloc_Nil: "free_list s [] \<Longrightarrow> kalloc s = Ok 0 s"
  by (auto simp: free_list_def kalloc_def lock_kmem_def unlock_kmem_def kacquire_def krelease_def
      bnd_def kop_defs)

lemma kalloc_Cons:
  assumes "free_list s (x # xs)"
  shows "kalloc s = Ok x (s\<lparr>freelist := rd32 (mem s) x\<rparr>)" "free_list (s\<lparr>freelist := rd32 (mem s) x\<rparr>) xs"
  using assms
  by (auto simp: free_list_def kalloc_def lock_kmem_def unlock_kmem_def kacquire_def krelease_def
      bnd_def kop_defs)

definition pushed :: "uint \<Rightarrow> 'a kmem_scheme \<Rightarrow> 'a kmem_scheme" where
  "pushed v s = s\<lparr>mem := wr32 (memset (mem s) v 1 PGSIZE) v (freelist s), freelist := v\<rparr>"

lemma pushed_sel [simp]:
  "held (pushed v s) = held s" "freelist (pushed v s) = v" "use_lock (pushed v s) = use_lock s"
  "kend (pushed v s) = kend s" "kmem.more (pushed v s) = kmem.more s"
  "rd32 (mem (pushed v s)) v = freelist s"
  by (simp_all add: pushed_def)

lemma page_eq_pushed: "page_eq v (mem s) (mem (pushed v s))"
  unfolding pushed_def by simp (rule page_eq_trans [OF page_eq_memset page_eq_wr32])

lemma kfree_Ok:
  assumes l: "free_list s xs" and v: "page_ok (kend s) v" "v \<notin> set xs"
  shows "kfree v s = Ok () (pushed v s)" and "free_list (pushed v s) (v # xs)"
proof -
  have c: "(v mod PGSIZE \<noteq> 0 \<or> v < kend s \<or> V2P v \<ge> PHYSTOP) = False"
    using v(1) by (auto simp: page_ok_def)
  have "L_kmem \<notin> held s" using l by (simp add: free_list_def)
  then show "kfree v s = Ok () (pushed v s)"
    unfolding kfree_def fetch_def bnd_def res.case c panic_if_def if_False pushed_def
    by (cases "use_lock s")
      (simp_all add: lock_kmem_def unlock_kmem_def kacquire_def krelease_def bnd_def kop_defs)
  have "chain (mem (pushed v s)) (freelist s) xs"
    by (rule chain_page_eq [OF _ page_eq_pushed v]) (use l in \<open>simp_all add: free_list_def\<close>)
  then show "free_list (pushed v s) (v # xs)"
    using l v page_ok_nonzero [OF v(1)] by (simp add: free_list_def)
qed

lemma kfree_panics:
  assumes "\<not> page_ok (kend s) v"
  shows "kfree v s = Panic ''kfree''"
proof -
  have c: "(v mod PGSIZE \<noteq> 0 \<or> v < kend s \<or> V2P v \<ge> PHYSTOP) = True"
    using assms unfolding page_ok_def not_le [symmetric] by argo
  show ?thesis
    unfolding kfree_def fetch_def bnd_def res.case c panic_if_def if_True kpanic_def ..
qed

section \<open>Filling the list\<close>

text \<open>The whole pages between two addresses, lowest first.\<close>

function pages :: "uint \<Rightarrow> uint \<Rightarrow> uint list" where
  "pages p vend = (if unat p + 4096 \<le> unat vend then p # pages (p + PGSIZE) vend else [])"
  by pat_completeness auto
termination
proof (relation "measure (\<lambda>(p, vend). unat vend - unat p)")
  fix p vend :: uint
  assume "unat p + 4096 \<le> unat vend"
  moreover have "unat vend < 4294967296" by simp
  ultimately have "unat p + 4096 < 4294967296" by linarith
  then have "unat (p + PGSIZE) = unat p + 4096" by (simp add: unat_word_ariths)
  then show "((p + PGSIZE, vend), p, vend) \<in> measure (\<lambda>(p, vend). unat vend - unat p)"
    using \<open>unat p + 4096 \<le> unat vend\<close> by simp
qed simp

declare pages.simps [simp del]

lemma next_page:
  assumes "unat p + 4096 \<le> unat (vend :: uint)"
  shows "unat (p + PGSIZE) = unat p + 4096"
proof -
  have "unat p + 4096 < 4294967296" using assms unat_uint_less [of vend] by linarith
  then show ?thesis by (simp add: unat_word_ariths)
qed

lemma pages_bounds:
  "x \<in> set (pages p vend) \<Longrightarrow> unat p mod 4096 = 0 \<Longrightarrow>
     unat p \<le> unat x \<and> unat x + 4096 \<le> unat vend \<and> unat x mod 4096 = 0"
proof (induction p vend rule: pages.induct)
  case (1 p vend)
  show ?case
  proof (cases "unat p + 4096 \<le> unat vend")
    case True
    have n: "unat (p + PGSIZE) = unat p + 4096" by (rule next_page [OF True])
    show ?thesis
    proof (cases "x = p")
      case False
      then have "x \<in> set (pages (p + PGSIZE) vend)" using "1.prems"(1) True by (simp add: pages.simps [of p])
      moreover have "unat (p + PGSIZE) mod 4096 = 0" using "1.prems"(2) n by simp
      ultimately show ?thesis using "1.IH" [OF True] n by simp
    qed (use True "1.prems" in simp)
  next
    case False
    then show ?thesis using "1.prems"(1) by (simp add: pages.simps [of p])
  qed
qed

lemma length_pages: "length (pages p vend) = (unat vend - unat p) div 4096"
proof (induction p vend rule: pages.induct)
  case (1 p vend)
  show ?case
  proof (cases "unat p + 4096 \<le> unat vend")
    case True
    then have "unat vend - unat p = (unat vend - unat (p + PGSIZE)) + 4096"
      by (simp add: next_page [OF True])
    then show ?thesis using "1.IH" [OF True] True by (simp add: pages.simps [of p])
  qed (simp add: pages.simps [of p])
qed

lemma distinct_pages: "unat p mod 4096 = 0 \<Longrightarrow> distinct (pages p vend)"
proof (induction p vend rule: pages.induct)
  case (1 p vend)
  show ?case
  proof (cases "unat p + 4096 \<le> unat vend")
    case True
    have n: "unat (p + PGSIZE) = unat p + 4096" by (rule next_page [OF True])
    then have "p \<notin> set (pages (p + PGSIZE) vend)"
      using pages_bounds [of p "p + PGSIZE" vend] "1.prems" by auto
    then show ?thesis using "1.IH" [OF True] "1.prems" True n by (simp add: pages.simps [of p])
  qed (simp add: pages.simps [of p])
qed

lemma freerange_loop_Ok:
  assumes "free_list s xs" "distinct (pages p vend)"
    and "\<And>x. x \<in> set (pages p vend) \<Longrightarrow> page_ok (kend s) x \<and> x \<notin> set xs"
  shows "\<exists>t. freerange_loop p vend s = Ok () t \<and> free_list t (rev (pages p vend) @ xs) \<and> kend t = kend s
    \<and> use_lock t = use_lock s \<and> held t = held s \<and> kmem.more t = kmem.more s"
  using assms
proof (induction p vend arbitrary: s xs rule: pages.induct)
  case (1 p vend)
  show ?case
  proof (cases "unat p + 4096 \<le> unat vend")
    case True
    have pg: "pages p vend = p # pages (p + PGSIZE) vend" using True by (simp add: pages.simps [of p])
    have p: "page_ok (kend s) p" "p \<notin> set xs" using "1.prems"(3) [of p] pg by auto
    note f = kfree_Ok [OF "1.prems"(1) p]
    have "\<exists>t. freerange_loop (p + PGSIZE) vend (pushed p s) = Ok () t
        \<and> free_list t (rev (pages (p + PGSIZE) vend) @ p # xs) \<and> kend t = kend (pushed p s)
        \<and> use_lock t = use_lock (pushed p s) \<and> held t = held (pushed p s)
        \<and> kmem.more t = kmem.more (pushed p s)"
      using "1.prems"(2,3) unfolding pg by (intro "1.IH" [OF True f(2)]) auto
    then show ?thesis
      using True f(1) pg by (auto simp: freerange_loop.simps [of p] bnd_def)
  next
    case False
    then show ?thesis using "1.prems"(1)
      by (simp add: freerange_loop.simps [of p] pages.simps [of p] ret_def)
  qed
qed

section \<open>The allocator's contract\<close>

locale page_allocator =
  fixes alloc :: "'s \<Rightarrow> (uint, 's) res" and free :: "uint \<Rightarrow> 's \<Rightarrow> (unit, 's) res"
    and avail :: "'s \<Rightarrow> uint list \<Rightarrow> bool" and page :: "'s \<Rightarrow> uint \<Rightarrow> bool"
  assumes alloc_none: "avail s [] \<Longrightarrow> alloc s = Ok 0 s"
    and alloc_some: "avail s (x # xs) \<Longrightarrow> \<exists>t. alloc s = Ok x t \<and> avail t xs \<and> page t = page s"
    and free_page: "avail s xs \<Longrightarrow> page s v \<Longrightarrow> v \<notin> set xs \<Longrightarrow>
      \<exists>t. free v s = Ok () t \<and> avail t (v # xs) \<and> page t = page s"
    and free_bad: "\<not> page s v \<Longrightarrow> free v s = Panic ''kfree''"
    and avail_pages: "avail s xs \<Longrightarrow> distinct xs \<and> (\<forall>x \<in> set xs. page s x)"
    and page_nonzero: "page s v \<Longrightarrow> v \<noteq> 0"
begin

lemma alloc_fails_iff:
  assumes "avail s xs"
  shows "\<exists>v t. alloc s = Ok v t \<and> (v = 0 \<longleftrightarrow> xs = []) \<and> avail t (tl xs)"
proof (cases xs)
  case Nil
  then show ?thesis using assms alloc_none by auto
next
  case (Cons x ys)
  then obtain t where "alloc s = Ok x t" "avail t ys" using alloc_some assms by blast
  moreover have "x \<noteq> 0" using avail_pages [OF assms] page_nonzero Cons by auto
  ultimately show ?thesis using Cons by auto
qed

lemma free_then_alloc:
  assumes "avail s xs" "page s v" "v \<notin> set xs"
  shows "\<exists>t. seq (free v) alloc s = Ok v t \<and> avail t xs"
  using free_page [OF assms] alloc_some by (fastforce simp: bnd_def)

lemma allocs_distinct:
  assumes "avail s (x # y # zs)"
  shows "\<exists>t. bnd alloc (\<lambda>a. bnd alloc (\<lambda>b. ret (a, b))) s = Ok (x, y) t \<and> avail t zs \<and> x \<noteq> y"
proof -
  from alloc_some [OF assms] obtain t where t: "alloc s = Ok x t" "avail t (y # zs)" by blast
  from alloc_some [OF t(2)] obtain u where "alloc t = Ok y u" "avail u zs" by blast
  with t avail_pages [OF assms] show ?thesis by (simp add: bnd_def ret_def)
qed

end

interpretation kma: page_allocator kalloc kfree free_list "\<lambda>s. page_ok (kend s)"
proof unfold_locales
  show "free_list s [] \<Longrightarrow> kalloc s = Ok 0 s" for s :: "'a kmem_scheme" by (rule kalloc_Nil)
  show "\<exists>t. kalloc s = Ok x t \<and> free_list t xs \<and> page_ok (kend t) = page_ok (kend s)"
    if "free_list s (x # xs)" for s :: "'a kmem_scheme" and x xs
    using kalloc_Cons [OF that] by auto
  show "\<exists>t. kfree v s = Ok () t \<and> free_list t (v # xs) \<and> page_ok (kend t) = page_ok (kend s)"
    if "free_list s xs" "page_ok (kend s) v" "v \<notin> set xs" for s :: "'a kmem_scheme" and v xs
    using kfree_Ok [OF that] by auto
qed (auto simp: kfree_panics free_list_def dest: page_ok_nonzero)

section \<open>Properties\<close>

text \<open>C18: \<open>kalloc\<close> and \<open>kfree\<close> are pop and push on one duplicate-free list of page addresses kept
  inside the free pages themselves: \<open>kalloc\<close> returns the first page, or 0 exactly when the
  list is empty; \<open>kfree\<close> of a page that is not free puts it first, so the next \<open>kalloc\<close> hands it
  out; and \<open>kfree\<close> of an address that is not a page of the managed range panics.\<close>

theorem kalloc_kfree_stack:
  assumes "free_list s xs"
  shows "(\<exists>v t. kalloc s = Ok v t \<and> (v = 0 \<longleftrightarrow> xs = []) \<and> (xs \<noteq> [] \<longrightarrow> v = hd xs) \<and> free_list t (tl xs))
    \<and> (\<forall>v. page_ok (kend s) v \<and> v \<notin> set xs \<longrightarrow>
        (\<exists>t. kfree v s = Ok () t \<and> free_list t (v # xs) \<and> (\<exists>u. kalloc t = Ok v u \<and> free_list u xs)))
    \<and> (\<forall>v. \<not> page_ok (kend s) v \<longrightarrow> kfree v s = Panic ''kfree'')"
proof (intro conjI allI impI)
  show "\<exists>v t. kalloc s = Ok v t \<and> (v = 0 \<longleftrightarrow> xs = []) \<and> (xs \<noteq> [] \<longrightarrow> v = hd xs) \<and> free_list t (tl xs)"
    using kma.alloc_fails_iff [OF assms] assms by (cases xs) (auto dest: kalloc_Cons(1))
next
  fix v
  assume "page_ok (kend s) v \<and> v \<notin> set xs"
  then have "free_list (pushed v s) (v # xs)" "kfree v s = Ok () (pushed v s)"
    using kfree_Ok [OF assms] by auto
  then show "\<exists>t. kfree v s = Ok () t \<and> free_list t (v # xs) \<and> (\<exists>u. kalloc t = Ok v u \<and> free_list u xs)"
    using kalloc_Cons by blast
qed (rule kfree_panics)

text \<open>C21: \<open>kinit1\<close> puts every whole page of the range it is given on the free list exactly once
  and nothing else, and takes no lock to do it.\<close>

theorem kinit1_frees_range:
  assumes "freelist s = 0" "unat (kend s) \<le> unat vstart" "0x80000000 \<le> unat (kend s)"
    "unat vend \<le> 0x8E000000" "unat vstart \<le> unat vend"
  shows "\<exists>t. kinit1 vstart vend s = Ok () t \<and> free_list t (rev (pages (PGROUNDUP vstart) vend))
    \<and> \<not> use_lock t \<and> held t = held s - {L_kmem}"
proof -
  let ?s = "s\<lparr>held := held s - {L_kmem}, use_lock := False\<rparr>" and ?p = "PGROUNDUP vstart"
  have v: "unat vstart \<le> 0xFFFFF000" using assms(4,5) by simp
  have p: "unat ?p mod 4096 = 0" "unat vstart \<le> unat ?p"
    by (simp add: unat_PGROUNDUP [OF v]) (rule PGROUNDUP_ge [OF v])
  have "page_ok (kend ?s) x \<and> x \<notin> set []" if "x \<in> set (pages ?p vend)" for x
  proof -
    have x: "unat ?p \<le> unat x" "unat x + 4096 \<le> unat vend" "unat x mod 4096 = 0"
      using pages_bounds [OF that p(1)] by auto
    have "page_ok (kend s) x" by (rule page_okI) (use x p assms in linarith)+
    then show ?thesis by simp
  qed
  moreover have "free_list ?s []" using assms(1) by (simp add: free_list_def)
  ultimately obtain t where "freerange_loop ?p vend ?s = Ok () t"
    "free_list t (rev (pages ?p vend) @ [])" "use_lock t = use_lock ?s" "held t = held ?s"
    using freerange_loop_Ok [of ?s "[]", OF _ distinct_pages [OF p(1)]] by blast
  then show ?thesis
    by (simp add: kinit1_def freerange_def bnd_def modify_def)
qed

definition boot_mem :: kmem where
  "boot_mem = \<lparr>held = {}, mem = (\<lambda>_. 0), freelist = 0, use_lock = True, kend = 0x80100001\<rparr>"

theorem kinit1_frees_range_witness:
  "\<exists>t. kinit1 0x80100001 0x80400000 boot_mem = Ok () t \<and> \<not> use_lock t
     \<and> (\<exists>xs. free_list t xs \<and> length xs = 767)"
proof -
  have l: "length (pages (PGROUNDUP 0x80100001) 0x80400000) = 767"
    by (simp add: length_pages unat_PGROUNDUP)
  have "\<exists>t. kinit1 0x80100001 0x80400000 boot_mem = Ok () t
      \<and> free_list t (rev (pages (PGROUNDUP 0x80100001) 0x80400000)) \<and> \<not> use_lock t
      \<and> held t = held boot_mem - {L_kmem}"
    by (rule kinit1_frees_range) (simp_all add: boot_mem_def)
  then show ?thesis using l by (metis length_rev)
qed

definition two_pages :: kmem where
  "two_pages = boot_mem\<lparr>mem := wr32 (\<lambda>_. 0) 0x80102000 0x80103000, freelist := 0x80102000\<rparr>"

lemma two_pages_list: "free_list two_pages [0x80102000, 0x80103000]"
proof -
  have "rd32 (wr32 (\<lambda>_. 0) 0x80102000 0x80103000) 0x80103000 = rd32 (\<lambda>_. 0) 0x80103000"
    by (rule rd32_page_eq [OF page_eq_wr32]) simp_all
  then show ?thesis
    by (simp add: free_list_def two_pages_def boot_mem_def page_ok_def V2P_def rd32_def [of "\<lambda>_. 0"])
qed

theorem kalloc_kfree_stack_witness:
  "(\<exists>t. kalloc two_pages = Ok 0x80102000 t \<and> free_list t [0x80103000])
   \<and> (\<exists>t. kfree 0x80104000 two_pages = Ok () t \<and> free_list t [0x80104000, 0x80102000, 0x80103000])
   \<and> kfree 0x80102004 two_pages = Panic ''kfree''"
proof -
  have p: "page_ok (kend two_pages) 0x80104000" "\<not> page_ok (kend two_pages) 0x80102004"
    by (simp_all add: two_pages_def boot_mem_def page_ok_def V2P_def)
  show ?thesis
    using kalloc_kfree_stack [OF two_pages_list] p by fastforce
qed

end
