(* ===== verification/Proc.thy ===== *)
theory Proc
  imports Kalloc
begin

text \<open>
  The process table of \<^verbatim>\<open>proc.c\<close> and \<^verbatim>\<open>proc.h\<close>: the parts of the kernel that change process
  states. The changes themselves are functions on the table (\<open>wakeup1\<close>, \<open>kill_tab\<close>,
  \<open>exit_tab\<close>, \<open>reap_tab\<close> and so on); the kernel routines run them under \<open>ptable.lock\<close>, and the
  theory of the scheduler interleaves them. \<open>fork\<close>, \<open>exit\<close> and \<open>wait\<close> as whole system calls
  need the page tables and the file system and come later.
\<close>

abbreviation (input) NPROC :: nat where "NPROC \<equiv> 64"
abbreviation (input) NOFILE :: nat where "NOFILE \<equiv> 16"
abbreviation (input) KSTACKSIZE :: uint where "KSTACKSIZE \<equiv> 4096"

datatype procstate = UNUSED | EMBRYO | SLEEPING | RUNNABLE | RUNNING | ZOMBIE

text \<open>\<^verbatim>\<open>struct trapframe\<close> of \<^verbatim>\<open>x86.h\<close> without its padding, and \<^verbatim>\<open>struct context\<close> of \<^verbatim>\<open>proc.h\<close>.\<close>

record trapframe =
  tf_edi :: uint
  tf_esi :: uint
  tf_ebp :: uint
  tf_oesp :: uint
  tf_ebx :: uint
  tf_edx :: uint
  tf_ecx :: uint
  tf_eax :: uint
  tf_gs :: ushort
  tf_fs :: ushort
  tf_es :: ushort
  tf_ds :: ushort
  tf_trapno :: uint
  tf_err :: uint
  tf_eip :: uint
  tf_cs :: ushort
  tf_eflags :: uint
  tf_esp :: uint
  tf_ss :: ushort

record kcontext =
  ctx_edi :: uint
  ctx_esi :: uint
  ctx_ebx :: uint
  ctx_ebp :: uint
  ctx_eip :: uint

definition zero_tf :: trapframe where
  "zero_tf = \<lparr>tf_edi = 0, tf_esi = 0, tf_ebp = 0, tf_oesp = 0, tf_ebx = 0, tf_edx = 0, tf_ecx = 0,
     tf_eax = 0, tf_gs = 0, tf_fs = 0, tf_es = 0, tf_ds = 0, tf_trapno = 0, tf_err = 0, tf_eip = 0,
     tf_cs = 0, tf_eflags = 0, tf_esp = 0, tf_ss = 0\<rparr>"

definition zero_context :: kcontext where
  "zero_context = \<lparr>ctx_edi = 0, ctx_esi = 0, ctx_ebx = 0, ctx_ebp = 0, ctx_eip = 0\<rparr>"

text \<open>
  \<^verbatim>\<open>struct proc\<close>. Pointers into the process table, the file table and the inode cache are
  indices, a null pointer is \<open>None\<close>; \<^verbatim>\<open>tf\<close> and \<^verbatim>\<open>context\<close>, which point into the kernel stack,
  are given by what they point at.
\<close>

record proc =
  p_sz :: uint
  p_pgdir :: uint
  p_kstack :: uint
  p_state :: procstate
  p_pid :: int
  p_parent :: "nat option"
  p_tf :: trapframe
  p_context :: kcontext
  p_chan :: "chan option"
  p_killed :: bool
  p_ofile :: "nat option list"
  p_cwd :: "nat option"
  p_name :: "uchar list"

definition zero_proc :: proc where
  "zero_proc = \<lparr>p_sz = 0, p_pgdir = 0, p_kstack = 0, p_state = UNUSED, p_pid = 0, p_parent = None,
     p_tf = zero_tf, p_context = zero_context, p_chan = None, p_killed = False,
     p_ofile = replicate NOFILE None, p_cwd = None, p_name = replicate 16 0\<rparr>"

text \<open>\<open>curproc\<close> is \<^verbatim>\<open>mycpu()->proc\<close> of the processor the model follows.\<close>

record kproc = kmem +
  ptable :: "proc list"
  initproc :: "nat option"
  nextpid :: int
  curproc :: "nat option"

definition set_proc :: "nat \<Rightarrow> (proc \<Rightarrow> proc) \<Rightarrow> proc list \<Rightarrow> proc list" where
  "set_proc i f pt = pt[i := f (pt ! i)]"

definition upd_proc :: "nat \<Rightarrow> (proc \<Rightarrow> proc) \<Rightarrow> ('a kproc_scheme, unit) kop" where
  "upd_proc i f = modify (\<lambda>s. s\<lparr>ptable := set_proc i f (ptable s)\<rparr>)"

definition myproc :: "('a kproc_scheme, nat option) kop" where
  "myproc = fetch curproc"

section \<open>Changes of the table\<close>

definition wakeup1 :: "chan option \<Rightarrow> proc list \<Rightarrow> proc list" where
  "wakeup1 c pt =
     map (\<lambda>p. if p_state p = SLEEPING \<and> p_chan p = c then p\<lparr>p_state := RUNNABLE\<rparr> else p) pt"

definition kill_tab :: "int \<Rightarrow> proc list \<Rightarrow> proc list option" where
  "kill_tab pid pt =
     (case first_idx (\<lambda>p. p_pid p = pid) pt of
        None \<Rightarrow> None
      | Some i \<Rightarrow> Some (set_proc i
          (\<lambda>p. p\<lparr>p_killed := True, p_state := (if p_state p = SLEEPING then RUNNABLE else p_state p)\<rparr>) pt))"

text \<open>The loop of \<open>exit\<close> that passes abandoned children to \<^verbatim>\<open>initproc\<close>, from slot \<open>i\<close> on.\<close>

fun reparent :: "nat \<Rightarrow> nat option \<Rightarrow> nat list \<Rightarrow> proc list \<Rightarrow> proc list" where
  "reparent cur init [] pt = pt"
| "reparent cur init (i # is) pt =
     (if p_parent (pt ! i) = Some cur then
        let pt = set_proc i (\<lambda>p. p\<lparr>p_parent := init\<rparr>) pt;
            pt = (if p_state (pt ! i) = ZOMBIE then wakeup1 (map_option ChProc init) pt else pt)
        in reparent cur init is pt
      else reparent cur init is pt)"

definition exit_tab :: "nat \<Rightarrow> nat option \<Rightarrow> proc list \<Rightarrow> proc list" where
  "exit_tab cur init pt =
     (let pt = wakeup1 (map_option ChProc (p_parent (pt ! cur))) pt;
          pt = reparent cur init [0..<length pt] pt
      in set_proc cur (\<lambda>p. p\<lparr>p_state := ZOMBIE\<rparr>) pt)"

definition reap :: "proc \<Rightarrow> proc" where
  "reap p = p\<lparr>p_kstack := 0, p_pid := 0, p_parent := None, p_name := (p_name p)[0 := 0],
     p_killed := False, p_state := UNUSED\<rparr>"

text \<open>The scan of \<open>wait\<close>: whether \<open>cur\<close> has children, and its first zombie child.\<close>

definition wait_scan :: "nat \<Rightarrow> proc list \<Rightarrow> bool \<times> nat option" where
  "wait_scan cur pt =
     (\<exists>p \<in> set pt. p_parent p = Some cur,
      first_idx (\<lambda>p. p_parent p = Some cur \<and> p_state p = ZOMBIE) pt)"

section \<open>Kernel routines on the table\<close>

definition sched :: "('a kproc_scheme, unit) kop" where
  "sched s =
     (if L_ptable \<notin> held s then Panic ''sched ptable.lock''
      else if card (held s) \<noteq> 1 then Panic ''sched locks''
      else case curproc s of
        None \<Rightarrow> Panic ''null myproc''
      | Some p \<Rightarrow>
          if p_state (ptable s ! p) = RUNNING then Panic ''sched running'' else Swtch s)"

definition yield :: "('a kproc_scheme, unit) kop" where
  "yield =
     seq (kacquire L_ptable)
     (bnd myproc (\<lambda>p.
     seq (upd_proc (the p) (\<lambda>q. q\<lparr>p_state := RUNNABLE\<rparr>))
     (seq sched
     (krelease L_ptable))))"

text \<open>
  \<open>sleep\<close> up to the switch in \<open>sched\<close>; \<open>sleep_wake\<close> is what it does when the scheduler comes
  back to the process.
\<close>

definition sleep_wake :: "nat \<Rightarrow> lockid \<Rightarrow> ('a kproc_scheme, unit) kop" where
  "sleep_wake p lk =
     seq (upd_proc p (\<lambda>q. q\<lparr>p_chan := None\<rparr>))
     (if lk \<noteq> L_ptable then seq (krelease L_ptable) (kacquire lk) else ret ())"

definition sleep :: "chan \<Rightarrow> lockid \<Rightarrow> ('a kproc_scheme, unit) kop" where
  "sleep c lk =
     bnd myproc (\<lambda>mp. case mp of
       None \<Rightarrow> kpanic ''sleep''
     | Some p \<Rightarrow>
         seq (if lk \<noteq> L_ptable then seq (kacquire L_ptable) (krelease lk) else ret ())
         (seq (upd_proc p (\<lambda>q. q\<lparr>p_chan := Some c\<rparr>))
         (seq (upd_proc p (\<lambda>q. q\<lparr>p_state := SLEEPING\<rparr>))
         (seq sched
         (sleep_wake p lk)))))"

definition wakeup :: "chan \<Rightarrow> ('a kproc_scheme, unit) kop" where
  "wakeup c =
     seq (kacquire L_ptable)
     (seq (modify (\<lambda>s. s\<lparr>ptable := wakeup1 (Some c) (ptable s)\<rparr>))
     (krelease L_ptable))"

definition kill :: "int \<Rightarrow> ('a kproc_scheme, int) kop" where
  "kill pid =
     seq (kacquire L_ptable)
     (bnd (fetch (\<lambda>s. kill_tab pid (ptable s))) (\<lambda>r. case r of
        Some pt \<Rightarrow> seq (modify (\<lambda>s. s\<lparr>ptable := pt\<rparr>)) (seq (krelease L_ptable) (ret 0))
      | None \<Rightarrow> seq (krelease L_ptable) (ret (- 1))))"

text \<open>
  The critical section of \<open>allocproc\<close>, then the whole function. \<open>forkret\<close> and \<open>trapret\<close> are the
  addresses of those functions; the kernel stack is laid out from the top: the trap frame
  (76 bytes), the return address, the context. What the trap frame holds at this point is
  what the page held: both callers fill it in.
\<close>

definition alloc_slot :: "('a kproc_scheme, nat option) kop" where
  "alloc_slot =
     seq (kacquire L_ptable)
     (bnd (fetch (\<lambda>s. first_idx (\<lambda>p. p_state p = UNUSED) (ptable s))) (\<lambda>r. case r of
        None \<Rightarrow> seq (krelease L_ptable) (ret None)
      | Some i \<Rightarrow>
          seq (upd_proc i (\<lambda>p. p\<lparr>p_state := EMBRYO\<rparr>))
          (bnd (fetch nextpid) (\<lambda>pid.
          seq (upd_proc i (\<lambda>p. p\<lparr>p_pid := pid\<rparr>))
          (seq (modify (\<lambda>s. s\<lparr>nextpid := pid + 1\<rparr>))
          (seq (krelease L_ptable) (ret (Some i))))))))"

definition allocproc :: "uint \<Rightarrow> uint \<Rightarrow> ('a kproc_scheme, nat option) kop" where
  "allocproc forkret trapret =
     bnd alloc_slot (\<lambda>r. case r of
       None \<Rightarrow> ret None
     | Some i \<Rightarrow>
         bnd kalloc (\<lambda>k.
         seq (upd_proc i (\<lambda>p. p\<lparr>p_kstack := k\<rparr>))
         (if k = 0 then seq (upd_proc i (\<lambda>p. p\<lparr>p_state := UNUSED\<rparr>)) (ret None)
          else
            seq (modify (\<lambda>s. s\<lparr>mem := wr32 (mem s) (k + KSTACKSIZE - 76 - 4) trapret\<rparr>))
            (seq (upd_proc i (\<lambda>p. p\<lparr>p_context := zero_context\<lparr>ctx_eip := forkret\<rparr>\<rparr>))
            (ret (Some i))))))"

text \<open>The end of \<open>exit\<close>, from taking \<open>ptable.lock\<close> on.\<close>

definition exit_end :: "('a kproc_scheme, unit) kop" where
  "exit_end =
     seq (kacquire L_ptable)
     (bnd myproc (\<lambda>p.
     seq (modify (\<lambda>s. s\<lparr>ptable := exit_tab (the p) (initproc s) (ptable s)\<rparr>))
     (seq sched
     (kpanic ''zombie exit''))))"

lemma run_proc [run_simps]:
  "bnd (upd_proc i g) f s = f () (s\<lparr>ptable := set_proc i g (ptable s)\<rparr>)"
  "bnd myproc k s = k (curproc s) s"
  by (simp_all add: upd_proc_def myproc_def run_simps)

section \<open>What the changes do\<close>

lemma set_proc_sel [simp]:
  "length (set_proc i f pt) = length pt"
  "i < length pt \<Longrightarrow> set_proc i f pt ! j = (if j = i then f (pt ! i) else pt ! j)"
  by (auto simp: set_proc_def nth_list_update)

lemma wakeup1_sel [simp]:
  "length (wakeup1 c pt) = length pt"
  "i < length pt \<Longrightarrow> wakeup1 c pt ! i =
     (if p_state (pt ! i) = SLEEPING \<and> p_chan (pt ! i) = c then (pt ! i)\<lparr>p_state := RUNNABLE\<rparr> else pt ! i)"
  by (simp_all add: wakeup1_def)

lemma wakeup1_idem [simp]: "wakeup1 c (wakeup1 c pt) = wakeup1 c pt"
  by (rule nth_equalityI) auto

text \<open>\<open>wakeup1\<close> touches nothing but the state of sleepers on the channel.\<close>

lemma wakeup1_frame [simp]:
  assumes "i < length pt"
  shows "p_parent (wakeup1 c pt ! i) = p_parent (pt ! i)" "p_pid (wakeup1 c pt ! i) = p_pid (pt ! i)"
    "p_chan (wakeup1 c pt ! i) = p_chan (pt ! i)" "p_killed (wakeup1 c pt ! i) = p_killed (pt ! i)"
    "p_state (wakeup1 c pt ! i) =
       (if p_state (pt ! i) = SLEEPING \<and> p_chan (pt ! i) = c then RUNNABLE else p_state (pt ! i))"
  using assms by auto

text \<open>
  The reparenting loop in closed form: every child of \<open>cur\<close> gets \<^verbatim>\<open>initproc\<close> as parent, and
  \<^verbatim>\<open>initproc\<close> is woken when one of those children is a zombie.
\<close>

definition adopt :: "nat \<Rightarrow> nat option \<Rightarrow> proc \<Rightarrow> proc" where
  "adopt cur init p = (if p_parent p = Some cur then p\<lparr>p_parent := init\<rparr> else p)"

lemma adopt_sel [simp]:
  "p_state (adopt cur init p) = p_state p" "p_chan (adopt cur init p) = p_chan p"
  "p_pid (adopt cur init p) = p_pid p"
  "p_parent (adopt cur init p) = (if p_parent p = Some cur then init else p_parent p)"
  by (simp_all add: adopt_def)

lemma reparent_eq:
  assumes "distinct is" "\<forall>i \<in> set is. i < length pt"
  shows "reparent cur init is pt =
    (let q = map (\<lambda>i. if i \<in> set is then adopt cur init (pt ! i) else pt ! i) [0..<length pt]
     in if \<exists>i \<in> set is. p_parent (pt ! i) = Some cur \<and> p_state (pt ! i) = ZOMBIE
        then wakeup1 (map_option ChProc init) q else q)"
  using assms
proof (induction "is" arbitrary: pt)
  case Nil
  then show ?case by (simp add: map_nth)
next
  case (Cons i "is")
  let ?c = "map_option ChProc init"
  show ?case
  proof (cases "p_parent (pt ! i) = Some cur")
    case False
    have q: "map (\<lambda>j. if j \<in> set (i # is) then adopt cur init (pt ! j) else pt ! j) [0..<length pt] =
        map (\<lambda>j. if j \<in> set is then adopt cur init (pt ! j) else pt ! j) [0..<length pt]"
      using False by (auto simp: adopt_def)
    have "reparent cur init (i # is) pt = reparent cur init is pt" using False by simp
    then show ?thesis using Cons False unfolding q Let_def by simp
  next
    case True
    let ?p1 = "set_proc i (\<lambda>p. p\<lparr>p_parent := init\<rparr>) pt"
    let ?p2 = "if p_state (?p1 ! i) = ZOMBIE then wakeup1 ?c ?p1 else ?p1"
    have i: "i < length pt" "i \<notin> set is" using Cons.prems by auto
    have l: "length ?p2 = length pt" by simp
    have z: "(\<exists>j \<in> set is. p_parent (?p2 ! j) = Some cur \<and> p_state (?p2 ! j) = ZOMBIE) \<longleftrightarrow>
        (\<exists>j \<in> set is. p_parent (pt ! j) = Some cur \<and> p_state (pt ! j) = ZOMBIE)"
      using Cons.prems i by (intro bex_cong refl) auto
    let ?q = "map (\<lambda>j. if j \<in> set (i # is) then adopt cur init (pt ! j) else pt ! j) [0..<length pt]"
    have q: "map (\<lambda>j. if j \<in> set is then adopt cur init (?p2 ! j) else ?p2 ! j) [0..<length ?p2] =
        (if p_state (pt ! i) = ZOMBIE then wakeup1 ?c ?q else ?q)"
      using True i by (intro nth_equalityI) (auto simp: adopt_def)
    have "reparent cur init (i # is) pt = reparent cur init is ?p2"
      using True i by (simp add: Let_def)
    also have "\<dots> = (let q = map (\<lambda>j. if j \<in> set is then adopt cur init (?p2 ! j) else ?p2 ! j) [0..<length ?p2]
       in if \<exists>j \<in> set is. p_parent (?p2 ! j) = Some cur \<and> p_state (?p2 ! j) = ZOMBIE
          then wakeup1 ?c q else q)"
      using Cons.prems l by (intro Cons.IH) auto
    finally show ?thesis
      unfolding z q Let_def using True by auto
  qed
qed

end
