(* ===== verification/Sched.thy ===== *)
theory Sched
  imports Proc
begin

text \<open>
  The scheduler of \<^verbatim>\<open>proc.c\<close>, in two views. The loop of one processor over the table, against
  a table that other processors change between any two iterations: a process that stays
  \<open>RUNNABLE\<close> is reached within one round. And the interleaving of all processors, one critical
  section of \<open>ptable.lock\<close> per step, where each step runs the kernel routine of \<^verbatim>\<open>proc.c\<close>: the
  states, the current processes, the process ids, parents and zombies stay consistent.
\<close>

section \<open>The loop of one processor\<close>

text \<open>
  One iteration of the loop of \<open>scheduler\<close> at slot \<open>pos\<close>: the slot it switches to, if it does,
  and the next slot; at the end of the table the lock is released and taken again and the
  scan starts over.
\<close>

definition scheduler_iter :: "nat \<Rightarrow> proc list \<Rightarrow> nat option \<times> nat" where
  "scheduler_iter pos pt =
     (if pos < length pt then
        (if p_state (pt ! pos) \<noteq> RUNNABLE then (None, Suc pos) else (Some pos, Suc pos))
      else (None, 0))"

text \<open>The slot at the \<open>k\<close>-th iteration, when it sees the table \<open>pts k\<close>.\<close>

primrec scan_pos :: "(nat \<Rightarrow> proc list) \<Rightarrow> nat \<Rightarrow> nat" where
  "scan_pos pts 0 = 0"
| "scan_pos pts (Suc k) = snd (scheduler_iter (scan_pos pts k) (pts k))"

definition picked :: "(nat \<Rightarrow> proc list) \<Rightarrow> nat \<Rightarrow> nat option" where
  "picked pts k = fst (scheduler_iter (scan_pos pts k) (pts k))"

lemma scan_pos_mod:
  assumes "\<And>k. length (pts k) = n"
  shows "scan_pos pts k = k mod Suc n"
proof (induction k)
  case (Suc k)
  have "k mod Suc n < n \<or> k mod Suc n = n" using mod_less_divisor[of "Suc n" k] by linarith
  with Suc assms[of k] show ?case by (auto simp: scheduler_iter_def mod_Suc)
qed simp

lemma picked_eq:
  assumes "\<And>k. length (pts k) = n"
  shows "picked pts k = (let i = k mod Suc n in
     if i < n \<and> p_state (pts k ! i) = RUNNABLE then Some i else None)"
  using assms by (simp add: picked_def scan_pos_mod[OF assms] scheduler_iter_def Let_def)

text \<open>Every window of \<open>n + 1\<close> iterations has exactly one at slot \<open>j\<close>.\<close>

lemma round_has_slot:
  assumes "j < n"
  shows "\<exists>k. t \<le> k \<and> k \<le> t + n \<and> k mod Suc n = j"
proof -
  let ?k = "t + (j + Suc n - t mod Suc n) mod Suc n"
  have "t mod Suc n < Suc n" by simp
  then have "?k mod Suc n = (t mod Suc n + (j + Suc n - t mod Suc n)) mod Suc n" by (simp add: mod_simps)
  also have "t mod Suc n + (j + Suc n - t mod Suc n) = j + Suc n" using \<open>t mod Suc n < Suc n\<close> by linarith
  also have "(j + Suc n) mod Suc n = j" using assms unfolding mod_add_self2 by simp
  finally show ?thesis by (intro exI[of _ ?k]) (simp add: less_Suc_eq_le[symmetric])
qed

text \<open>
  C7: No starvation by the round-robin scheduler. Whatever the processes and the other
  processors do to the table meanwhile, a process that is \<open>RUNNABLE\<close> whenever the loop looks
  at it during one round (64 slots and the wrap-around) is switched to in that round, and no
  slot is switched to twice in the round.
\<close>
theorem scheduler_no_starvation:
  assumes len: "\<forall>k. length (pts k) = NPROC" and j: "j < NPROC"
    and ready: "\<forall>k. t \<le> k \<and> k \<le> t + NPROC \<longrightarrow> p_state (pts k ! j) = RUNNABLE"
  shows "(\<exists>k. t \<le> k \<and> k \<le> t + NPROC \<and> picked pts k = Some j) \<and>
    (\<forall>k k'. t \<le> k \<and> k < k' \<and> k' \<le> t + NPROC \<and> picked pts k = picked pts k' \<longrightarrow> picked pts k = None)"
proof (intro conjI allI impI)
  have l: "\<And>k. length (pts k) = NPROC" using len by blast
  obtain k where "t \<le> k" "k \<le> t + NPROC" "k mod Suc NPROC = j" using round_has_slot[OF j] by blast
  then show "\<exists>k. t \<le> k \<and> k \<le> t + NPROC \<and> picked pts k = Some j"
    using ready j by (intro exI[of _ k]) (simp add: picked_eq[OF l])
  fix k k' assume a: "t \<le> k \<and> k < k' \<and> k' \<le> t + NPROC \<and> picked pts k = picked pts k'"
  have "\<not> Suc NPROC dvd k' - k" using a by (auto dest: dvd_imp_le)
  then have "k mod Suc NPROC \<noteq> k' mod Suc NPROC" using a
    by (simp add: mod_eq_dvd_iff_nat[of k k'] eq_commute[of "k mod _"])
  then show "picked pts k = None" using a by (auto simp: picked_eq[OF l] Let_def split: if_splits)
qed

definition busy_table :: "proc list" where
  "busy_table = replicate NPROC (zero_proc\<lparr>p_state := RUNNABLE\<rparr>)"

theorem scheduler_no_starvation_witness:
  "\<exists>k. 0 \<le> k \<and> k \<le> 0 + NPROC \<and> picked (\<lambda>_. busy_table) k = Some 5"
  by (rule scheduler_no_starvation[THEN conjunct1]) (simp_all add: busy_table_def)

section \<open>All processors\<close>

text \<open>
  \<open>cpus ! c\<close> is \<^verbatim>\<open>cpus[c].proc\<close>. The fields of the one-processor view are set to those of the
  processor that takes the step.
\<close>

record psys = kproc +
  cpus :: "nat option list"

definition as_cpu :: "nat \<Rightarrow> lockid set \<Rightarrow> psys \<Rightarrow> psys" where
  "as_cpu c h s = s\<lparr>held := h, curproc := cpus s ! c\<rparr>"

text \<open>What \<open>scheduler\<close> does when a process switches back to it, up to the release of the lock.\<close>

definition back_in_scheduler :: "nat \<Rightarrow> psys \<Rightarrow> psys" where
  "back_in_scheduler c s = s\<lparr>held := {}, curproc := None, cpus := (cpus s)[c := None]\<rparr>"

text \<open>The switch of \<open>scheduler\<close> to the process in slot \<open>i\<close>.\<close>

definition dispatch :: "nat \<Rightarrow> nat \<Rightarrow> psys \<Rightarrow> psys" where
  "dispatch c i s = s\<lparr>cpus := (cpus s)[c := Some i],
     ptable := set_proc i (\<lambda>p. p\<lparr>p_state := RUNNING\<rparr>) (ptable s)\<rparr>"

text \<open>The last part of \<open>fork\<close>: the child gets its parent and becomes runnable.\<close>

definition fork_end :: "nat \<Rightarrow> nat \<Rightarrow> proc list \<Rightarrow> proc list" where
  "fork_end cur i pt =
     set_proc i (\<lambda>p. p\<lparr>p_state := RUNNABLE\<rparr>) (set_proc i (\<lambda>p. p\<lparr>p_parent := Some cur\<rparr>) pt)"

inductive pstep :: "psys \<Rightarrow> psys \<Rightarrow> bool" where
  alloc: "\<lbrakk>c < length (cpus s); alloc_slot (as_cpu c {} s) = Ok r s'\<rbrakk> \<Longrightarrow> pstep s s'"
| alloc_undo: "\<lbrakk>i < length (ptable s); p_state (ptable s ! i) = EMBRYO\<rbrakk> \<Longrightarrow>
    pstep s (s\<lparr>ptable := set_proc i (\<lambda>p. p\<lparr>p_state := UNUSED\<rparr>) (ptable s)\<rparr>)"
| fork: "\<lbrakk>c < length (cpus s); cpus s ! c = Some cur; i < length (ptable s); p_state (ptable s ! i) = EMBRYO\<rbrakk> \<Longrightarrow>
    pstep s (s\<lparr>ptable := fork_end cur i (ptable s)\<rparr>)"
| run: "\<lbrakk>c < length (cpus s); cpus s ! c = None; i < length (ptable s);
    scheduler_iter i (ptable s) = (Some i, j)\<rbrakk> \<Longrightarrow> pstep s (dispatch c i s)"
| yields: "\<lbrakk>c < length (cpus s); yield (as_cpu c {} s) = Swtch t\<rbrakk> \<Longrightarrow> pstep s (back_in_scheduler c t)"
| sleeps: "\<lbrakk>c < length (cpus s); sleep ch lk (as_cpu c {lk} s) = Swtch t; \<forall>i. ch \<noteq> ChProc i\<rbrakk> \<Longrightarrow>
    pstep s (back_in_scheduler c t)"
| wakes: "\<lbrakk>c < length (cpus s); cpus s ! c = Some p; sleep_wake p lk (as_cpu c {L_ptable} s) = Ok r s'\<rbrakk> \<Longrightarrow> pstep s s'"
| wakeups: "\<lbrakk>c < length (cpus s); wakeup ch (as_cpu c {} s) = Ok r s'\<rbrakk> \<Longrightarrow> pstep s s'"
| kills: "\<lbrakk>c < length (cpus s); kill pid (as_cpu c {} s) = Ok r s'\<rbrakk> \<Longrightarrow> pstep s s'"
| wait_sleep: "\<lbrakk>c < length (cpus s); cpus s ! c = Some cur; wait_scan cur (ptable s) = (True, None);
    sleep (ChProc cur) L_ptable (as_cpu c {L_ptable} s) = Swtch t\<rbrakk> \<Longrightarrow> pstep s (back_in_scheduler c t)"
| wait_reap: "\<lbrakk>c < length (cpus s); cpus s ! c = Some cur; wait_scan cur (ptable s) = (h, Some i)\<rbrakk> \<Longrightarrow>
    pstep s (s\<lparr>ptable := set_proc i reap (ptable s)\<rparr>)"
| exits: "\<lbrakk>c < length (cpus s); cpus s ! c = Some cur; initproc s \<noteq> Some cur;
    exit_end (as_cpu c {} s) = Swtch t\<rbrakk> \<Longrightarrow> pstep s (back_in_scheduler c t)"

text \<open>The state after \<open>userinit\<close>: the first process is runnable, no processor runs one.\<close>

definition pstart :: "psys \<Rightarrow> bool" where
  "pstart s \<longleftrightarrow> initproc s = Some 0 \<and> length (ptable s) = NPROC \<and> nextpid s = 2 \<and>
     (\<forall>x \<in> set (cpus s). x = None) \<and>
     p_state (ptable s ! 0) = RUNNABLE \<and> p_pid (ptable s ! 0) = 1 \<and> p_parent (ptable s ! 0) = None \<and>
     (\<forall>i. 0 < i \<and> i < NPROC \<longrightarrow> p_state (ptable s ! i) = UNUSED \<and> p_parent (ptable s ! i) = None)"

inductive preach :: "psys \<Rightarrow> bool" where
  start: "pstart s \<Longrightarrow> preach s"
| move: "\<lbrakk>preach s; pstep s s'\<rbrakk> \<Longrightarrow> preach s'"

section \<open>What a step does to the table\<close>

lemma alloc_slot_Ok:
  assumes "alloc_slot s = Ok r s'"
  shows "(r = None \<and> s' = s) \<or>
    (\<exists>i. r = Some i \<and> i < length (ptable s) \<and> p_state (ptable s ! i) = UNUSED \<and>
       s' = s\<lparr>ptable := set_proc i (\<lambda>p. p\<lparr>p_state := EMBRYO, p_pid := nextpid s\<rparr>) (ptable s),
              nextpid := nextpid s + 1\<rparr>)"
proof (cases "first_idx (\<lambda>p. p_state p = UNUSED) (ptable s)")
  case None
  with assms show ?thesis
    by (auto simp: alloc_slot_def run_simps krelease_def split: if_splits)
next
  case (Some i)
  note i = first_idx_SomeD[OF Some]
  have "set_proc i (\<lambda>p. p\<lparr>p_pid := nextpid s\<rparr>) (set_proc i (\<lambda>p. p\<lparr>p_state := EMBRYO\<rparr>) (ptable s)) =
      set_proc i (\<lambda>p. p\<lparr>p_state := EMBRYO, p_pid := nextpid s\<rparr>) (ptable s)"
    using i by (simp add: set_proc_def)
  with assms Some i show ?thesis
    by (intro disjI2 exI[of _ i]) (auto simp: alloc_slot_def run_simps krelease_def split: if_splits)
qed

lemma sched_Swtch: "sched s = Swtch t \<Longrightarrow> t = s \<and> held s = {L_ptable} \<and> (\<exists>p. curproc s = Some p \<and> p_state (ptable s ! p) \<noteq> RUNNING)"
  by (auto simp: sched_def card_1_singleton_iff split: if_splits option.splits)

lemma sched_not_Ok: "sched s \<noteq> Ok x t"
  by (auto simp: sched_def split: option.splits)

lemma seq_sched [simp]: "seq sched m = sched"
  by (rule ext) (auto simp: bnd_def sched_not_Ok split: res.splits)

lemma yield_Swtch:
  assumes "yield s = Swtch t"
  shows "\<exists>p. curproc s = Some p \<and>
    t = s\<lparr>held := {L_ptable}, ptable := set_proc p (\<lambda>q. q\<lparr>p_state := RUNNABLE\<rparr>) (ptable s)\<rparr>"
  using assms
  by (auto simp: yield_def run_simps dest!: sched_Swtch split: if_splits)

lemma sleep_Swtch:
  assumes "sleep c lk s = Swtch t"
  shows "\<exists>p. curproc s = Some p \<and>
    t = s\<lparr>held := {L_ptable}, ptable := set_proc p (\<lambda>q. q\<lparr>p_chan := Some c, p_state := SLEEPING\<rparr>) (ptable s)\<rparr>"
proof (cases "curproc s")
  case None
  with assms show ?thesis by (simp add: sleep_def run_simps)
next
  case (Some p)
  let ?h = "if lk = L_ptable then held s else insert L_ptable (held s) - {lk}"
  let ?u = "s\<lparr>held := ?h, ptable := set_proc p (\<lambda>q. q\<lparr>p_chan := Some c, p_state := SLEEPING\<rparr>) (ptable s)\<rparr>"
  have "set_proc p (p_state_update (\<lambda>_. SLEEPING)) (set_proc p (p_chan_update (\<lambda>_. Some c)) (ptable s)) =
      set_proc p (\<lambda>q. q\<lparr>p_chan := Some c, p_state := SLEEPING\<rparr>) (ptable s)"
    by (cases "p < length (ptable s)") (simp_all add: set_proc_def list_update_beyond)
  with assms Some have "sched ?u = Swtch t"
    by (cases "lk = L_ptable") (simp_all add: sleep_def run_simps split: if_splits)
  from sched_Swtch[OF this] have "t = ?u" "?h = {L_ptable}" by simp_all
  with Some show ?thesis by simp
qed

lemma exit_end_Swtch:
  assumes "exit_end s = Swtch t" "curproc s = Some p"
  shows "t = s\<lparr>held := {L_ptable}, ptable := exit_tab p (initproc s) (ptable s)\<rparr>"
proof -
  let ?u = "s\<lparr>held := insert L_ptable (held s), ptable := exit_tab p (initproc s) (ptable s)\<rparr>"
  have "sched ?u = Swtch t"
    using assms by (simp add: exit_end_def run_simps split: if_splits)
  from sched_Swtch[OF this] have "t = ?u" "insert L_ptable (held s) = {L_ptable}" by simp_all
  then show ?thesis by simp
qed

lemma sleep_wake_Ok:
  assumes "sleep_wake p lk s = Ok r t"
  shows "\<exists>h. t = s\<lparr>held := h, ptable := set_proc p (\<lambda>q. q\<lparr>p_chan := None\<rparr>) (ptable s)\<rparr>"
  using assms
  by (auto simp: sleep_wake_def run_simps krelease_def kacquire_def upd_proc_def
      intro!: exI[of _ "held t"] split: if_splits)

lemma wakeup_Ok:
  assumes "wakeup c s = Ok r t"
  shows "\<exists>h. t = s\<lparr>held := h, ptable := wakeup1 (Some c) (ptable s)\<rparr>"
  using assms
  by (auto simp: wakeup_def run_simps krelease_def intro!: exI[of _ "held t"] split: if_splits)

lemma kill_Ok:
  assumes "kill pid s = Ok r t"
  shows "\<exists>h. t = s\<lparr>held := h, ptable := (case kill_tab pid (ptable s) of Some pt \<Rightarrow> pt | None \<Rightarrow> ptable s)\<rparr>"
  using assms
  by (auto simp: kill_def run_simps krelease_def intro!: exI[of _ "held t"]
      split: if_splits option.splits)

section \<open>The invariant\<close>

text \<open>A process that can still run, and so can wait for its children.\<close>

definition living :: "proc \<Rightarrow> bool" where
  "living p \<longleftrightarrow> p_state p \<in> {SLEEPING, RUNNABLE, RUNNING}"

definition cpu_inv :: "proc list \<Rightarrow> nat option list \<Rightarrow> bool" where
  "cpu_inv pt cp \<longleftrightarrow>
     (\<forall>c < length cp. \<forall>p. cp ! c = Some p \<longrightarrow> p < length pt \<and> p_state (pt ! p) = RUNNING) \<and>
     (\<forall>p < length pt. p_state (pt ! p) = RUNNING \<longrightarrow> (\<exists>c < length cp. cp ! c = Some p)) \<and>
     (\<forall>c < length cp. \<forall>d < length cp. cp ! c \<noteq> None \<and> cp ! c = cp ! d \<longrightarrow> c = d)"

definition pid_inv :: "proc list \<Rightarrow> int \<Rightarrow> bool" where
  "pid_inv pt npid \<longleftrightarrow> 0 < npid \<and>
     (\<forall>i < length pt. p_state (pt ! i) \<noteq> UNUSED \<longrightarrow> 0 < p_pid (pt ! i) \<and> p_pid (pt ! i) < npid) \<and>
     (\<forall>i < length pt. \<forall>j < length pt. p_state (pt ! i) \<noteq> UNUSED \<and> p_state (pt ! j) \<noteq> UNUSED \<and>
        p_pid (pt ! i) = p_pid (pt ! j) \<longrightarrow> i = j)"

definition family_inv :: "proc list \<Rightarrow> nat option \<Rightarrow> bool" where
  "family_inv pt init \<longleftrightarrow>
     (\<exists>r. init = Some r \<and> r < length pt \<and> living (pt ! r) \<and> p_parent (pt ! r) = None) \<and>
     (\<forall>i < length pt. p_state (pt ! i) \<in> {UNUSED, EMBRYO} \<longrightarrow> p_parent (pt ! i) = None) \<and>
     (\<forall>i < length pt. p_parent (pt ! i) \<noteq> Some i) \<and>
     (\<forall>i < length pt. p_state (pt ! i) \<notin> {UNUSED, EMBRYO} \<and> Some i \<noteq> init \<longrightarrow>
        (\<exists>q < length pt. p_parent (pt ! i) = Some q \<and> living (pt ! q)))"

definition wait_inv :: "proc list \<Rightarrow> bool" where
  "wait_inv pt \<longleftrightarrow>
     (\<forall>p < length pt. p_state (pt ! p) = SLEEPING \<and> p_chan (pt ! p) = Some (ChProc p) \<longrightarrow>
        (\<exists>i < length pt. p_parent (pt ! i) = Some p) \<and>
        (\<forall>i < length pt. p_parent (pt ! i) = Some p \<longrightarrow> p_state (pt ! i) \<noteq> ZOMBIE))"

definition chan_inv :: "proc list \<Rightarrow> bool" where
  "chan_inv pt \<longleftrightarrow> (\<forall>i < length pt. \<forall>p. p_state (pt ! i) = SLEEPING \<and> p_chan (pt ! i) = Some (ChProc p) \<longrightarrow> p = i)"

definition pinv :: "psys \<Rightarrow> bool" where
  "pinv s \<longleftrightarrow> cpu_inv (ptable s) (cpus s) \<and> pid_inv (ptable s) (nextpid s) \<and>
     family_inv (ptable s) (initproc s) \<and> wait_inv (ptable s) \<and> chan_inv (ptable s)"

subsection \<open>Pointwise changes\<close>

text \<open>
  Each part of the invariant survives a change of the table that relates the old and the
  new process of every slot in the right way.
\<close>

lemma pid_inv_mono:
  assumes "pid_inv pt n" "length pt' = length pt" "n \<le> m"
    "\<And>j. j < length pt \<Longrightarrow> p_state (pt' ! j) \<noteq> UNUSED \<Longrightarrow> p_state (pt ! j) \<noteq> UNUSED \<and> p_pid (pt' ! j) = p_pid (pt ! j)"
  shows "pid_inv pt' m"
  unfolding pid_inv_def
proof (intro conjI allI impI)
  have inv: "0 < n" "\<And>i. i < length pt \<Longrightarrow> p_state (pt ! i) \<noteq> UNUSED \<Longrightarrow> 0 < p_pid (pt ! i) \<and> p_pid (pt ! i) < n"
    "\<And>i j. i < length pt \<Longrightarrow> j < length pt \<Longrightarrow> p_state (pt ! i) \<noteq> UNUSED \<Longrightarrow> p_state (pt ! j) \<noteq> UNUSED \<Longrightarrow>
        p_pid (pt ! i) = p_pid (pt ! j) \<Longrightarrow> i = j"
    using assms(1) unfolding pid_inv_def by blast+
  show "0 < m" using inv(1) assms(3) by simp
  fix i assume i: "i < length pt'" "p_state (pt' ! i) \<noteq> UNUSED"
  show "0 < p_pid (pt' ! i)" "p_pid (pt' ! i) < m" using inv(2)[of i] assms(2,3) assms(4)[of i] i by auto
next
  fix i j assume i: "i < length pt'" "j < length pt'"
    "p_state (pt' ! i) \<noteq> UNUSED \<and> p_state (pt' ! j) \<noteq> UNUSED \<and> p_pid (pt' ! i) = p_pid (pt' ! j)"
  then show "i = j" using assms(1) assms(2) assms(4)[of i] assms(4)[of j] unfolding pid_inv_def by simp
qed

lemma family_inv_mono:
  assumes "family_inv pt init" "length pt' = length pt"
    "\<And>j. j < length pt \<Longrightarrow> p_parent (pt' ! j) = p_parent (pt ! j) \<and> (living (pt' ! j) \<longleftrightarrow> living (pt ! j)) \<and>
       (p_state (pt' ! j) \<in> {UNUSED, EMBRYO} \<longleftrightarrow> p_state (pt ! j) \<in> {UNUSED, EMBRYO})"
  shows "family_inv pt' init"
proof -
  have eq: "p_parent (pt' ! j) = p_parent (pt ! j)" "living (pt' ! j) \<longleftrightarrow> living (pt ! j)"
    "p_state (pt' ! j) \<in> {UNUSED, EMBRYO} \<longleftrightarrow> p_state (pt ! j) \<in> {UNUSED, EMBRYO}" if "j < length pt" for j
    using assms(3)[OF that] by blast+
  show ?thesis using assms(1) unfolding family_inv_def assms(2)
    by (simp add: eq del: insert_iff cong: conj_cong)
qed

lemma wait_inv_mono:
  assumes "wait_inv pt" "length pt' = length pt"
    "\<And>j. j < length pt \<Longrightarrow> p_parent (pt' ! j) = p_parent (pt ! j) \<and>
       (p_state (pt' ! j) = ZOMBIE \<longrightarrow> p_state (pt ! j) = ZOMBIE) \<and>
       (p_state (pt' ! j) = SLEEPING \<longrightarrow> p_chan (pt' ! j) = Some (ChProc j) \<longrightarrow>
         p_state (pt ! j) = SLEEPING \<and> p_chan (pt ! j) = Some (ChProc j))"
  shows "wait_inv pt'"
  using assms unfolding wait_inv_def by metis

lemma chan_inv_mono:
  assumes "chan_inv pt" "length pt' = length pt"
    "\<And>j p. j < length pt \<Longrightarrow> p_state (pt' ! j) = SLEEPING \<Longrightarrow> p_chan (pt' ! j) = Some (ChProc p) \<Longrightarrow>
       p_state (pt ! j) = SLEEPING \<and> p_chan (pt ! j) = Some (ChProc p) \<or> p = j"
  shows "chan_inv pt'"
  using assms unfolding chan_inv_def by metis

lemma cpu_inv_mono:
  assumes "cpu_inv pt cp" "length pt' = length pt"
    "\<And>j. j < length pt \<Longrightarrow> p_state (pt' ! j) = RUNNING \<longleftrightarrow> p_state (pt ! j) = RUNNING"
  shows "cpu_inv pt' cp"
  using assms(1) unfolding cpu_inv_def assms(2) 
  by (elim conjE, intro conjI) (simp add: assms(3) cong: conj_cong, simp add: assms(3), assumption)

subsection \<open>The steps that need an argument of their own\<close>

lemma cpu_inv_inj: "cpu_inv pt cp \<Longrightarrow> c < length cp \<Longrightarrow> d < length cp \<Longrightarrow> cp ! c = Some p \<Longrightarrow> cp ! d = Some p \<Longrightarrow> c = d"
  by (simp add: cpu_inv_def)

lemma cpu_inv_leave:
  assumes "cpu_inv pt cp" "length pt' = length pt" "c < length cp" "cp ! c = Some p" "p_state (pt' ! p) \<noteq> RUNNING"
    "\<And>j. j < length pt \<Longrightarrow> j \<noteq> p \<Longrightarrow> p_state (pt' ! j) = RUNNING \<longleftrightarrow> p_state (pt ! j) = RUNNING"
  shows "cpu_inv pt' (cp[c := None])"
  unfolding cpu_inv_def
proof (intro conjI allI impI)
  have inj: "d = c" if "d < length cp" "cp ! d = Some p" for d
    using assms(1,3,4) that unfolding cpu_inv_def by (metis option.discI)
  fix d q assume "d < length (cp[c := None])" "cp[c := None] ! d = Some q"
  then have d: "d < length cp" "d \<noteq> c" "cp ! d = Some q" using assms(3) by (auto simp: nth_list_update split: if_splits)
  then have "q \<noteq> p" using inj by auto
  then show "q < length pt'" "p_state (pt' ! q) = RUNNING" using assms(1,2) assms(6)[of q] d unfolding cpu_inv_def by auto
next
  fix q assume q: "q < length pt'" "p_state (pt' ! q) = RUNNING"
  then have "q \<noteq> p" "p_state (pt ! q) = RUNNING" using assms by auto
  then obtain d where "d < length cp" "cp ! d = Some q" using assms(1,2) q unfolding cpu_inv_def by auto
  moreover have "d \<noteq> c" using calculation assms(4) \<open>q \<noteq> p\<close> by auto
  ultimately show "\<exists>d < length (cp[c := None]). cp[c := None] ! d = Some q" by (intro exI[of _ d]) simp
next
  fix d e assume "d < length (cp[c := None])" "e < length (cp[c := None])"
    "cp[c := None] ! d \<noteq> None \<and> cp[c := None] ! d = cp[c := None] ! e"
  then show "d = e" using assms(3)
    by (auto simp: nth_list_update split: if_splits dest: cpu_inv_inj[OF assms(1)])
qed

lemma cpu_inv_enter:
  assumes "cpu_inv pt cp" "c < length cp" "cp ! c = None" "i < length pt" "p_state (pt ! i) \<noteq> RUNNING"
  shows "cpu_inv (set_proc i (\<lambda>p. p\<lparr>p_state := RUNNING\<rparr>) pt) (cp[c := Some i])"
  unfolding cpu_inv_def
proof (intro conjI allI impI)
  have no: "cp ! d \<noteq> Some i" if "d < length cp" for d using assms(1,5) that unfolding cpu_inv_def by auto
  fix d q assume "d < length (cp[c := Some i])" "cp[c := Some i] ! d = Some q"
  then show "q < length (set_proc i (\<lambda>p. p\<lparr>p_state := RUNNING\<rparr>) pt)"
    "p_state (set_proc i (\<lambda>p. p\<lparr>p_state := RUNNING\<rparr>) pt ! q) = RUNNING"
    using assms unfolding cpu_inv_def by (auto simp: nth_list_update split: if_splits)
next
  fix q assume q: "q < length (set_proc i (\<lambda>p. p\<lparr>p_state := RUNNING\<rparr>) pt)"
    "p_state (set_proc i (\<lambda>p. p\<lparr>p_state := RUNNING\<rparr>) pt ! q) = RUNNING"
  show "\<exists>d < length (cp[c := Some i]). cp[c := Some i] ! d = Some q"
  proof (cases "q = i")
    case True
    then show ?thesis using assms(2) by (intro exI[of _ c]) simp
  next
    case False
    then obtain d where "d < length cp" "cp ! d = Some q" using assms(1,4) q unfolding cpu_inv_def by auto
    then show ?thesis using assms(2,3) by (intro exI[of _ d]) (auto simp: nth_list_update)
  qed
next
  have no: "cp ! d \<noteq> Some i" if "d < length cp" for d using assms(1,5) that unfolding cpu_inv_def by auto
  fix d e assume "d < length (cp[c := Some i])" "e < length (cp[c := Some i])"
    "cp[c := Some i] ! d \<noteq> None \<and> cp[c := Some i] ! d = cp[c := Some i] ! e"
  then show "d = e" using assms(2) no[of d] no[of e]
    by (auto simp: nth_list_update split: if_splits dest: cpu_inv_inj[OF assms(1)])
qed

lemma pid_inv_alloc:
  assumes "pid_inv pt n" "i < length pt" "p_state (pt ! i) = UNUSED"
  shows "pid_inv (set_proc i (\<lambda>p. p\<lparr>p_state := EMBRYO, p_pid := n\<rparr>) pt) (n + 1)"
  unfolding pid_inv_def
proof (intro conjI allI impI)
  have inv: "0 < n" "\<And>j. j < length pt \<Longrightarrow> p_state (pt ! j) \<noteq> UNUSED \<Longrightarrow> 0 < p_pid (pt ! j) \<and> p_pid (pt ! j) < n"
    using assms(1) unfolding pid_inv_def by blast+
  let ?q = "set_proc i (\<lambda>p. p\<lparr>p_state := EMBRYO, p_pid := n\<rparr>) pt"
  show "0 < n + 1" using inv by simp
  { fix j assume "j < length ?q" "p_state (?q ! j) \<noteq> UNUSED"
    then show "0 < p_pid (?q ! j)" "p_pid (?q ! j) < n + 1" using inv(1) inv(2)[of j] assms(2) by (cases "j = i"; auto)+ }
  fix j k assume "j < length ?q" "k < length ?q"
    "p_state (?q ! j) \<noteq> UNUSED \<and> p_state (?q ! k) \<noteq> UNUSED \<and> p_pid (?q ! j) = p_pid (?q ! k)"
  then show "j = k" using assms(1,2) inv(2)[of j] inv(2)[of k] unfolding pid_inv_def
    by (auto split: if_splits)
qed

lemma fork_end_inv:
  assumes "family_inv pt init" "wait_inv pt" "i < length pt" "p_state (pt ! i) = EMBRYO"
    "cur < length pt" "p_state (pt ! cur) = RUNNING"
  shows "family_inv (fork_end cur i pt) init" "wait_inv (fork_end cur i pt)"
proof -
  let ?q = "fork_end cur i pt"
  have l: "length ?q = length pt" by (simp add: fork_end_def)
  have n: "j < length pt \<Longrightarrow> ?q ! j = (if j = i then (pt ! i)\<lparr>p_state := RUNNABLE, p_parent := Some cur\<rparr> else pt ! j)" for j
    using assms(3) by (simp add: fork_end_def)
  have i: "cur \<noteq> i" "init \<noteq> Some i" "living (pt ! cur)" using assms unfolding family_inv_def living_def by auto
  have liv: "living (pt ! j) \<Longrightarrow> j < length pt \<Longrightarrow> living (?q ! j)" for j by (simp add: n living_def)
  have par: "p_parent (pt ! i) = None" using assms(1,3,4) unfolding family_inv_def by simp
  show "family_inv ?q init"
    using assms(1) i assms(5) liv unfolding family_inv_def l by (auto simp: n)
  show "wait_inv ?q"
    using assms(2,4,6) i par unfolding wait_inv_def l by (auto simp: n) (metis n par option.distinct(1))
qed

lemma wait_sleep_inv:
  assumes "wait_inv pt" "cur < length pt" "p_state (pt ! cur) = RUNNING" "wait_scan cur pt = (True, None)"
  shows "wait_inv (set_proc cur (\<lambda>q. q\<lparr>p_chan := Some c, p_state := SLEEPING\<rparr>) pt)"
proof -
  let ?q = "set_proc cur (\<lambda>q. q\<lparr>p_chan := Some c, p_state := SLEEPING\<rparr>) pt"
  have n: "?q ! j = (if j = cur then (pt ! cur)\<lparr>p_chan := Some c, p_state := SLEEPING\<rparr> else pt ! j)" for j
    using assms(2) by simp
  have kids: "\<exists>i < length pt. p_parent (pt ! i) = Some cur"
    "\<And>i. i < length pt \<Longrightarrow> p_parent (pt ! i) = Some cur \<Longrightarrow> p_state (pt ! i) \<noteq> ZOMBIE"
    using assms(4) unfolding wait_scan_def by (auto simp: in_set_conv_nth first_idx_None) (metis nth_mem)
  show ?thesis
    unfolding wait_inv_def set_proc_sel(1)
  proof (intro allI impI conjI)
    fix p assume p: "p < length pt" "p_state (?q ! p) = SLEEPING \<and> p_chan (?q ! p) = Some (ChProc p)"
    show "\<exists>i < length pt. p_parent (?q ! i) = Some p"
      using p assms(1) kids(1) unfolding wait_inv_def n by (cases "p = cur") auto
    fix i assume i: "i < length pt" "p_parent (?q ! i) = Some p"
    show "p_state (?q ! i) \<noteq> ZOMBIE"
      using p i assms(1) kids(2) unfolding wait_inv_def n by (cases "p = cur") (auto split: if_splits)
  qed
qed

lemma reap_inv:
  assumes "family_inv pt init" "wait_inv pt" "i < length pt" "p_parent (pt ! i) = Some cur" "p_state (pt ! i) = ZOMBIE"
    "cur < length pt" "p_state (pt ! cur) = RUNNING"
  shows "family_inv (set_proc i reap pt) init" "wait_inv (set_proc i reap pt)"
proof -
  let ?q = "set_proc i reap pt"
  have l: "length ?q = length pt" by simp
  have n: "?q ! j = (if j = i then reap (pt ! i) else pt ! j)" for j using assms(3) by simp
  have r: "p_state (reap p) = UNUSED" "p_parent (reap p) = None" for p by (simp_all add: reap_def)
  have i: "init \<noteq> Some i" "\<not> living (pt ! i)" using assms unfolding family_inv_def living_def by auto
  then have orph: "p_parent (pt ! j) \<noteq> Some i" if "j < length pt" for j
    using assms(1) that unfolding family_inv_def by (metis option.distinct(1) option.inject)
  have liv: "living (?q ! j) \<longleftrightarrow> living (pt ! j)" for j using i by (auto simp: n r living_def)
  show "family_inv ?q init"
    using assms(1) i unfolding family_inv_def l liv by (auto simp: n r)
  show "wait_inv ?q"
    unfolding wait_inv_def l
  proof (intro allI impI conjI)
    fix p assume p: "p < length pt" "p_state (?q ! p) = SLEEPING \<and> p_chan (?q ! p) = Some (ChProc p)"
    then have old: "p_state (pt ! p) = SLEEPING \<and> p_chan (pt ! p) = Some (ChProc p)" "p \<noteq> cur"
      using assms(7) by (auto simp: n r split: if_splits)
    then have w: "\<exists>k < length pt. p_parent (pt ! k) = Some p"
      "\<forall>k < length pt. p_parent (pt ! k) = Some p \<longrightarrow> p_state (pt ! k) \<noteq> ZOMBIE"
      using assms(2) p(1) unfolding wait_inv_def by blast+
    from w(1) obtain k where "k < length pt" "p_parent (pt ! k) = Some p" by blast
    then show "\<exists>k < length pt. p_parent (?q ! k) = Some p"
      using old(2) assms(4) by (intro exI[of _ k]) (auto simp: n)
    fix k assume "k < length pt" "p_parent (?q ! k) = Some p"
    then show "p_state (?q ! k) \<noteq> ZOMBIE" using w(2) by (auto simp: n r split: if_splits)
  qed
qed

definition zombie_child :: "nat \<Rightarrow> proc list \<Rightarrow> bool" where
  "zombie_child cur pt \<longleftrightarrow> (\<exists>i < length pt. p_parent (pt ! i) = Some cur \<and> p_state (pt ! i) = ZOMBIE)"

lemma exit_tab_sel:
  assumes "cur < length pt" "j < length pt"
  shows "p_parent (exit_tab cur init pt ! j) = (if p_parent (pt ! j) = Some cur then init else p_parent (pt ! j))"
    "p_pid (exit_tab cur init pt ! j) = p_pid (pt ! j)"
    "p_chan (exit_tab cur init pt ! j) = p_chan (pt ! j)"
    "p_state (exit_tab cur init pt ! j) =
       (if j = cur then ZOMBIE
        else if p_state (pt ! j) = SLEEPING \<and>
          (p_chan (pt ! j) = map_option ChProc (p_parent (pt ! cur)) \<or>
           zombie_child cur pt \<and> p_chan (pt ! j) = map_option ChProc init)
        then RUNNABLE else p_state (pt ! j))"
proof -
  let ?w = "wakeup1 (map_option ChProc (p_parent (pt ! cur))) pt"
  have z: "(\<exists>i \<in> set [0..<length ?w]. p_parent (?w ! i) = Some cur \<and> p_state (?w ! i) = ZOMBIE) \<longleftrightarrow> zombie_child cur pt"
  proof -
    have "p_parent (?w ! i) = p_parent (pt ! i) \<and> (p_state (?w ! i) = ZOMBIE \<longleftrightarrow> p_state (pt ! i) = ZOMBIE)"
      if "i < length pt" for i using that by simp
    then show ?thesis unfolding Bex_def set_upt wakeup1_sel(1) zombie_child_def by (metis atLeastLessThan_iff le0)
  qed
  have l: "length (reparent cur init [0..<length ?w] ?w) = length pt"
    by (subst reparent_eq) (auto simp: Let_def)
  have r: "reparent cur init [0..<length ?w] ?w ! j =
      (let q = map (\<lambda>i. if i \<in> set [0..<length ?w] then adopt cur init (?w ! i) else ?w ! i) [0..<length ?w]
       in if zombie_child cur pt then wakeup1 (map_option ChProc init) q else q) ! j"
    unfolding z[symmetric] by (subst reparent_eq) (rule distinct_upt, simp, rule refl)
  have n: "exit_tab cur init pt ! j = (if j = cur then (reparent cur init [0..<length ?w] ?w ! j)\<lparr>p_state := ZOMBIE\<rparr>
       else reparent cur init [0..<length ?w] ?w ! j)"
    using assms l unfolding exit_tab_def Let_def by simp
  show "p_parent (exit_tab cur init pt ! j) = (if p_parent (pt ! j) = Some cur then init else p_parent (pt ! j))"
    "p_pid (exit_tab cur init pt ! j) = p_pid (pt ! j)"
    "p_chan (exit_tab cur init pt ! j) = p_chan (pt ! j)"
    "p_state (exit_tab cur init pt ! j) =
       (if j = cur then ZOMBIE
        else if p_state (pt ! j) = SLEEPING \<and>
          (p_chan (pt ! j) = map_option ChProc (p_parent (pt ! cur)) \<or>
           zombie_child cur pt \<and> p_chan (pt ! j) = map_option ChProc init)
        then RUNNABLE else p_state (pt ! j))"
    unfolding n r Let_def using assms(2) by (simp_all del: wakeup1_sel(2)) auto
qed

lemma exit_tab_length [simp]: "length (exit_tab cur init pt) = length pt"
  unfolding exit_tab_def Let_def by (simp, subst reparent_eq) (auto simp: Let_def)

lemma exit_inv:
  assumes "family_inv pt init" "wait_inv pt" "chan_inv pt" "cur < length pt" "p_state (pt ! cur) = RUNNING" "init \<noteq> Some cur"
  shows "family_inv (exit_tab cur init pt) init" "wait_inv (exit_tab cur init pt)"
proof -
  let ?q = "exit_tab cur init pt"
  note sel = exit_tab_sel[OF assms(4)]
  obtain r where r: "init = Some r" "r < length pt" "living (pt ! r)" "p_parent (pt ! r) = None" "r \<noteq> cur"
    using assms(1,6) unfolding family_inv_def by auto
  have liv: "living (?q ! j) \<longleftrightarrow> living (pt ! j) \<and> j \<noteq> cur" if "j < length pt" for j
    using that by (auto simp: living_def sel)
  have new: "p_state (?q ! j) \<in> {UNUSED, EMBRYO} \<longleftrightarrow> p_state (pt ! j) \<in> {UNUSED, EMBRYO}" if "j < length pt" for j
    using that assms(5) by (auto simp: sel)
  have par: "\<exists>q < length pt. p_parent (pt ! i) = Some q \<and> living (pt ! q)"
    if "i < length pt" "p_state (pt ! i) \<notin> {UNUSED, EMBRYO}" "i \<noteq> r" for i
    using assms(1) that r(1) unfolding family_inv_def by auto
  show "family_inv ?q init"
    unfolding family_inv_def exit_tab_length
  proof (intro conjI allI impI)
    show "\<exists>r. init = Some r \<and> r < length pt \<and> living (?q ! r) \<and> p_parent (?q ! r) = None"
    proof (intro exI[of _ r] conjI)
      show "living (?q ! r)" using liv[OF r(2)] r(3,5) by blast
      show "p_parent (?q ! r) = None" using sel(1)[OF r(2), of init] r(4) by simp
    qed (use r in auto)
    fix i assume i: "i < length pt"
    { assume "p_state (?q ! i) \<in> {UNUSED, EMBRYO}"
      then have "p_parent (pt ! i) = None" using new[OF i] assms(1) i unfolding family_inv_def by blast
      then show "p_parent (?q ! i) = None" by (simp add: sel i) }
    show "p_parent (?q ! i) \<noteq> Some i"
      using assms(1) i r(1,4) unfolding family_inv_def by (auto simp: sel)
    assume "p_state (?q ! i) \<notin> {UNUSED, EMBRYO} \<and> Some i \<noteq> init"
    then obtain q where q: "q < length pt" "p_parent (pt ! i) = Some q" "living (pt ! q)"
      using par[of i] new[OF i] i r(1) by auto
    show "\<exists>q < length pt. p_parent (?q ! i) = Some q \<and> living (?q ! q)"
    proof (cases "q = cur")
      case True
      then show ?thesis using q sel(1)[OF i, of init] r liv[OF r(2)] by metis
    next
      case False
      then show ?thesis using q sel(1)[OF i, of init] liv[OF q(1)] by (intro exI[of _ q]) simp
    qed
  qed
  show "wait_inv ?q"
    unfolding wait_inv_def exit_tab_length
  proof (intro allI impI conjI)
    fix p assume p: "p < length pt" "p_state (?q ! p) = SLEEPING \<and> p_chan (?q ! p) = Some (ChProc p)"
    then have old: "p_state (pt ! p) = SLEEPING" "p_chan (pt ! p) = Some (ChProc p)" "p \<noteq> cur"
      by (auto simp: sel split: if_splits)
    then have w: "\<exists>k < length pt. p_parent (pt ! k) = Some p"
      "\<And>k. k < length pt \<Longrightarrow> p_parent (pt ! k) = Some p \<Longrightarrow> p_state (pt ! k) \<noteq> ZOMBIE"
      using assms(2) p(1) unfolding wait_inv_def by blast+
    show "\<exists>k < length pt. p_parent (?q ! k) = Some p" using w(1) old(3) by (auto simp: sel)
    fix k assume k: "k < length pt" "p_parent (?q ! k) = Some p"
    have notpar: "p_parent (pt ! cur) \<noteq> Some p" using p old by (auto simp: sel split: if_splits)
    have noz: "\<not> zombie_child cur pt" if "p = r"
      using p old r(1) that by (auto simp: sel split: if_splits)
    have "\<exists>q < length pt. p_parent (pt ! cur) = Some q \<and> living (pt ! q)"
      using par[of cur] assms(4,5) r(5) by auto
    show "p_state (?q ! k) \<noteq> ZOMBIE"
    proof (cases "p_parent (pt ! k) = Some cur")
      case True
      then have "p = r" using k r(1) by (simp add: sel)
      then have "p_state (pt ! k) \<noteq> ZOMBIE" using noz True k(1) unfolding zombie_child_def by blast
      moreover have "k \<noteq> cur" using True assms(1) k(1) unfolding family_inv_def by blast
      ultimately show ?thesis using k(1) by (auto simp: sel split: if_splits)
    next
      case False
      then show ?thesis using w(2)[OF k(1)] k notpar by (auto simp: sel split: if_splits)
    qed
  qed
qed

section \<open>Every step keeps the invariant\<close>

text \<open>Steps that change one slot and neither a parent nor an id in use.\<close>

lemma pinv_quiet:
  assumes "pinv s" "length pt' = length (ptable s)"
    "\<And>j. j < length pt' \<Longrightarrow> p_parent (pt' ! j) = p_parent (ptable s ! j) \<and> p_pid (pt' ! j) = p_pid (ptable s ! j) \<and>
       (p_state (pt' ! j) = p_state (ptable s ! j) \<and> (p_chan (pt' ! j) = p_chan (ptable s ! j) \<or> p_state (ptable s ! j) = RUNNING) \<or>
        p_state (ptable s ! j) = SLEEPING \<and> p_state (pt' ! j) = RUNNABLE \<or>
        p_state (ptable s ! j) = EMBRYO \<and> p_state (pt' ! j) = UNUSED)"
  shows "pinv (s\<lparr>held := h, curproc := c, ptable := pt'\<rparr>)"
proof -
  have ch: "j < length (ptable s) \<Longrightarrow> p_parent (pt' ! j) = p_parent (ptable s ! j) \<and> p_pid (pt' ! j) = p_pid (ptable s ! j) \<and>
      (p_state (pt' ! j) = p_state (ptable s ! j) \<and> (p_chan (pt' ! j) = p_chan (ptable s ! j) \<or> p_state (ptable s ! j) = RUNNING) \<or>
        p_state (ptable s ! j) = SLEEPING \<and> p_state (pt' ! j) = RUNNABLE \<or>
        p_state (ptable s ! j) = EMBRYO \<and> p_state (pt' ! j) = UNUSED)" for j
    using assms(2,3) by simp
  have "pid_inv pt' (nextpid s)"
    by (rule pid_inv_mono[of "ptable s" "nextpid s"]) (use assms(1,2) ch in \<open>fastforce simp: pinv_def\<close>)+
  moreover have "cpu_inv pt' (cpus s)"
    by (rule cpu_inv_mono[of "ptable s"]) (use assms(1,2) ch in \<open>fastforce simp: pinv_def\<close>)+
  moreover have "family_inv pt' (initproc s)"
    by (rule family_inv_mono[of "ptable s"]) (use assms(1,2) ch in \<open>fastforce simp: pinv_def living_def\<close>)+
  moreover have "wait_inv pt'"
    by (rule wait_inv_mono[of "ptable s"]) (use assms(1,2) ch in \<open>fastforce simp: pinv_def\<close>)+
  moreover have "chan_inv pt'"
    by (rule chan_inv_mono[of "ptable s"]) (use assms(1,2) ch in \<open>fastforce simp: pinv_def\<close>)+
  ultimately show ?thesis by (simp add: pinv_def)
qed

text \<open>A process that gives up the processor.\<close>

lemma pinv_leave:
  assumes "pinv s" "c < length (cpus s)" "cpus s ! c = Some p" "q = f (ptable s ! p)"
    "p_state q = RUNNABLE \<or> p_state q = SLEEPING" "p_parent q = p_parent (ptable s ! p)" "p_pid q = p_pid (ptable s ! p)"
    "wait_inv (set_proc p f (ptable s))"
    "\<And>k. p_state q = SLEEPING \<Longrightarrow> p_chan q = Some (ChProc k) \<Longrightarrow> k = p"
  shows "pinv (back_in_scheduler c (s\<lparr>held := h, curproc := cp, ptable := set_proc p f (ptable s)\<rparr>))"
proof -
  let ?q = "set_proc p f (ptable s)"
  have p: "p < length (ptable s)" "p_state (ptable s ! p) = RUNNING" using assms(1-3) unfolding pinv_def cpu_inv_def by auto
  have "pid_inv ?q (nextpid s)"
    by (rule pid_inv_mono[of "ptable s" "nextpid s"]) (use assms p in \<open>auto simp: pinv_def split: if_splits\<close>)
  moreover have "cpu_inv ?q ((cpus s)[c := None])"
    by (rule cpu_inv_leave[of "ptable s" _ _ _ p]) (use assms p in \<open>auto simp: pinv_def\<close>)
  moreover have "family_inv ?q (initproc s)"
    by (rule family_inv_mono[of "ptable s"]) (use assms p in \<open>auto simp: pinv_def living_def\<close>)
  moreover have "chan_inv ?q"
    by (rule chan_inv_mono[of "ptable s"]) (use assms p in \<open>auto simp: pinv_def split: if_splits\<close>)
  ultimately show ?thesis using assms(8) by (simp add: pinv_def back_in_scheduler_def)
qed

lemma pinv_current:
  assumes "pinv s" "c < length (cpus s)" "cpus s ! c = Some p"
  shows "p < length (ptable s)" "p_state (ptable s ! p) = RUNNING"
  using assms unfolding pinv_def cpu_inv_def by auto

lemma pinv_exit:
  assumes "pinv s" "c < length (cpus s)" "cpus s ! c = Some p" "initproc s \<noteq> Some p"
  shows "pinv (back_in_scheduler c (s\<lparr>held := h, curproc := cp, ptable := exit_tab p (initproc s) (ptable s)\<rparr>))"
proof -
  let ?q = "exit_tab p (initproc s) (ptable s)"
  note p = pinv_current[OF assms(1-3)]
  note sel = exit_tab_sel[OF p(1)]
  have "pid_inv ?q (nextpid s)"
    by (rule pid_inv_mono[of "ptable s" "nextpid s"]) (use assms p in \<open>auto simp: pinv_def sel split: if_splits\<close>)
  moreover have "cpu_inv ?q ((cpus s)[c := None])"
    by (rule cpu_inv_leave[of "ptable s" _ _ _ p]) (use assms p in \<open>auto simp: pinv_def sel\<close>)
  moreover have "family_inv ?q (initproc s)" "wait_inv ?q"
    using assms p by (auto simp: pinv_def intro!: exit_inv)
  moreover have "chan_inv ?q"
    by (rule chan_inv_mono[of "ptable s"]) (use assms p in \<open>auto simp: pinv_def sel split: if_splits\<close>)
  ultimately show ?thesis by (simp add: pinv_def back_in_scheduler_def)
qed

lemma as_cpu_sel [simp]:
  "ptable (as_cpu c h s) = ptable s" "initproc (as_cpu c h s) = initproc s" "nextpid (as_cpu c h s) = nextpid s"
  "cpus (as_cpu c h s) = cpus s" "curproc (as_cpu c h s) = cpus s ! c" "held (as_cpu c h s) = h"
  by (simp_all add: as_cpu_def)

lemma pinv_as_cpu [simp]: "pinv (as_cpu c h s) = pinv s"
  by (simp add: pinv_def)

lemma pinv_alloc:
  assumes "pinv s" "i < length (ptable s)" "p_state (ptable s ! i) = UNUSED"
  shows "pinv (s\<lparr>ptable := set_proc i (\<lambda>p. p\<lparr>p_state := EMBRYO, p_pid := nextpid s\<rparr>) (ptable s), nextpid := nextpid s + 1\<rparr>)"
proof -
  let ?q = "set_proc i (\<lambda>p. p\<lparr>p_state := EMBRYO, p_pid := nextpid s\<rparr>) (ptable s)"
  have "pid_inv ?q (nextpid s + 1)" using assms by (auto simp: pinv_def intro: pid_inv_alloc)
  moreover have "cpu_inv ?q (cpus s)"
    by (rule cpu_inv_mono[of "ptable s"]) (use assms in \<open>auto simp: pinv_def\<close>)
  moreover have "family_inv ?q (initproc s)"
    by (rule family_inv_mono[of "ptable s"]) (use assms in \<open>auto simp: pinv_def living_def\<close>)
  moreover have "wait_inv ?q"
    by (rule wait_inv_mono[of "ptable s"]) (use assms in \<open>auto simp: pinv_def\<close>)
  moreover have "chan_inv ?q"
    by (rule chan_inv_mono[of "ptable s"]) (use assms in \<open>auto simp: pinv_def split: if_splits\<close>)
  ultimately show ?thesis by (simp add: pinv_def)
qed

lemma pinv_run:
  assumes "pinv s" "c < length (cpus s)" "cpus s ! c = None" "i < length (ptable s)" "p_state (ptable s ! i) = RUNNABLE"
  shows "pinv (dispatch c i s)"
proof -
  let ?q = "set_proc i (\<lambda>p. p\<lparr>p_state := RUNNING\<rparr>) (ptable s)"
  have "pid_inv ?q (nextpid s)"
    by (rule pid_inv_mono[of "ptable s" "nextpid s"]) (use assms in \<open>auto simp: pinv_def split: if_splits\<close>)
  moreover have "cpu_inv ?q ((cpus s)[c := Some i])" using assms by (auto simp: pinv_def intro!: cpu_inv_enter)
  moreover have "family_inv ?q (initproc s)"
    by (rule family_inv_mono[of "ptable s"]) (use assms in \<open>auto simp: pinv_def living_def\<close>)
  moreover have "wait_inv ?q"
    by (rule wait_inv_mono[of "ptable s"]) (use assms in \<open>auto simp: pinv_def\<close>)
  moreover have "chan_inv ?q"
    by (rule chan_inv_mono[of "ptable s"]) (use assms in \<open>auto simp: pinv_def split: if_splits\<close>)
  ultimately show ?thesis by (simp add: pinv_def dispatch_def)
qed

lemma pinv_fork:
  assumes "pinv s" "c < length (cpus s)" "cpus s ! c = Some cur" "i < length (ptable s)" "p_state (ptable s ! i) = EMBRYO"
  shows "pinv (s\<lparr>ptable := fork_end cur i (ptable s)\<rparr>)"
proof -
  let ?q = "fork_end cur i (ptable s)"
  note p = pinv_current[OF assms(1-3)]
  have l: "length ?q = length (ptable s)" by (simp add: fork_end_def)
  have "pid_inv ?q (nextpid s)"
    by (rule pid_inv_mono[of "ptable s" "nextpid s"]) (use assms p in \<open>auto simp: pinv_def fork_end_def split: if_splits\<close>)
  moreover have "cpu_inv ?q (cpus s)"
    by (rule cpu_inv_mono[of "ptable s"]) (use assms in \<open>auto simp: pinv_def fork_end_def\<close>)
  moreover have "family_inv ?q (initproc s)" "wait_inv ?q"
    using assms p by (auto simp: pinv_def intro!: fork_end_inv)
  moreover have "chan_inv ?q"
    by (rule chan_inv_mono[of "ptable s"]) (use assms in \<open>auto simp: pinv_def fork_end_def split: if_splits\<close>)
  ultimately show ?thesis by (simp add: pinv_def)
qed

lemma pinv_reap:
  assumes "pinv s" "c < length (cpus s)" "cpus s ! c = Some cur" "wait_scan cur (ptable s) = (h, Some i)"
  shows "pinv (s\<lparr>ptable := set_proc i reap (ptable s)\<rparr>)"
proof -
  let ?q = "set_proc i reap (ptable s)"
  note p = pinv_current[OF assms(1-3)]
  have i: "i < length (ptable s)" "p_parent (ptable s ! i) = Some cur" "p_state (ptable s ! i) = ZOMBIE"
    using assms(4) by (auto simp: wait_scan_def first_idx_Some)
  have r: "p_state (reap q) = UNUSED" for q by (simp add: reap_def)
  have "pid_inv ?q (nextpid s)"
    by (rule pid_inv_mono[of "ptable s" "nextpid s"]) (use assms i in \<open>auto simp: pinv_def r split: if_splits\<close>)
  moreover have "cpu_inv ?q (cpus s)"
    by (rule cpu_inv_mono[of "ptable s"]) (use assms i in \<open>auto simp: pinv_def r\<close>)
  moreover have "family_inv ?q (initproc s)" "wait_inv ?q"
    using assms(1) p i by (auto simp: pinv_def intro!: reap_inv)
  moreover have "chan_inv ?q"
    by (rule chan_inv_mono[of "ptable s"]) (use assms i in \<open>auto simp: pinv_def r split: if_splits\<close>)
  ultimately show ?thesis by (simp add: pinv_def)
qed

lemma pinv_view: "pinv s \<Longrightarrow> pinv (s\<lparr>held := h, curproc := c\<rparr>)"
  by (simp add: pinv_def)

lemma pstep_pinv:
  assumes "pstep s s'" "pinv s"
  shows "pinv s'"
  using assms
proof (cases rule: pstep.cases)
  case (alloc c r)
  from alloc_slot_Ok[OF alloc(2)] show ?thesis
    using pinv_alloc[of "as_cpu c {} s"] assms(2) by auto
next
  case (alloc_undo i)
  have "pinv (s\<lparr>held := held s, curproc := curproc s, ptable := set_proc i (\<lambda>p. p\<lparr>p_state := UNUSED\<rparr>) (ptable s)\<rparr>)"
    by (rule pinv_quiet) (use alloc_undo assms(2) in auto)
  then show ?thesis using alloc_undo by simp
next
  case (fork c cur i)
  then show ?thesis using assms(2) by (auto intro: pinv_fork)
next
  case (run c i j)
  then show ?thesis using assms(2) by (auto simp: scheduler_iter_def split: if_splits intro: pinv_run)
next
  case (yields c t)
  from yield_Swtch[OF yields(3)] obtain p where p: "cpus s ! c = Some p"
    "t = s\<lparr>held := {L_ptable}, curproc := Some p, ptable := set_proc p (\<lambda>q. q\<lparr>p_state := RUNNABLE\<rparr>) (ptable s)\<rparr>"
    by (auto simp: as_cpu_def)
  note c = pinv_current[OF assms(2) yields(2) p(1)]
  have "wait_inv (set_proc p (\<lambda>q. q\<lparr>p_state := RUNNABLE\<rparr>) (ptable s))"
    by (rule wait_inv_mono[of "ptable s"]) (use assms(2) c in \<open>auto simp: pinv_def\<close>)
  then show ?thesis unfolding yields(1) p(2)
    by (intro pinv_leave[OF assms(2) yields(2) p(1) refl]) auto
next
  case (sleeps c ch lk t)
  from sleep_Swtch[OF sleeps(3)] obtain p where p: "cpus s ! c = Some p"
    "t = s\<lparr>held := {L_ptable}, curproc := Some p, ptable := set_proc p (\<lambda>q. q\<lparr>p_chan := Some ch, p_state := SLEEPING\<rparr>) (ptable s)\<rparr>"
    by (auto simp: as_cpu_def)
  note c = pinv_current[OF assms(2) sleeps(2) p(1)]
  have "wait_inv (set_proc p (\<lambda>q. q\<lparr>p_chan := Some ch, p_state := SLEEPING\<rparr>) (ptable s))"
    by (rule wait_inv_mono[of "ptable s"]) (use assms(2) c sleeps(4) in \<open>auto simp: pinv_def\<close>)
  then show ?thesis unfolding sleeps(1) p(2)
    by (intro pinv_leave[OF assms(2) sleeps(2) p(1) refl]) (use sleeps(4) in auto)
next
  case (wakes c p lk r)
  note c = pinv_current[OF assms(2) wakes(1,2)]
  from sleep_wake_Ok[OF wakes(3)] obtain h where
    "s' = (as_cpu c {L_ptable} s)\<lparr>held := h, ptable := set_proc p (\<lambda>q. q\<lparr>p_chan := None\<rparr>) (ptable s)\<rparr>" by auto
  then have h: "s' = s\<lparr>held := h, curproc := cpus s ! c, ptable := set_proc p (\<lambda>q. q\<lparr>p_chan := None\<rparr>) (ptable s)\<rparr>"
    by (simp add: as_cpu_def)
  show ?thesis unfolding h by (rule pinv_quiet) (use assms(2) c in auto)
next
  case (wakeups c ch r)
  from wakeup_Ok[OF wakeups(2)] obtain h where
    "s' = (as_cpu c {} s)\<lparr>held := h, ptable := wakeup1 (Some ch) (ptable s)\<rparr>" by auto
  then have h: "s' = s\<lparr>held := h, curproc := cpus s ! c, ptable := wakeup1 (Some ch) (ptable s)\<rparr>" by (simp add: as_cpu_def)
  show ?thesis unfolding h by (rule pinv_quiet) (use assms(2) in auto)
next
  case (kills c pid r)
  from kill_Ok[OF kills(2)] obtain h where
    "s' = (as_cpu c {} s)\<lparr>held := h, ptable := (case kill_tab pid (ptable s) of Some pt \<Rightarrow> pt | None \<Rightarrow> ptable s)\<rparr>"
    unfolding as_cpu_sel by blast
  then have h: "s' = s\<lparr>held := h, curproc := cpus s ! c,
       ptable := (case kill_tab pid (ptable s) of Some pt \<Rightarrow> pt | None \<Rightarrow> ptable s)\<rparr>" by (simp add: as_cpu_def)
  show ?thesis unfolding h
    by (rule pinv_quiet) (use assms(2) in \<open>auto simp: kill_tab_def first_idx_Some split: option.splits\<close>)
next
  case (wait_sleep c cur t)
  note c = pinv_current[OF assms(2) wait_sleep(2,3)]
  have t: "t = s\<lparr>held := {L_ptable}, curproc := Some cur,
      ptable := set_proc cur (\<lambda>q. q\<lparr>p_chan := Some (ChProc cur), p_state := SLEEPING\<rparr>) (ptable s)\<rparr>"
    using sleep_Swtch[OF wait_sleep(5)] wait_sleep(3) by (auto simp: as_cpu_def)
  have "wait_inv (set_proc cur (\<lambda>q. q\<lparr>p_chan := Some (ChProc cur), p_state := SLEEPING\<rparr>) (ptable s))"
    by (rule wait_sleep_inv) (use assms(2) c wait_sleep(4) in \<open>auto simp: pinv_def\<close>)
  then show ?thesis unfolding wait_sleep(1) t
    by (intro pinv_leave[OF assms(2) wait_sleep(2,3) refl]) auto
next
  case (wait_reap c cur h i)
  then show ?thesis using assms(2) by (auto intro: pinv_reap)
next
  case (exits c cur t)
  have t: "t = s\<lparr>held := {L_ptable}, curproc := Some cur, ptable := exit_tab cur (initproc s) (ptable s)\<rparr>"
    using exit_end_Swtch[OF exits(5)] exits(3) by (auto simp: as_cpu_def)
  then show ?thesis unfolding exits(1) t using pinv_exit[OF assms(2) exits(2-4)] by simp
qed

lemma pstart_pinv: "pstart s \<Longrightarrow> pinv s"
proof -
  assume a: "pstart s"
  have z: "j = 0 \<or> p_state (ptable s ! j) = UNUSED \<and> p_parent (ptable s ! j) = None" if "j < length (ptable s)" for j
    using a that unfolding pstart_def by (cases "j = 0") auto
  have none: "c < length (cpus s) \<Longrightarrow> cpus s ! c = None" for c using a nth_mem[of c "cpus s"] unfolding pstart_def by blast
  have f: "p_state (ptable s ! 0) = RUNNABLE" "p_pid (ptable s ! 0) = 1" "p_parent (ptable s ! 0) = None" "nextpid s = 2"
    "initproc s = Some 0" "length (ptable s) = NPROC" using a unfolding pstart_def by auto
  have "cpu_inv (ptable s) (cpus s)" unfolding cpu_inv_def using none z f by fastforce
  moreover have "pid_inv (ptable s) (nextpid s)" unfolding pid_inv_def using z f by (metis less_numeral_extra(1) one_less_numeral_iff semiring_norm(76) zero_less_numeral)
  moreover have "family_inv (ptable s) (initproc s)" unfolding family_inv_def using z f by (fastforce simp: living_def)
  moreover have "wait_inv (ptable s)" "chan_inv (ptable s)" unfolding wait_inv_def chan_inv_def using z f by (metis procstate.distinct)+
  ultimately show ?thesis by (simp add: pinv_def)
qed

lemma preach_pinv: "preach s \<Longrightarrow> pinv s"
  by (induction rule: preach.induct) (auto intro: pstart_pinv pstep_pinv)

section \<open>The properties of the process table\<close>

text \<open>A run of two processors: \<open>init\<close> forks a child and waits for it while the child runs.\<close>

definition demo0 :: psys where
  "demo0 = \<lparr>held = {}, mem = (\<lambda>_. 0), freelist = 0, use_lock = True, kend = 0,
     ptable = zero_proc\<lparr>p_state := RUNNABLE, p_pid := 1\<rparr> # replicate 63 zero_proc,
     initproc = Some 0, nextpid = 2, curproc = None, cpus = [None, None]\<rparr>"

definition demo_tab :: "proc list" where
  "demo_tab = zero_proc\<lparr>p_state := SLEEPING, p_pid := 1, p_chan := Some (ChProc 0)\<rparr> #
     zero_proc\<lparr>p_state := RUNNING, p_pid := 2, p_parent := Some 0\<rparr> # replicate 62 zero_proc"

definition demo5 :: psys where
  "demo5 = demo0\<lparr>ptable := demo_tab, nextpid := 3, cpus := [None, Some 1]\<rparr>"

lemma demo0_start: "pstart demo0"
  by (auto simp: pstart_def demo0_def nth_Cons zero_proc_def split: nat.splits)

lemma demo5_reach: "preach demo5"
proof -
  let ?z = "replicate 62 zero_proc"
  let ?i = "\<lambda>st. zero_proc\<lparr>p_state := st, p_pid := 1\<rparr>"
  have r: "replicate 63 zero_proc = zero_proc # ?z" by (simp add: replicate_Suc[symmetric] del: replicate_Suc)
  define s1 where "s1 = demo0\<lparr>cpus := [Some 0, None], ptable := ?i RUNNING # replicate 63 zero_proc\<rparr>"
  have "pstep demo0 (dispatch 0 0 demo0)"
    by (rule pstep.run) (simp_all add: demo0_def scheduler_iter_def)
  moreover have "dispatch 0 0 demo0 = s1" by (simp add: dispatch_def s1_def demo0_def set_proc_def)
  ultimately have 1: "preach s1" using preach.move[OF preach.start[OF demo0_start]] by simp
  define s2 where "s2 = demo0\<lparr>cpus := [Some 0, None], curproc := Some 0, nextpid := 3,
    ptable := ?i RUNNING # zero_proc\<lparr>p_state := EMBRYO, p_pid := 2\<rparr> # ?z\<rparr>"
  have "alloc_slot (as_cpu 0 {} s1) = Ok (Some 1) s2"
    unfolding s1_def s2_def as_cpu_def demo0_def alloc_slot_def r
    by (simp add: run_simps krelease_def set_proc_def zero_proc_def)
  then have 2: "preach s2" by (intro preach.move[OF 1] pstep.alloc[of 0]) (simp_all add: s1_def)
  define s3 where "s3 = demo0\<lparr>cpus := [Some 0, None], curproc := Some 0, nextpid := 3,
    ptable := ?i RUNNING # zero_proc\<lparr>p_state := RUNNABLE, p_pid := 2, p_parent := Some 0\<rparr> # ?z\<rparr>"
  have "s3 = s2\<lparr>ptable := fork_end 0 1 (ptable s2)\<rparr>"
    by (simp add: s2_def s3_def fork_end_def set_proc_def)
  moreover have "pstep s2 (s2\<lparr>ptable := fork_end 0 1 (ptable s2)\<rparr>)"
    by (rule pstep.fork[of 0]) (simp_all add: s2_def)
  ultimately have 3: "preach s3" using preach.move[OF 2] by simp
  define s4 where "s4 = demo0\<lparr>cpus := [Some 0, Some 1], curproc := Some 0, nextpid := 3,
    ptable := ?i RUNNING # zero_proc\<lparr>p_state := RUNNING, p_pid := 2, p_parent := Some 0\<rparr> # ?z\<rparr>"
  have "pstep s3 (dispatch 1 1 s3)"
    by (rule pstep.run) (simp_all add: s3_def scheduler_iter_def)
  moreover have "dispatch 1 1 s3 = s4" by (simp add: dispatch_def s3_def s4_def set_proc_def)
  ultimately have 4: "preach s4" using preach.move[OF 3] by simp
  have w: "wait_scan 0 (ptable s4) = (True, None)"
    by (simp add: wait_scan_def s4_def first_idx_None zero_proc_def)
  define t where "t = s4\<lparr>held := {L_ptable}, ptable := demo_tab\<rparr>"
  have "sleep (ChProc 0) L_ptable (as_cpu 0 {L_ptable} s4) = Swtch t"
    unfolding t_def s4_def as_cpu_def demo0_def sleep_def
    by (simp add: run_simps sched_def set_proc_def demo_tab_def)
  then have "pstep s4 (back_in_scheduler 0 t)" by (intro pstep.wait_sleep[OF _ _ w]) (simp_all add: s4_def)
  moreover have "back_in_scheduler 0 t = demo5"
    by (simp add: back_in_scheduler_def t_def s4_def demo5_def demo0_def)
  ultimately show ?thesis using preach.move[OF 4] by simp
qed

text \<open>
  C4: In every reachable state of the process table a processor's current process is
  \<open>RUNNING\<close>, every \<open>RUNNING\<close> process is the current process of some processor, and no process
  is current on two processors: a process never runs on two kernel stacks at once.
\<close>
theorem running_exclusive:
  assumes "preach s"
  shows "(\<forall>c < length (cpus s). \<forall>p. cpus s ! c = Some p \<longrightarrow> p < length (ptable s) \<and> p_state (ptable s ! p) = RUNNING) \<and>
    (\<forall>p < length (ptable s). p_state (ptable s ! p) = RUNNING \<longrightarrow> (\<exists>!c. c < length (cpus s) \<and> cpus s ! c = Some p))"
proof -
  have i: "cpu_inv (ptable s) (cpus s)" using preach_pinv[OF assms] by (simp add: pinv_def)
  then show ?thesis using cpu_inv_inj[OF i] unfolding cpu_inv_def by blast
qed

theorem running_exclusive_witness:
  "cpus demo5 ! 1 = Some 1 \<and> p_state (ptable demo5 ! 1) = RUNNING"
  using running_exclusive[OF demo5_reach, THEN conjunct1, rule_format, of 1 1] by (simp add: demo5_def)

text \<open>
  C2: Exits are not lost. In every reachable state the parent of every zombie, and of every
  other process but \<open>init\<close>, is a process that is neither free nor a zombie, so it can still
  reap the child; and a process asleep in \<open>wait\<close> has a child and none of its children is a
  zombie, so no exit goes unnoticed while the parent sleeps.
\<close>
theorem exit_not_lost:
  assumes "preach s"
  shows "(\<forall>i < length (ptable s). p_state (ptable s ! i) \<notin> {UNUSED, EMBRYO} \<and> Some i \<noteq> initproc s \<longrightarrow>
      (\<exists>q < length (ptable s). p_parent (ptable s ! i) = Some q \<and> p_state (ptable s ! q) \<in> {SLEEPING, RUNNABLE, RUNNING})) \<and>
    (\<forall>p < length (ptable s). p_state (ptable s ! p) = SLEEPING \<and> p_chan (ptable s ! p) = Some (ChProc p) \<longrightarrow>
      (\<exists>i < length (ptable s). p_parent (ptable s ! i) = Some p) \<and>
      (\<forall>i < length (ptable s). p_parent (ptable s ! i) = Some p \<longrightarrow> p_state (ptable s ! i) \<noteq> ZOMBIE))"
proof -
  have i: "family_inv (ptable s) (initproc s)" "wait_inv (ptable s)" using preach_pinv[OF assms] by (simp_all add: pinv_def)
  show ?thesis
    using i unfolding family_inv_def living_def wait_inv_def by (intro conjI) (elim conjE, assumption)+
qed

theorem exit_not_lost_witness:
  "(\<exists>q < length (ptable demo5). p_parent (ptable demo5 ! 1) = Some q \<and> p_state (ptable demo5 ! q) \<in> {SLEEPING, RUNNABLE, RUNNING}) \<and>
    (\<exists>i < length (ptable demo5). p_parent (ptable demo5 ! i) = Some 0)"
  using exit_not_lost[OF demo5_reach, THEN conjunct1, rule_format, of 1]
    exit_not_lost[OF demo5_reach, THEN conjunct2, rule_format, of 0]
  by (simp add: demo5_def demo_tab_def demo0_def)



section \<open>A free slot can be killed\<close>

text \<open>
  C9: \<open>kill\<close> looks at process ids only and a free slot has id 0: \<^verbatim>\<open>kill(0)\<close> finds a free slot, marks
  it as killed and reports success. \<open>allocproc\<close> does not clear the mark, so when that slot
  is the next one to be allocated the new process is born killed.
\<close>

theorem kill_zero_marks_next_process:
  assumes "held s = {}" "first_idx (\<lambda>p. p_pid p = 0) (ptable s) = Some i"
    "first_idx (\<lambda>p. p_state p = UNUSED) (ptable s) = Some i"
  shows "\<exists>t u. kill 0 s = Ok 0 t \<and> alloc_slot t = Ok (Some i) u \<and>
    p_state (ptable u ! i) = EMBRYO \<and> p_killed (ptable u ! i)"
proof -
  have i: "i < length (ptable s)" "p_state (ptable s ! i) = UNUSED" "\<forall>j < i. p_state (ptable s ! j) \<noteq> UNUSED"
    using assms(3) by (auto simp: first_idx_Some)
  let ?pt = "set_proc i (\<lambda>p. p\<lparr>p_killed := True, p_state := (if p_state p = SLEEPING then RUNNABLE else p_state p)\<rparr>) (ptable s)"
  have k: "kill 0 s = Ok 0 (s\<lparr>ptable := ?pt\<rparr>)"
    using assms(1,2) by (simp add: kill_def run_simps kill_tab_def)
  have "first_idx (\<lambda>p. p_state p = UNUSED) ?pt = Some i"
    using i by (auto simp: first_idx_Some)
  then show ?thesis
    using k assms(1) i by (simp add: alloc_slot_def run_simps)
qed

theorem kill_zero_marks_next_process_witness:
  "\<exists>t u. kill 0 demo0 = Ok 0 t \<and> alloc_slot t = Ok (Some 1) u \<and>
    p_state (ptable u ! 1) = EMBRYO \<and> p_killed (ptable u ! 1)"
proof -
  have r: "replicate 63 zero_proc = zero_proc # replicate 62 zero_proc"
    by (simp add: replicate_Suc[symmetric] del: replicate_Suc)
  have z: "p_pid zero_proc = 0" "p_state zero_proc = UNUSED" by (simp_all add: zero_proc_def)
  show ?thesis
    by (rule kill_zero_marks_next_process) (simp_all add: demo0_def r z)
qed

end
