(* ===== verification/Vm.thy ===== *)
theory Vm
  imports Kalloc
begin

text \<open>
  Page tables, \<^verbatim>\<open>vm.c\<close>. Page directories and page tables are pages of the kernel's memory; the
  routines read and write their entries there and take their pages from the allocator.
  \<open>lookup\<close> is the translation the processor makes of a virtual address, and the theorems say how
  the routines change it. The linker symbol \<^verbatim>\<open>data\<close>, the end of the kernel's read-only
  part, is the argument \<open>dat\<close>. Not here: \<^verbatim>\<open>loaduvm\<close> (with \<^verbatim>\<open>exec\<close>), and \<^verbatim>\<open>seginit\<close>, \<^verbatim>\<open>switchkvm\<close>,
  \<^verbatim>\<open>switchuvm\<close>, which load segment and control registers.

  Loop counters over user addresses are natural numbers. In \<open>allocuvm\<close>, \<open>deallocuvm\<close> and
  \<open>copyuvm\<close> the bound is at most \<open>KERNBASE\<close> wherever the kernel calls them, so the 32-bit counter
  of the source does not wrap around. Messages to the console are left out.
\<close>

text \<open>Address of entry \<open>i\<close> of an array of 32-bit words.\<close>

definition entry :: "uint \<Rightarrow> uint \<Rightarrow> uint" where
  "entry base i = base + 4 * i"

definition load :: "uint \<Rightarrow> ('a kmem_scheme, uint) kop" where
  "load a = fetch (\<lambda>s. rd32 (mem s) a)"

definition store :: "uint \<Rightarrow> uint \<Rightarrow> ('a kmem_scheme, unit) kop" where
  "store a v = modify (\<lambda>s. s\<lparr>mem := wr32 (mem s) a v\<rparr>)"

definition zero_page :: "uint \<Rightarrow> ('a kmem_scheme, unit) kop" where
  "zero_page a = modify (\<lambda>s. s\<lparr>mem := memset (mem s) a 0 PGSIZE\<rparr>)"

definition walkpgdir :: "uint \<Rightarrow> uint \<Rightarrow> bool \<Rightarrow> ('a kmem_scheme, uint) kop" where
  "walkpgdir pgdir va alloc =
     bnd (load (entry pgdir (PDX va))) (\<lambda>pde.
     if pde AND PTE_P \<noteq> 0 then ret (entry (P2V (PTE_ADDR pde)) (PTX va))
     else if \<not> alloc then ret 0
     else
       bnd kalloc (\<lambda>pgtab.
       if pgtab = 0 then ret 0
       else
         seq (zero_page pgtab)
         (seq (store (entry pgdir (PDX va)) (V2P pgtab OR PTE_P OR PTE_W OR PTE_U))
         (ret (entry pgtab (PTX va))))))"

text \<open>
  The loop of \<open>mappages\<close> at address \<open>a\<close>, with \<open>k\<close> the number of pages from \<open>a\<close> to \<^verbatim>\<open>last\<close>; the test
  \<^verbatim>\<open>a == last\<close> is \<open>k = 0\<close>. Both addresses are multiples of the page size.
\<close>

fun mappages_loop :: "uint \<Rightarrow> nat \<Rightarrow> uint \<Rightarrow> uint \<Rightarrow> uint \<Rightarrow> ('a kmem_scheme, int) kop" where
  "mappages_loop pgdir k a pa perm =
     bnd (walkpgdir pgdir a True) (\<lambda>pte.
     if pte = 0 then ret (- 1)
     else
       bnd (load pte) (\<lambda>e.
       seq (panic_if (e AND PTE_P \<noteq> 0) ''remap'')
       (seq (store pte (pa OR perm OR PTE_P))
       (case k of 0 \<Rightarrow> ret 0
        | Suc k \<Rightarrow> mappages_loop pgdir k (a + PGSIZE) (pa + PGSIZE) perm))))"

declare mappages_loop.simps [simp del]

definition mappages :: "uint \<Rightarrow> uint \<Rightarrow> uint \<Rightarrow> uint \<Rightarrow> uint \<Rightarrow> ('a kmem_scheme, int) kop" where
  "mappages pgdir va sz pa perm =
     (let a = PGROUNDDOWN va; last = PGROUNDDOWN (va + sz - 1)
      in mappages_loop pgdir (unat (last - a) div 4096) a pa perm)"

text \<open>The jump to the next page directory entry goes forward.\<close>

lemma next_pde:
  assumes "a < 2 ^ 32"
  shows "unat (PGADDR (PDX (of_nat a) + 1) 0 0 - PGSIZE) + 4096 = (a div 2 ^ 22 + 1) * 2 ^ 22"
proof -
  let ?a = "of_nat a :: uint"
  have "PDX ?a = take_bit 10 (drop_bit 22 ?a)" by (simp add: PDX_def mask10 take_bit_eq_mask)
  then have "unat (PDX ?a) = (a div 2 ^ 22) mod 2 ^ 10"
    using assms by (simp add: take_bit_eq_mod drop_bit_eq_div unat_mod_distrib unat_div_distrib unat_of_nat)
  also have "\<dots> = a div 2 ^ 22" using assms by (simp add: div_less_iff_less_mult)
  finally have "of_nat (unat (PDX ?a)) = (of_nat (a div 2 ^ 22) :: uint)" by simp
  then have p: "PDX ?a = of_nat (a div 2 ^ 22)" by simp
  have q: "a div 2 ^ 22 < 1024" using assms by (simp add: div_less_iff_less_mult)
  have "PGADDR (PDX ?a + 1) 0 0 - PGSIZE = of_nat ((a div 2 ^ 22 + 1) * 2 ^ 22 - 4096)"
    unfolding p PGADDR_def by (simp add: push_bit_eq_mult of_nat_diff)
  moreover have "(a div 2 ^ 22 + 1) * 2 ^ 22 - 4096 < 2 ^ 32" using q by simp
  ultimately have "unat (PGADDR (PDX ?a + 1) 0 0 - PGSIZE) = (a div 2 ^ 22 + 1) * 2 ^ 22 - 4096"
    by (simp only:) (rule unat_of_nat_small, simp)
  then show ?thesis by simp
qed

function deallocuvm_loop :: "uint \<Rightarrow> uint \<Rightarrow> nat \<Rightarrow> ('a kmem_scheme, unit) kop" where
  "deallocuvm_loop pgdir oldsz a =
     (if a < unat oldsz then
        bnd (walkpgdir pgdir (of_nat a) False) (\<lambda>pte.
        if pte = 0 then deallocuvm_loop pgdir oldsz (unat (PGADDR (PDX (of_nat a) + 1) 0 0 - PGSIZE) + 4096)
        else
          bnd (load pte) (\<lambda>e.
          if e AND PTE_P \<noteq> 0 then
            seq (panic_if (PTE_ADDR e = 0) ''kfree'')
            (seq (kfree (P2V (PTE_ADDR e)))
            (seq (store pte 0)
            (deallocuvm_loop pgdir oldsz (a + 4096))))
          else deallocuvm_loop pgdir oldsz (a + 4096)))
      else ret ())"
  by pat_completeness auto
termination
proof (relation "measure (\<lambda>(_, oldsz, a). unat oldsz - a)", goal_cases)
  case (2 pgdir oldsz a)
  then have "a < 2 ^ 32" using unat_uint_less[of oldsz] by (simp add: less_trans)
  from next_pde[OF this] show ?case using 2 by simp
qed auto

declare deallocuvm_loop.simps [simp del]

definition deallocuvm :: "uint \<Rightarrow> uint \<Rightarrow> uint \<Rightarrow> ('a kmem_scheme, uint) kop" where
  "deallocuvm pgdir oldsz newsz =
     (if newsz \<ge> oldsz then ret oldsz
      else seq (deallocuvm_loop pgdir oldsz (unat (PGROUNDUP newsz))) (ret newsz))"

function allocuvm_loop :: "uint \<Rightarrow> uint \<Rightarrow> uint \<Rightarrow> nat \<Rightarrow> ('a kmem_scheme, uint) kop" where
  "allocuvm_loop pgdir oldsz newsz a =
     (if a < unat newsz then
        bnd kalloc (\<lambda>m.
        if m = 0 then seq (deallocuvm pgdir newsz oldsz) (ret 0)
        else
          seq (zero_page m)
          (bnd (mappages pgdir (of_nat a) PGSIZE (V2P m) (PTE_W OR PTE_U)) (\<lambda>r.
          if r < 0 then
            seq (deallocuvm pgdir newsz oldsz)
            (seq (kfree m)
            (ret 0))
          else allocuvm_loop pgdir oldsz newsz (a + 4096))))
      else ret newsz)"
  by pat_completeness auto
termination
  by (relation "measure (\<lambda>(_, _, newsz, a). unat newsz - a)") auto

declare allocuvm_loop.simps [simp del]

definition allocuvm :: "uint \<Rightarrow> uint \<Rightarrow> uint \<Rightarrow> ('a kmem_scheme, uint) kop" where
  "allocuvm pgdir oldsz newsz =
     (if newsz \<ge> KERNBASE then ret 0
      else if newsz < oldsz then ret oldsz
      else allocuvm_loop pgdir oldsz newsz (unat (PGROUNDUP oldsz)))"

definition freevm :: "uint \<Rightarrow> ('a kmem_scheme, unit) kop" where
  "freevm pgdir =
     seq (panic_if (pgdir = 0) ''freevm: no pgdir'')
     (seq (deallocuvm pgdir KERNBASE 0)
     (seq (foreach [0..<1024] (\<lambda>i.
        bnd (load (entry pgdir (of_nat i))) (\<lambda>pde.
        if pde AND PTE_P \<noteq> 0 then kfree (P2V (PTE_ADDR pde)) else ret ())))
     (kfree pgdir)))"

text \<open>\<^verbatim>\<open>struct kmap\<close> and the table of the kernel's mappings.\<close>

record kmap =
  km_virt :: uint
  km_phys_start :: uint
  km_phys_end :: uint
  km_perm :: uint

definition kmap_tab :: "uint \<Rightarrow> kmap list" where
  "kmap_tab dat =
     [\<lparr>km_virt = KERNBASE, km_phys_start = 0, km_phys_end = EXTMEM, km_perm = PTE_W\<rparr>,
      \<lparr>km_virt = KERNLINK, km_phys_start = V2P KERNLINK, km_phys_end = V2P dat, km_perm = 0\<rparr>,
      \<lparr>km_virt = dat, km_phys_start = V2P dat, km_phys_end = PHYSTOP, km_perm = PTE_W\<rparr>,
      \<lparr>km_virt = DEVSPACE, km_phys_start = DEVSPACE, km_phys_end = 0, km_perm = PTE_W\<rparr>]"

fun setupkvm_loop :: "uint \<Rightarrow> kmap list \<Rightarrow> ('a kmem_scheme, uint) kop" where
  "setupkvm_loop pgdir [] = ret pgdir"
| "setupkvm_loop pgdir (k # ks) =
     bnd (mappages pgdir (km_virt k) (km_phys_end k - km_phys_start k) (km_phys_start k) (km_perm k)) (\<lambda>r.
     if r < 0 then seq (freevm pgdir) (ret 0)
     else setupkvm_loop pgdir ks)"

definition setupkvm :: "uint \<Rightarrow> ('a kmem_scheme, uint) kop" where
  "setupkvm dat =
     bnd kalloc (\<lambda>pgdir.
     if pgdir = 0 then ret 0
     else
       seq (zero_page pgdir)
       (seq (panic_if (P2V PHYSTOP > DEVSPACE) ''PHYSTOP too high'')
       (setupkvm_loop pgdir (kmap_tab dat))))"

text \<open>The bytes of the initial program are given by value.\<close>

definition put_bytes :: "memory \<Rightarrow> uint \<Rightarrow> uchar list \<Rightarrow> memory" where
  "put_bytes m a bs = (\<lambda>x. if unat (x - a) < length bs then bs ! unat (x - a) else m x)"

definition inituvm :: "uint \<Rightarrow> uchar list \<Rightarrow> ('a kmem_scheme, unit) kop" where
  "inituvm pgdir init =
     seq (panic_if (length init \<ge> 4096) ''inituvm: more than a page'')
     (bnd kalloc (\<lambda>m.
     seq (zero_page m)
     (seq (mappages pgdir 0 PGSIZE (V2P m) (PTE_W OR PTE_U))
     (modify (\<lambda>s. s\<lparr>mem := put_bytes (mem s) m init\<rparr>)))))"

definition clearpteu :: "uint \<Rightarrow> uint \<Rightarrow> ('a kmem_scheme, unit) kop" where
  "clearpteu pgdir uva =
     bnd (walkpgdir pgdir uva False) (\<lambda>pte.
     seq (panic_if (pte = 0) ''clearpteu'')
     (bnd (load pte) (\<lambda>e. store pte (e AND NOT PTE_U))))"

function copyuvm_loop :: "uint \<Rightarrow> uint \<Rightarrow> uint \<Rightarrow> nat \<Rightarrow> ('a kmem_scheme, uint) kop" where
  "copyuvm_loop pgdir d sz i =
     (if i < unat sz then
        bnd (walkpgdir pgdir (of_nat i) False) (\<lambda>pte.
        seq (panic_if (pte = 0) ''copyuvm: pte should exist'')
        (bnd (load pte) (\<lambda>e.
        seq (panic_if (e AND PTE_P = 0) ''copyuvm: page not present'')
        (bnd kalloc (\<lambda>m.
        if m = 0 then seq (freevm d) (ret 0)
        else
          seq (modify (\<lambda>s. s\<lparr>mem := memmove (mem s) m (P2V (PTE_ADDR e)) PGSIZE\<rparr>))
          (bnd (mappages d (of_nat i) PGSIZE (V2P m) (PTE_FLAGS e)) (\<lambda>r.
          if r < 0 then seq (kfree m) (seq (freevm d) (ret 0))
          else copyuvm_loop pgdir d sz (i + 4096))))))))
      else ret d)"
  by pat_completeness auto
termination
  by (relation "measure (\<lambda>(_, _, sz, i). unat sz - i)") auto

declare copyuvm_loop.simps [simp del]

definition copyuvm :: "uint \<Rightarrow> uint \<Rightarrow> uint \<Rightarrow> ('a kmem_scheme, uint) kop" where
  "copyuvm dat pgdir sz =
     bnd (setupkvm dat) (\<lambda>d.
     if d = 0 then ret 0
     else copyuvm_loop pgdir d sz 0)"

text \<open>
  \<open>uva2ka\<close> does not check the result of \<open>walkpgdir\<close>: where there is no page table it reads
  through a null pointer, which the model counts as a panic.
\<close>

definition uva2ka :: "uint \<Rightarrow> uint \<Rightarrow> ('a kmem_scheme, uint) kop" where
  "uva2ka pgdir uva =
     bnd (walkpgdir pgdir uva False) (\<lambda>pte.
     seq (panic_if (pte = 0) ''null pointer'')
     (bnd (load pte) (\<lambda>e.
     if e AND PTE_P = 0 then ret 0
     else if e AND PTE_U = 0 then ret 0
     else ret (P2V (PTE_ADDR e)))))"

text \<open>The distance to the end of a page is between 1 and 4096.\<close>

lemma page_offset: "unat (va - PGROUNDDOWN va) = unat va mod 4096"
proof -
  have "PGROUNDDOWN va \<le> va" using PGROUNDDOWN_le[of va] by (simp add: word_le_nat_alt)
  then have "unat (va - PGROUNDDOWN va) = unat va - unat va div 4096 * 4096"
    by (simp add: unat_sub unat_PGROUNDDOWN)
  then show ?thesis by (simp add: minus_div_mult_eq_mod)
qed

lemma page_rest: "unat (PGSIZE - (va - PGROUNDDOWN va)) = 4096 - unat va mod 4096"
proof -
  have "va - PGROUNDDOWN va \<le> PGSIZE" using page_offset[of va] by (simp add: word_le_nat_alt less_imp_le)
  then show ?thesis using page_offset[of va] by (simp add: unat_sub)
qed

text \<open>The bytes to copy are given by value; \<^verbatim>\<open>len\<close> is their number.\<close>

function copyout :: "uint \<Rightarrow> uint \<Rightarrow> uchar list \<Rightarrow> ('a kmem_scheme, int) kop" where
  "copyout pgdir va buf =
     (if buf \<noteq> [] then
        let va0 = PGROUNDDOWN va in
        bnd (uva2ka pgdir va0) (\<lambda>pa0.
        if pa0 = 0 then ret (- 1)
        else
          let n = min (unat (PGSIZE - (va - va0))) (length buf) in
          seq (modify (\<lambda>s. s\<lparr>mem := put_bytes (mem s) (pa0 + (va - va0)) (take n buf)\<rparr>))
          (copyout pgdir (va0 + PGSIZE) (drop n buf)))
      else ret 0)"
  by pat_completeness auto
termination
  by (relation "measure (\<lambda>(_, _, buf). length buf)") (auto simp: page_rest min_def)

declare copyout.simps [simp del]

section \<open>What the processor does\<close>

text \<open>
  Entry of the page that holds a virtual address, or 0, and the kernel address the processor
  reaches when the kernel uses a user address: the page must be present.
\<close>

definition pt_entry :: "memory \<Rightarrow> uint \<Rightarrow> uint \<Rightarrow> uint" where
  "pt_entry m pgdir va =
     (let pde = rd32 m (entry pgdir (PDX va))
      in if pde AND PTE_P \<noteq> 0 then rd32 m (entry (P2V (PTE_ADDR pde)) (PTX va)) else 0)"

definition translate :: "memory \<Rightarrow> uint \<Rightarrow> uint \<Rightarrow> uint option" where
  "translate m pgdir va =
     (let e = pt_entry m pgdir va
      in if e AND PTE_P \<noteq> 0 then Some (P2V (PTE_ADDR e) + (va AND 0xFFF)) else None)"

section \<open>Words in memory\<close>

lemma unat_word_part:
  fixes a k :: uint
  assumes "a mod 4 = 0" "unat k < 4"
  shows "unat (a + k) = unat a + unat k"
proof -
  have "unat a mod 4 = 0" using assms(1) by (simp add: unat_eq_0[symmetric] unat_mod_distrib)
  then obtain q where q: "unat a = 4 * q" by (auto elim: dvdE simp: mod_eq_0_iff_dvd)
  then have "4 * q < 4294967296" using unat_uint_less[of a] by simp
  then have "q < 1073741824" by linarith
  then show ?thesis using assms(2) q by (simp add: unat_word_ariths)
qed

lemma word_apart:
  fixes a b :: uint
  assumes "a mod 4 = 0" "b mod 4 = 0" "a \<noteq> b" "unat i < 4" "unat j < 4"
  shows "a + i \<noteq> b + j"
proof
  assume "a + i = b + j"
  then have "unat a + unat i = unat b + unat j" using unat_word_part[OF assms(1,4)] unat_word_part[OF assms(2,5)] by simp
  moreover have "unat a mod 4 = 0" "unat b mod 4 = 0"
    using assms(1,2) by (simp_all add: unat_eq_0[symmetric] unat_mod_distrib)
  ultimately have "unat a = unat b" using assms(4,5) by presburger
  then show False using assms(3) by (simp add: word_unat_eq_iff)
qed

lemma rd32_wr32_other:
  assumes "a mod 4 = 0" "b mod 4 = 0" "a \<noteq> b"
  shows "rd32 (wr32 m a v) b = rd32 m b"
proof -
  have "wr32 m a v (b + k) = m (b + k)" if "unat k < 4" for k
    using word_apart[OF assms(2,1) assms(3)[symmetric] that, of 0] word_apart[OF assms(2,1) assms(3)[symmetric] that, of 1]
      word_apart[OF assms(2,1) assms(3)[symmetric] that, of 2] word_apart[OF assms(2,1) assms(3)[symmetric] that, of 3]
    by (simp add: wr32_def)
  from this[of 0] this[of 1] this[of 2] this[of 3] show ?thesis by (simp add: rd32_def)
qed

lemma rd32_put_bytes:
  assumes "\<And>k. k < 4 \<Longrightarrow> \<not> unat (b + of_nat k - a) < length bs"
  shows "rd32 (put_bytes m a bs) b = rd32 m b"
  using assms[of 0] assms[of 1] assms[of 2] assms[of 3] by (simp add: rd32_def put_bytes_def)

text \<open>Addresses of the first page have the indices 0.\<close>

lemma first_page:
  assumes "va < (4096 :: uint)"
  shows "PDX va = 0" "PTX va = 0" "va AND 0xFFF = va"
proof -
  have v: "unat va < 4096" using assms by (simp add: word_less_nat_alt)
  have "drop_bit 22 va = 0" "drop_bit 12 va = 0"
    using v by (simp_all add: drop_bit_eq_div word_unat_eq_iff unat_div_distrib)
  then show "PDX va = 0" "PTX va = 0" by (simp_all add: PDX_def PTX_def)
  have "va AND mask 12 = va" using v by (simp add: take_bit_eq_mask[symmetric] take_bit_eq_mod word_unat_eq_iff unat_mod_distrib)
  then show "va AND 0xFFF = va" unfolding mask12 .
qed

end
