(* ===== verification/Pagetab.thy ===== *)
theory Pagetab
  imports Vm
begin

text \<open>
  What the page table routines of \<open>Vm\<close> do. A page directory with its page tables is well-formed
  with respect to the free pages when all of them are distinct pages of the allocator and
  none is free; \<open>vm\<close> says so of a kernel state. The lemmas follow the routines: a step keeps the
  structure well-formed, changes memory only inside the directory, its tables and pages that
  were free, and changes the entry \<open>pt_entry\<close> of the addresses it is meant to.
\<close>

section \<open>Parts of an address and of an entry\<close>

text \<open>Two addresses on one page.\<close>

lemma same_page_iff: "PGROUNDDOWN va = PGROUNDDOWN vb \<longleftrightarrow> PDX va = PDX vb \<and> PTX va = PTX vb"
proof
  assume a: "PGROUNDDOWN va = PGROUNDDOWN vb"
  have b: "bit va n \<longleftrightarrow> bit vb n" if "12 \<le> n" for n
    using that bit_PGROUNDDOWN[of va n] bit_PGROUNDDOWN[of vb n] a by simp
  show "PDX va = PDX vb \<and> PTX va = PTX vb"
    by (intro conjI bit_word_eqI) (simp_all add: bit_PDX bit_PTX b)
next
  assume a: "PDX va = PDX vb \<and> PTX va = PTX vb"
  show "PGROUNDDOWN va = PGROUNDDOWN vb"
  proof (rule bit_word_eqI)
    fix n assume "n < LENGTH(32)"
    then have n: "n < 32" by simp
    consider "n < 12" | "12 \<le> n" "n < 22" | "22 \<le> n" by linarith
    then show "bit (PGROUNDDOWN va) n \<longleftrightarrow> bit (PGROUNDDOWN vb) n"
    proof cases
      case 2
      then have "bit va n = bit (PTX va) (n - 12)" "bit vb n = bit (PTX vb) (n - 12)" by (auto simp: bit_PTX)
      then show ?thesis using a 2 by (simp add: bit_PGROUNDDOWN)
    next
      case 3
      then have "bit va n = bit (PDX va) (n - 22)" "bit vb n = bit (PDX vb) (n - 22)" using n by (auto simp: bit_PDX)
      then show ?thesis using a 3 by (simp add: bit_PGROUNDDOWN)
    qed (simp add: bit_PGROUNDDOWN)
  qed
qed

lemma aligned_bits: "(a :: uint) mod PGSIZE = 0 \<Longrightarrow> n < 12 \<Longrightarrow> \<not> bit a n"
proof -
  assume a: "a mod PGSIZE = 0" and n: "n < 12"
  have "take_bit 12 a = 0" using a by (simp add: take_bit_eq_mod)
  then have "\<not> bit (take_bit 12 a) n" by simp
  then show ?thesis using n by (simp add: bit_take_bit_iff)
qed

lemma aligned_round: "(a :: uint) mod PGSIZE = 0 \<Longrightarrow> PGROUNDDOWN a = a"
  using aligned_plus[of a 0] by simp

lemma aligned_P2V: "P2V a mod PGSIZE = 0 \<longleftrightarrow> a mod PGSIZE = 0"
proof -
  have "unat (P2V a) mod 4096 = (unat a + 4096 * 524288) mod 4294967296 mod 4096"
    by (simp add: P2V_def unat_word_ariths)
  also have "\<dots> = (unat a + 4096 * 524288) mod 4096" by (rule mod_mod_cancel) simp
  also have "\<dots> = unat a mod 4096" by (rule mod_mult_self2)
  finally show ?thesis by (simp add: aligned_mod[symmetric])
qed

lemma aligned_V2P: "V2P a mod PGSIZE = 0 \<longleftrightarrow> a mod PGSIZE = 0"
  using aligned_P2V[of "V2P a"] by simp

text \<open>An entry made of a page address and flags.\<close>

lemma bit_small: "(f :: uint) AND 0xFFF = f \<Longrightarrow> 12 \<le> n \<Longrightarrow> \<not> bit f n"
proof -
  assume f: "f AND 0xFFF = f" and n: "12 \<le> n"
  have "\<not> bit (f AND mask 12) n" using n by (simp add: bit_and_iff bit_mask_iff)
  then show ?thesis using f by (simp add: mask12)
qed

lemma entry_parts:
  assumes "pa mod PGSIZE = 0" "f AND 0xFFF = f"
  shows "PTE_ADDR (pa OR f) = pa" "PTE_FLAGS (pa OR f) = f"
proof -
  have n: "\<not> bit pa n" if "n < 12" for n using aligned_bits[OF assms(1) that] .
  show "PTE_ADDR (pa OR f) = pa"
    by (rule bit_word_eqI) (use n bit_small[OF assms(2)] in \<open>auto simp: bit_PTE_ADDR bit_or_iff intro: ccontr\<close>)
  show "PTE_FLAGS (pa OR f) = f"
    by (rule bit_word_eqI) (use n bit_small[OF assms(2)] in \<open>auto simp: bit_PTE_FLAGS bit_or_iff intro: ccontr\<close>)
qed

lemma PTE_ADDR_aligned: "PTE_ADDR e mod PGSIZE = 0"
proof -
  have "PTE_ADDR e = PGROUNDDOWN e" by (rule bit_word_eqI) (simp add: bit_PTE_ADDR bit_PGROUNDDOWN)
  then have "unat (PTE_ADDR e) mod 4096 = 0" by (simp add: unat_PGROUNDDOWN)
  then show ?thesis by (simp add: aligned_mod)
qed

section \<open>Memory by pages\<close>

text \<open>Memories that differ only on the pages of \<open>P\<close>.\<close>

definition same_off :: "uint set \<Rightarrow> memory \<Rightarrow> memory \<Rightarrow> bool" where
  "same_off P m m' \<longleftrightarrow> (\<forall>x. PGROUNDDOWN x \<notin> P \<longrightarrow> m' x = m x)"

lemma same_off_refl [simp]: "same_off P m m"
  by (simp add: same_off_def)

lemma same_off_trans: "same_off P m m' \<Longrightarrow> same_off P m' m'' \<Longrightarrow> same_off P m m''"
  by (simp add: same_off_def)

lemma same_off_mono: "same_off P m m' \<Longrightarrow> P \<subseteq> Q \<Longrightarrow> same_off Q m m'"
  by (auto simp: same_off_def)

lemma entry_offset: "unat i < 1024 \<Longrightarrow> unat k < 4 \<Longrightarrow> unat (4 * i + k :: uint) < 4096"
  by (simp add: unat_word_ariths)

lemma entry_page:
  assumes "b mod PGSIZE = 0" "unat i < 1024" "unat k < 4"
  shows "PGROUNDDOWN (entry b i + k) = b"
  using aligned_plus[OF assms(1) entry_offset[OF assms(2,3)]] by (simp add: entry_def add.assoc)

lemma rd32_same_off:
  assumes "same_off P m m'" "b \<notin> P" "b mod PGSIZE = 0" "unat i < 1024"
  shows "rd32 m' (entry b i) = rd32 m (entry b i)"
proof -
  have "m' (entry b i + k) = m (entry b i + k)" if "unat k < 4" for k
    using assms(1,2) entry_page[OF assms(3,4) that] by (simp add: same_off_def)
  from this[of 0] this[of 1] this[of 2] this[of 3] show ?thesis by (simp add: rd32_def)
qed

lemma same_off_wr32:
  assumes "b mod PGSIZE = 0" "unat i < 1024"
  shows "same_off {b} m (wr32 m (entry b i) v)"
proof -
  have "entry b i + k \<noteq> x" if "PGROUNDDOWN x \<noteq> b" "unat k < 4" for x k
    using entry_page[OF assms that(2)] that(1) by auto
  from this[of _ 0] this[of _ 1] this[of _ 2] this[of _ 3] show ?thesis by (auto simp: same_off_def wr32_def)
qed

lemma page_addr_iff:
  assumes "b mod PGSIZE = 0"
  shows "unat (x - b) < 4096 \<longleftrightarrow> PGROUNDDOWN x = b"
proof
  assume "unat (x - b) < 4096"
  from aligned_plus[OF assms this] show "PGROUNDDOWN x = b" by simp
next
  assume "PGROUNDDOWN x = b"
  then show "unat (x - b) < 4096" using page_offset[of x] by simp
qed

lemma same_off_memset:
  assumes "b mod PGSIZE = 0"
  shows "same_off {b} m (memset m b c 4096)"
  using page_addr_iff[OF assms] by (simp add: same_off_def memset_eq)

lemma rd32_zeroed:
  assumes "b mod PGSIZE = 0" "unat i < 1024"
  shows "rd32 (memset m b 0 4096) (entry b i) = 0"
proof -
  have "memset m b 0 4096 (entry b i + k) = 0" if "unat k < 4" for k
    using entry_page[OF assms that] page_addr_iff[OF assms(1)] by (simp add: memset_eq)
  from this[of 0] this[of 1] this[of 2] this[of 3] show ?thesis by (simp add: rd32_def)
qed

lemma entry_inj:
  assumes "b mod PGSIZE = 0" "unat i < 1024" "unat j < 1024" "entry b i = entry b j"
  shows "i = j"
proof -
  have "4 * i = 4 * j" using assms(4) by (simp add: entry_def)
  then have "unat (4 * i) = unat (4 * j)" by simp
  then show ?thesis using assms(2,3) by (simp add: unat_word_ariths word_unat_eq_iff)
qed

lemma entry_mod4: "b mod PGSIZE = 0 \<Longrightarrow> unat i < 1024 \<Longrightarrow> entry b i mod 4 = 0"
proof -
  assume b: "b mod PGSIZE = 0" and i: "unat i < 1024"
  have "unat b mod 4096 = 0" using b by (simp add: aligned_mod)
  then obtain q where q: "unat b = 4096 * q" by (auto elim: dvdE simp: mod_eq_0_iff_dvd)
  then have "4096 * q < 4294967296" using unat_uint_less[of b] by simp
  then have "q \<le> 1048575" by linarith
  then have "unat (entry b i) = 4096 * q + 4 * unat i" using i q by (simp add: entry_def unat_word_ariths)
  then have "unat (entry b i) = 4 * (1024 * q + unat i)" by simp
  then have "unat (entry b i) mod 4 = 0" by (simp only: mod_mult_self1_is_0)
  then show ?thesis by (simp add: unat_eq_0[symmetric] unat_mod_distrib)
qed

lemma rd32_wr32_entry:
  assumes "b mod PGSIZE = 0" "unat i < 1024" "unat j < 1024"
  shows "rd32 (wr32 m (entry b i) v) (entry b j) = (if i = j then v else rd32 m (entry b j))"
  using rd32_wr32_other[OF entry_mod4[OF assms(1,2)] entry_mod4[OF assms(1,3)]] entry_inj[OF assms] by auto

section \<open>Well-formed page tables\<close>

definition has_tab :: "memory \<Rightarrow> uint \<Rightarrow> uint \<Rightarrow> bool" where
  "has_tab m d va \<longleftrightarrow> rd32 m (entry d (PDX va)) AND PTE_P \<noteq> 0"

definition tab :: "memory \<Rightarrow> uint \<Rightarrow> uint \<Rightarrow> uint" where
  "tab m d va = P2V (PTE_ADDR (rd32 m (entry d (PDX va))))"

definition tabs :: "memory \<Rightarrow> uint \<Rightarrow> uint set" where
  "tabs m d = {tab m d va | va. has_tab m d va}"

text \<open>
  The directory \<open>d\<close> and its tables are different pages of the allocator, \<open>e\<close> being the end of the
  kernel, and none of them is in the set \<open>F\<close> of free pages.
\<close>

definition pt_ok :: "uint \<Rightarrow> memory \<Rightarrow> uint \<Rightarrow> uint set \<Rightarrow> bool" where
  "pt_ok e m d F \<longleftrightarrow> page_ok e d \<and> d \<notin> F \<and>
     (\<forall>va. has_tab m d va \<longrightarrow> page_ok e (tab m d va) \<and> tab m d va \<notin> F \<and> tab m d va \<noteq> d) \<and>
     (\<forall>va vb. has_tab m d va \<and> has_tab m d vb \<and> tab m d va = tab m d vb \<longrightarrow> PDX va = PDX vb)"

lemma pt_entry_tab: "pt_entry m d va = (if has_tab m d va then rd32 m (entry (tab m d va) (PTX va)) else 0)"
  by (simp add: pt_entry_def has_tab_def tab_def Let_def)

lemma pt_okD:
  assumes "pt_ok e m d F"
  shows "d mod PGSIZE = 0" "d \<notin> F" "page_ok e d"
    "has_tab m d va \<Longrightarrow> tab m d va mod PGSIZE = 0" "has_tab m d va \<Longrightarrow> tab m d va \<notin> F"
    "has_tab m d va \<Longrightarrow> tab m d va \<noteq> d" "has_tab m d va \<Longrightarrow> page_ok e (tab m d va)"
    "has_tab m d va \<Longrightarrow> has_tab m d vb \<Longrightarrow> tab m d va = tab m d vb \<Longrightarrow> PDX va = PDX vb"
proof -
  have p: "page_ok e d" "d \<notin> F" and q: "\<And>va. has_tab m d va \<Longrightarrow> page_ok e (tab m d va) \<and> tab m d va \<notin> F \<and> tab m d va \<noteq> d"
    and r: "\<And>va vb. has_tab m d va \<Longrightarrow> has_tab m d vb \<Longrightarrow> tab m d va = tab m d vb \<Longrightarrow> PDX va = PDX vb"
    using assms unfolding pt_ok_def by blast+
  show "d mod PGSIZE = 0" "d \<notin> F" "page_ok e d" using p by (simp_all add: page_ok_def)
  show "has_tab m d va \<Longrightarrow> tab m d va mod PGSIZE = 0" using q by (simp add: page_ok_def)
qed (use assms in \<open>unfold pt_ok_def, blast+\<close>)

text \<open>Changing other pages changes nothing.\<close>

lemma pt_same_dir:
  assumes "d mod PGSIZE = 0" "same_off P m m'" "d \<notin> P"
  shows "has_tab m' d va = has_tab m d va" "tab m' d va = tab m d va" "tabs m' d = tabs m d"
proof -
  have r: "rd32 m' (entry d (PDX va)) = rd32 m (entry d (PDX va))" for va
    by (rule rd32_same_off[OF assms(2,3,1) PDX_less])
  then show "has_tab m' d va = has_tab m d va" "tab m' d va = tab m d va" "tabs m' d = tabs m d"
    by (simp_all add: has_tab_def tab_def tabs_def)
qed

lemma pt_same:
  assumes "pt_ok e m d F" "same_off P m m'" "P \<inter> insert d (tabs m d) = {}"
  shows "pt_ok e m' d F" "pt_entry m' d va = pt_entry m d va"
proof -
  note [simp] = pt_same_dir[OF pt_okD(1)[OF assms(1)] assms(2)]
  have d: "d \<notin> P" using assms(3) by auto
  then show "pt_ok e m' d F" using assms(1) unfolding pt_ok_def by simp
  have "rd32 m' (entry (tab m d va) (PTX va)) = rd32 m (entry (tab m d va) (PTX va))" if "has_tab m d va"
    using rd32_same_off[OF assms(2) _ pt_okD(4)[OF assms(1) that] PTX_less] assms(3) that by (auto simp: tabs_def)
  then show "pt_entry m' d va = pt_entry m d va" using d by (simp add: pt_entry_tab)
qed

text \<open>Storing an entry of a page table.\<close>

lemma pt_store:
  assumes ok: "pt_ok e m d F" and h: "has_tab m d va"
    and m'_def: "m' = wr32 m (entry (tab m d va) (PTX va)) v"
  shows "pt_ok e m' d F" "has_tab m' d vb = has_tab m d vb" "tab m' d vb = tab m d vb" "tabs m' d = tabs m d"
    "pt_entry m' d vb = (if PGROUNDDOWN vb = PGROUNDDOWN va then v else pt_entry m d vb)"
    "same_off {tab m d va} m m'"
proof -
  note a = pt_okD[OF ok]
  show so: "same_off {tab m d va} m m'" unfolding m'_def by (rule same_off_wr32[OF a(4)[OF h] PTX_less])
  have "d \<notin> {tab m d va}" using a(6)[OF h] by simp
  note [simp] = pt_same_dir[OF a(1) so this]
  show "pt_ok e m' d F" using ok unfolding pt_ok_def by simp
  show "has_tab m' d vb = has_tab m d vb" "tab m' d vb = tab m d vb" "tabs m' d = tabs m d" by simp_all
  show "pt_entry m' d vb = (if PGROUNDDOWN vb = PGROUNDDOWN va then v else pt_entry m d vb)"
  proof (cases "has_tab m d vb \<and> PDX vb = PDX va")
    case True
    then have t: "tab m d vb = tab m d va" by (simp add: tab_def)
    show ?thesis using True rd32_wr32_entry[OF a(4)[OF h] PTX_less PTX_less, of m va v vb]
      by (simp add: pt_entry_tab t m'_def[symmetric] same_page_iff)
  next
    case False
    have n: "PGROUNDDOWN vb \<noteq> PGROUNDDOWN va" using False h by (auto simp: same_page_iff has_tab_def)
    have "rd32 m' (entry (tab m d vb) (PTX vb)) = rd32 m (entry (tab m d vb) (PTX vb))" if hb: "has_tab m d vb"
      using rd32_same_off[OF so _ a(4)[OF hb] PTX_less] a(8)[OF hb h] False hb by auto
    then show ?thesis using n by (simp add: pt_entry_tab)
  qed
qed

text \<open>Adding a table on a page \<open>x\<close> that was free.\<close>

lemma pt_new:
  assumes ok: "pt_ok e m d F" and h: "\<not> has_tab m d va" and x: "x \<in> F" "page_ok e x"
    and m'_def: "m' = wr32 (memset m x 0 PGSIZE) (entry d (PDX va)) (V2P x OR PTE_P OR PTE_W OR PTE_U)"
  shows "pt_ok e m' d (F - {x})" "has_tab m' d va" "tab m' d va = x" "tabs m' d = insert x (tabs m d)"
    "pt_entry m' d vb = pt_entry m d vb" "same_off {d, x} m m'" "has_tab m' d vb \<longleftrightarrow> has_tab m d vb \<or> PDX vb = PDX va"
proof -
  note a = pt_okD[OF ok]
  let ?m = "memset m x 0 PGSIZE" and ?v = "V2P x OR PTE_P OR PTE_W OR PTE_U"
  have xa: "x mod PGSIZE = 0" using x(2) by (simp add: page_ok_def)
  have xd: "d \<noteq> x" using a(2) x(1) by auto
  have s1: "same_off {x} m ?m" by (rule same_off_memset[OF xa])
  have s2: "same_off {d} ?m m'" unfolding m'_def by (rule same_off_wr32[OF a(1) PDX_less])
  show "same_off {d, x} m m'" by (rule same_off_trans[OF same_off_mono[OF s1] same_off_mono[OF s2]]) auto
  have v: "PTE_ADDR ?v = V2P x" "?v AND PTE_P \<noteq> 0"
  proof -
    have "PTE_ADDR (V2P x OR 7) = V2P x" "PTE_FLAGS (V2P x OR 7) = 7"
      using entry_parts[of "V2P x" 7] xa by (simp_all add: aligned_V2P)
    moreover have "?v = V2P x OR 7" by (simp add: or.assoc)
    ultimately show "PTE_ADDR ?v = V2P x" by simp
    have "bit ?v 0" by (simp add: bit_or_iff)
    then have "bit (?v AND PTE_P) 0" by (simp add: bit_and_iff)
    then show "?v AND PTE_P \<noteq> 0" by (metis bit_0_eq bot_apply bot_bool_def)
  qed
  have dir: "rd32 m' (entry d (PDX vb)) = (if PDX vb = PDX va then ?v else rd32 m (entry d (PDX vb)))" for vb
    using rd32_wr32_entry[OF a(1) PDX_less PDX_less, of ?m va ?v vb] rd32_same_off[OF s1 _ a(1) PDX_less] xd
    by (simp add: m'_def)
  show ht: "has_tab m' d vb \<longleftrightarrow> has_tab m d vb \<or> PDX vb = PDX va" for vb using v(2) dir by (simp add: has_tab_def)
  have tb: "tab m' d vb = (if PDX vb = PDX va then x else tab m d vb)" for vb using v(1) dir by (simp add: tab_def)
  have no: "\<not> has_tab m d vb" if "PDX vb = PDX va" for vb using that h by (simp add: has_tab_def)
  show "has_tab m' d va" "tab m' d va = x" by (simp_all add: ht tb)
  show "tabs m' d = insert x (tabs m d)" unfolding tabs_def ht tb using no by (auto intro: exI[of _ va])
  have nx: "tab m d vb \<noteq> x" if "has_tab m d vb" for vb using a(5)[OF that] x(1) by auto
  show "pt_ok e m' d (F - {x})"
    unfolding pt_ok_def
  proof (intro conjI allI impI)
    fix vb assume "has_tab m' d vb"
    then have "PDX vb = PDX va \<or> (PDX vb \<noteq> PDX va \<and> has_tab m d vb)" by (auto simp: ht)
    then show "page_ok e (tab m' d vb)" "tab m' d vb \<notin> F - {x}" "tab m' d vb \<noteq> d"
      using x(2) xd a(5,6,7)[of vb] by (auto simp: tb)
  next
    fix vb vc assume "has_tab m' d vb \<and> has_tab m' d vc \<and> tab m' d vb = tab m' d vc"
    then show "PDX vb = PDX vc" using a(8)[of vb vc] nx[of vb] nx[of vc] by (auto simp: ht tb split: if_splits)
  qed (use a(2,3) in auto)
  show "pt_entry m' d vb = pt_entry m d vb"
  proof (cases "has_tab m d vb")
    case True
    then have "PDX vb \<noteq> PDX va" using no by auto
    moreover have "rd32 m' (entry (tab m d vb) (PTX vb)) = rd32 m (entry (tab m d vb) (PTX vb))"
      using rd32_same_off[OF s2 _ a(4)[OF True] PTX_less] rd32_same_off[OF s1 _ a(4)[OF True] PTX_less]
        a(6)[OF True] nx[OF True] by simp
    ultimately show ?thesis using True by (simp add: pt_entry_tab ht tb)
  next
    case False
    have "rd32 m' (entry x (PTX vb)) = 0"
      using rd32_same_off[OF s2 _ xa PTX_less] rd32_zeroed[OF xa PTX_less] xd by simp
    then show ?thesis using False by (simp add: pt_entry_tab ht tb)
  qed
qed

section \<open>Kernel states with a page table\<close>

text \<open>Only memory and the head of the free list may change.\<close>

definition kept :: "'a kmem_scheme \<Rightarrow> 'a kmem_scheme \<Rightarrow> bool" where
  "kept s t \<longleftrightarrow> t = s\<lparr>mem := mem t, freelist := freelist t\<rparr>"

lemma kept_refl [simp]: "kept s s"
  by (simp add: kept_def)

lemma kept_trans: "kept s t \<Longrightarrow> kept t u \<Longrightarrow> kept s u"
  by (cases s, cases t, cases u) (simp add: kept_def)

lemma keptI [simp]: "kept s (s\<lparr>mem := m\<rparr>)" "kept s (s\<lparr>freelist := f\<rparr>)" "kept s (s\<lparr>mem := m, freelist := f\<rparr>)"
  by (simp_all add: kept_def)

lemma kept_sel: "kept s t \<Longrightarrow> kend t = kend s" "kept s t \<Longrightarrow> held t = held s"
  "kept s t \<Longrightarrow> use_lock t = use_lock s" "kept s t \<Longrightarrow> kmem.more t = kmem.more s"
  by (cases s, cases t, simp add: kept_def)+

lemma chain_same_off:
  "chain m p xs \<Longrightarrow> same_off P m m' \<Longrightarrow> P \<inter> set xs = {} \<Longrightarrow> \<forall>x \<in> set xs. x mod PGSIZE = 0 \<Longrightarrow> chain m' p xs"
proof (induction xs arbitrary: p)
  case (Cons x xs)
  have "rd32 m' (entry x 0) = rd32 m (entry x 0)" using Cons.prems by (intro rd32_same_off[of P]) auto
  then have "rd32 m' x = rd32 m x" by (simp add: entry_def)
  then show ?case using Cons by auto
qed simp

lemma free_list_same:
  assumes "free_list s fl" "kept s t" "freelist t = freelist s" "same_off P (mem s) (mem t)" "P \<inter> set fl = {}"
  shows "free_list t fl"
proof -
  have "chain (mem t) (freelist s) fl"
    by (rule chain_same_off[of "mem s" _ _ P]) (use assms in \<open>auto simp: free_list_def page_ok_def\<close>)
  then show ?thesis using assms(1,3) kept_sel[OF assms(2)] by (simp add: free_list_def)
qed

definition vm :: "'a kmem_scheme \<Rightarrow> uint \<Rightarrow> uint list \<Rightarrow> bool" where
  "vm s d fl \<longleftrightarrow> free_list s fl \<and> pt_ok (kend s) (mem s) d (set fl)"

text \<open>The pages of a page table and the free ones.\<close>

definition troom :: "'a kmem_scheme \<Rightarrow> uint \<Rightarrow> uint list \<Rightarrow> uint set" where
  "troom s d fl = insert d (tabs (mem s) d \<union> set fl)"

text \<open>A step that only turns free pages into tables and changes entries.\<close>

definition vext :: "uint \<Rightarrow> 'a kmem_scheme \<Rightarrow> uint list \<Rightarrow> 'a kmem_scheme \<Rightarrow> uint list \<Rightarrow> bool" where
  "vext d s fl t fl' \<longleftrightarrow> kept s t \<and> vm t d fl' \<and> troom t d fl' = troom s d fl \<and>
     same_off (troom s d fl) (mem s) (mem t) \<and> set fl' \<subseteq> set fl \<and> tabs (mem s) d \<subseteq> tabs (mem t) d"

lemma vext_refl: "vm s d fl \<Longrightarrow> vext d s fl s fl"
  by (simp add: vext_def)

lemma vext_trans: "vext d s fl t fl' \<Longrightarrow> vext d t fl' u fl'' \<Longrightarrow> vext d s fl u fl''"
  unfolding vext_def by (elim conjE, intro conjI) (auto intro: kept_trans same_off_trans)

lemma zero_page_run: "bnd (zero_page x) k s = k () (s\<lparr>mem := memset (mem s) x 0 PGSIZE\<rparr>)"
  by (simp add: zero_page_def run_simps)

lemma store_run: "bnd (store a v) k s = k () (s\<lparr>mem := wr32 (mem s) a v\<rparr>)"
  by (simp add: store_def run_simps)

lemma load_run: "bnd (load a) k s = k (rd32 (mem s) a) s"
  by (simp add: load_def run_simps)

lemmas mem_runs = zero_page_run store_run load_run

lemma walk_noalloc:
  "walkpgdir d va False s = Ok (if has_tab (mem s) d va then entry (tab (mem s) d va) (PTX va) else 0) s"
  by (simp add: walkpgdir_def load_run has_tab_def tab_def ret_def)

lemma entry_nonzero:
  assumes "page_ok e b" "unat i < 1024"
  shows "entry b i \<noteq> 0"
proof
  assume "entry b i = 0"
  have "b mod PGSIZE = 0" using assms(1) by (simp add: page_ok_def)
  from entry_page[OF this assms(2), of 0] \<open>entry b i = 0\<close> have "b = 0" by (simp add: PGROUNDDOWN_def)
  then show False using page_ok_nonzero[OF assms(1)] by simp
qed

text \<open>Walking with allocation: no translation changes, and the entry's place is found unless memory is full.\<close>

lemma walk_alloc:
  assumes "vm s d fl"
  shows "\<exists>pte t fl'. walkpgdir d va True s = Ok pte t \<and> vext d s fl t fl' \<and>
    (\<forall>vb. pt_entry (mem t) d vb = pt_entry (mem s) d vb) \<and>
    (if pte = 0 then fl = [] else has_tab (mem t) d va \<and> pte = entry (tab (mem t) d va) (PTX va)) \<and>
    length fl \<le> length fl' + 1 \<and> (\<forall>vb. has_tab (mem t) d vb \<longrightarrow> has_tab (mem s) d vb \<or> PDX vb = PDX va)"
proof (cases "has_tab (mem s) d va")
  case True
  have ok: "pt_ok (kend s) (mem s) d (set fl)" using assms by (simp add: vm_def)
  have "walkpgdir d va True s = Ok (entry (tab (mem s) d va) (PTX va)) s"
    using True by (simp add: walkpgdir_def load_run has_tab_def tab_def ret_def)
  moreover have "entry (tab (mem s) d va) (PTX va) \<noteq> 0" using entry_nonzero[OF pt_okD(7)[OF ok True] PTX_less] .
  ultimately show ?thesis using True vext_refl[OF assms] by (intro exI conjI) auto
next
  case False
  have ok: "pt_ok (kend s) (mem s) d (set fl)" and fl: "free_list s fl" using assms by (simp_all add: vm_def)
  have w: "walkpgdir d va True s = bnd kalloc (\<lambda>x. if x = 0 then ret 0 else
      seq (zero_page x) (seq (store (entry d (PDX va)) (V2P x OR PTE_P OR PTE_W OR PTE_U)) (ret (entry x (PTX va))))) s"
    using False by (simp add: walkpgdir_def load_run has_tab_def)
  show ?thesis
  proof (cases fl)
    case Nil
    then have "walkpgdir d va True s = Ok 0 s"
      using fl by (simp add: w bnd_step[where m = kalloc] kalloc_Nil ret_def)
    then show ?thesis using Nil vext_refl[OF assms] by (intro exI conjI) auto
  next
    case (Cons x xs)
    let ?m = "wr32 (memset (mem s) x 0 PGSIZE) (entry d (PDX va)) (V2P x OR PTE_P OR PTE_W OR PTE_U)"
    let ?t = "s\<lparr>freelist := rd32 (mem s) x, mem := ?m\<rparr>"
    have x: "page_ok (kend s) x" "x \<in> set fl" "x \<notin> set xs" using fl Cons by (auto simp: free_list_def)
    note k = kalloc_Cons[of s x xs] and n = pt_new[OF ok False x(2,1) refl]
    have d: "d \<notin> set fl" using pt_okD(2)[OF ok] .
    have "walkpgdir d va True s = Ok (entry x (PTX va)) ?t"
      using k(1) fl Cons page_ok_nonzero[OF x(1)] by (simp add: w bnd_step[where m = kalloc] mem_runs ret_def)
    moreover have "free_list ?t xs"
      by (rule free_list_same[of "s\<lparr>freelist := rd32 (mem s) x\<rparr>" _ _ "{d, x}"])
        (use k(2) fl Cons n(6) d x in \<open>auto simp: kept_def\<close>)
    moreover have "set fl - {x} = set xs" using Cons x(3) by auto
    moreover have "troom ?t d xs = troom s d fl" using n(4) Cons by (auto simp: troom_def)
    moreover have "same_off (troom s d fl) (mem s) ?m" by (rule same_off_mono[OF n(6)]) (use x in \<open>auto simp: troom_def\<close>)
    ultimately have "vext d s fl ?t xs" "walkpgdir d va True s = Ok (entry x (PTX va)) ?t"
      using n(1,4) Cons by (auto simp: vext_def vm_def kept_def)
    moreover have "entry x (PTX va) \<noteq> 0" using entry_nonzero[OF x(1) PTX_less] .
    ultimately show ?thesis using n(2,3,5,7) Cons by (intro exI conjI) auto
  qed
qed

section \<open>Mapping a range\<close>

text \<open>The number of pages from \<open>a\<close>, a page address, to the page of \<open>vb\<close>.\<close>

definition pgidx :: "uint \<Rightarrow> uint \<Rightarrow> nat" where
  "pgidx a vb = unat (PGROUNDDOWN vb - a) div 4096"

lemma pgidx_mult:
  assumes "a mod PGSIZE = 0"
  shows "unat (PGROUNDDOWN vb - a) = 4096 * pgidx a vb" "pgidx a vb < 1048576"
proof -
  have al: "unat (x - y) mod 4096 = 0" if xy: "x mod PGSIZE = 0" "y mod PGSIZE = 0" for x y :: uint
  proof -
    have "x = 4096 * (x div 4096)" "y = 4096 * (y div 4096)"
      using xy div_mult_mod_eq[of x 4096] div_mult_mod_eq[of y 4096] by (simp_all add: mult.commute)
    then have "x - y = push_bit 12 (x div 4096 - y div 4096)" by (simp add: push_bit_eq_mult algebra_simps)
    then have "take_bit 12 (x - y) = 0" by (simp add: take_bit_push_bit)
    then show ?thesis by (simp add: aligned_mod take_bit_eq_mod)
  qed
  have "PGROUNDDOWN vb mod PGSIZE = 0"
    using unat_PGROUNDDOWN[of vb] by (simp add: aligned_mod[symmetric])
  from al[OF this assms] show e: "unat (PGROUNDDOWN vb - a) = 4096 * pgidx a vb" by (auto simp: pgidx_def)
  have "4096 * pgidx a vb < 4294967296" unfolding e[symmetric] by simp
  then show "pgidx a vb < 1048576" by linarith
qed

lemma pgidx_0: "a mod PGSIZE = 0 \<Longrightarrow> pgidx a vb = 0 \<longleftrightarrow> PGROUNDDOWN vb = a"
  using pgidx_mult(1)[of a vb] by (auto simp: pgidx_def unat_eq_0)

lemma pgidx_Suc:
  assumes "a mod PGSIZE = 0"
  shows "pgidx (a + PGSIZE) vb = (if pgidx a vb = 0 then 1048575 else pgidx a vb - 1)"
proof -
  have e: "PGROUNDDOWN vb - (a + PGSIZE) = PGROUNDDOWN vb - a - 4096" by simp
  show ?thesis
  proof (cases "pgidx a vb = 0")
    case True
    then show ?thesis using pgidx_0[OF assms] by (simp add: pgidx_def)
  next
    case False
    have "4096 \<le> PGROUNDDOWN vb - a" using pgidx_mult(1)[OF assms, of vb] False by (simp add: word_le_nat_alt)
    then have "unat (PGROUNDDOWN vb - a - 4096) = 4096 * pgidx a vb - 4096"
      using pgidx_mult(1)[OF assms, of vb] by (simp add: unat_sub)
    then show ?thesis using False unfolding pgidx_def[of "a + PGSIZE"] e by simp
  qed
qed

lemma aligned_next: "a mod PGSIZE = 0 \<Longrightarrow> (a + PGSIZE) mod PGSIZE = (0 :: uint)"
proof -
  assume "a mod PGSIZE = 0"
  then have "unat a mod 4096 = 0" by (simp add: aligned_mod)
  then have "(unat a + 4096) mod 4294967296 mod 4096 = 0" by (simp add: mod_mod_cancel)
  then show ?thesis by (simp add: aligned_mod[symmetric] unat_word_ariths)
qed

text \<open>Entries after the first \<open>j\<close> pages from \<open>a\<close> on were mapped to the frames from \<open>pa\<close> on.\<close>

definition map_range :: "uint \<Rightarrow> uint \<Rightarrow> uint \<Rightarrow> nat \<Rightarrow> (uint \<Rightarrow> uint) \<Rightarrow> uint \<Rightarrow> uint" where
  "map_range a pa perm j f vb =
     (if pgidx a vb < j then (pa + of_nat (pgidx a vb) * PGSIZE) OR perm OR PTE_P else f vb)"

lemma map_range_Suc:
  assumes "a mod PGSIZE = 0" "j < 1048576"
  shows "map_range (a + PGSIZE) (pa + PGSIZE) perm j
      (\<lambda>vb. if PGROUNDDOWN vb = a then pa OR perm OR PTE_P else f vb) vb = map_range a pa perm (Suc j) f vb"
proof (cases "pgidx a vb = 0")
  case True
  then have p: "PGROUNDDOWN vb = a" using pgidx_0[OF assms(1)] by simp
  show ?thesis using assms by (simp add: map_range_def pgidx_Suc True p)
next
  case False
  then obtain i where i: "pgidx a vb = Suc i" by (cases "pgidx a vb") auto
  then show ?thesis using False assms pgidx_0[OF assms(1), of vb]
    by (simp add: map_range_def pgidx_Suc algebra_simps)
qed

text \<open>One round of the loop.\<close>

lemma vext_store:
  assumes "vm s d fl" "has_tab (mem s) d va"
    and t_def: "t = s\<lparr>mem := wr32 (mem s) (entry (tab (mem s) d va) (PTX va)) v\<rparr>"
  shows "vext d s fl t fl" "\<And>vb. pt_entry (mem t) d vb = (if PGROUNDDOWN vb = PGROUNDDOWN va then v else pt_entry (mem s) d vb)"
    "\<And>vb. has_tab (mem t) d vb = has_tab (mem s) d vb"
proof -
  have ok: "pt_ok (kend s) (mem s) d (set fl)" and fl: "free_list s fl" using assms(1) by (simp_all add: vm_def)
  note p = pt_store[OF ok assms(2) refl, of v]
  have tr: "tab (mem s) d va \<in> troom s d fl" using assms(2) by (auto simp: troom_def tabs_def)
  have "free_list t fl"
    by (rule free_list_same[OF fl, of t "{tab (mem s) d va}"]) (use p(6) pt_okD(5)[OF ok assms(2)] in \<open>auto simp: t_def\<close>)
  then show "vext d s fl t fl" using p(1,4) same_off_mono[OF p(6)] tr by (simp add: vext_def vm_def troom_def t_def)
  show "\<And>vb. pt_entry (mem t) d vb = (if PGROUNDDOWN vb = PGROUNDDOWN va then v else pt_entry (mem s) d vb)"
    "\<And>vb. has_tab (mem t) d vb = has_tab (mem s) d vb"
    using p(2,5) by (simp_all add: t_def)
qed

lemma map_one:
  assumes "vm s d fl" "pt_entry (mem s) d a AND PTE_P = 0"
  shows "\<exists>t fl'. vext d s fl t fl' \<and> length fl \<le> length fl' + 1 \<and> (\<forall>vb. has_tab (mem t) d vb \<longrightarrow> has_tab (mem s) d vb \<or> PDX vb = PDX a) \<and>
    (fl = [] \<and> (\<forall>vb. pt_entry (mem t) d vb = pt_entry (mem s) d vb) \<and>
      (\<forall>K. bnd (walkpgdir d a True) (\<lambda>pte. if pte = 0 then ret (- 1) else
        bnd (load pte) (\<lambda>e. seq (panic_if (e AND PTE_P \<noteq> 0) ''remap'') (seq (store pte v) K))) s = Ok (- 1) t) \<or>
     (\<forall>vb. pt_entry (mem t) d vb = (if PGROUNDDOWN vb = PGROUNDDOWN a then v else pt_entry (mem s) d vb)) \<and>
      (\<forall>K. bnd (walkpgdir d a True) (\<lambda>pte. if pte = 0 then ret (- 1) else
        bnd (load pte) (\<lambda>e. seq (panic_if (e AND PTE_P \<noteq> 0) ''remap'') (seq (store pte v) K))) s = (K :: ('a kmem_scheme, int) kop) t))"
proof -
  obtain pte t fl' where w: "walkpgdir d a True s = Ok pte t" "vext d s fl t fl'"
    and same: "\<forall>vb. pt_entry (mem t) d vb = pt_entry (mem s) d vb"
    and c: "if pte = 0 then fl = [] else has_tab (mem t) d a \<and> pte = entry (tab (mem t) d a) (PTX a)"
    and l: "length fl \<le> length fl' + 1" "\<forall>vb. has_tab (mem t) d vb \<longrightarrow> has_tab (mem s) d vb \<or> PDX vb = PDX a"
    using walk_alloc[OF assms(1)] by blast
  note run = bnd_step[where m = "walkpgdir d a True" and s = s, OF w(1)]
  show ?thesis
  proof (cases "pte = 0")
    case True
    then show ?thesis using w(2) same c l by (intro exI[of _ t] exI[of _ fl']) (simp add: run ret_def)
  next
    case False
    then have h: "has_tab (mem t) d a" "pte = entry (tab (mem t) d a) (PTX a)" using c by simp_all
    have "rd32 (mem t) pte = pt_entry (mem t) d a" using h by (simp add: pt_entry_tab)
    then have "rd32 (mem t) pte AND PTE_P = 0" using same assms(2) by simp
    moreover have "vm t d fl'" using w(2) by (simp add: vext_def)
    note st = vext_store[OF this h(1) refl, of v]
    ultimately show ?thesis using vext_trans[OF w(2) st(1)] st(2,3) False same l
      by (intro exI[of _ "t\<lparr>mem := wr32 (mem t) pte v\<rparr>"] exI[of _ fl']) (simp add: run run_simps mem_runs h(2))
  qed
qed

lemma mappages_loop_run:
  assumes "vm s d fl" "a mod PGSIZE = 0" "k < 1048576"
    "\<forall>vb. pgidx a vb \<le> k \<longrightarrow> pt_entry (mem s) d vb AND PTE_P = 0"
  shows "\<exists>t fl' j. (\<forall>vb. has_tab (mem t) d vb \<longrightarrow> has_tab (mem s) d vb \<or> (\<exists>vc. pgidx a vc \<le> k \<and> PDX vb = PDX vc)) \<and>
    j \<le> Suc k \<and> mappages_loop d k a pa perm s = Ok (if j = Suc k then 0 else - 1) t \<and>
    vext d s fl t fl' \<and> length fl \<le> length fl' + j \<and> (j = Suc k \<or> length fl \<le> j \<and> fl' = []) \<and> (\<forall>vb. pt_entry (mem t) d vb = map_range a pa perm j (pt_entry (mem s) d) vb)"
  using assms
proof (induction k arbitrary: s fl a pa)
  case (0 s fl a pa)
  have a: "PGROUNDDOWN a = a" using aligned_round[OF "0.prems"(2)] .
  have a0: "pgidx a a = 0" using pgidx_0[OF "0.prems"(2)] a by simp
  then have "pt_entry (mem s) d a AND PTE_P = 0" using "0.prems"(4) by simp
  from map_one[OF "0.prems"(1) this, of "pa OR perm OR PTE_P"] obtain t fl' where t: "vext d s fl t fl'" and l: "length fl \<le> length fl' + 1"
    and ht: "\<forall>vb. has_tab (mem t) d vb \<longrightarrow> has_tab (mem s) d vb \<or> PDX vb = PDX a" and o: "fl = [] \<and> (\<forall>vb. pt_entry (mem t) d vb = pt_entry (mem s) d vb) \<and> mappages_loop d 0 a pa perm s = Ok (- 1) t \<or>
      (\<forall>vb. pt_entry (mem t) d vb = (if PGROUNDDOWN vb = PGROUNDDOWN a then pa OR perm OR PTE_P else pt_entry (mem s) d vb)) \<and>
      mappages_loop d 0 a pa perm s = ret 0 t"
    unfolding mappages_loop.simps[of d 0] nat.case by blast
  have ht': "\<forall>vb. has_tab (mem t) d vb \<longrightarrow> has_tab (mem s) d vb \<or> (\<exists>vc. pgidx a vc \<le> 0 \<and> PDX vb = PDX vc)" using ht a0 by (metis le_refl)
  have m: "map_range a pa perm (Suc 0) f vb = (if PGROUNDDOWN vb = a then pa OR perm OR PTE_P else f vb)" for f vb
    using pgidx_0[OF "0.prems"(2), of vb] by (cases "pgidx a vb = 0") (simp_all add: map_range_def)
  from o show ?case
  proof
    assume "fl = [] \<and> (\<forall>vb. pt_entry (mem t) d vb = pt_entry (mem s) d vb) \<and> mappages_loop d 0 a pa perm s = Ok (- 1) t"
    then show ?thesis using t ht' by (intro exI[of _ t] exI[of _ fl'] exI[of _ 0] conjI[OF ht']) (auto simp: map_range_def vext_def)
  next
    assume "(\<forall>vb. pt_entry (mem t) d vb = (if PGROUNDDOWN vb = PGROUNDDOWN a then pa OR perm OR PTE_P else pt_entry (mem s) d vb)) \<and>
      mappages_loop d 0 a pa perm s = ret 0 t"
    then show ?thesis using t l by (intro exI[of _ t] exI[of _ fl'] exI[of _ "Suc 0"] conjI[OF ht']) (simp add: m a ret_def)
  qed
next
  case (Suc k s fl a pa)
  have a: "PGROUNDDOWN a = a" using aligned_round[OF Suc.prems(2)] .
  have a0: "pgidx a a = 0" using pgidx_0[OF Suc.prems(2)] a by simp
  then have "pt_entry (mem s) d a AND PTE_P = 0" using Suc.prems(4) by simp
  from map_one[OF Suc.prems(1) this, of "pa OR perm OR PTE_P"] obtain t fl' where t: "vext d s fl t fl'" and l: "length fl \<le> length fl' + 1"
    and ht: "\<forall>vb. has_tab (mem t) d vb \<longrightarrow> has_tab (mem s) d vb \<or> PDX vb = PDX a" and o: "fl = [] \<and> (\<forall>vb. pt_entry (mem t) d vb = pt_entry (mem s) d vb) \<and> mappages_loop d (Suc k) a pa perm s = Ok (- 1) t \<or>
      (\<forall>vb. pt_entry (mem t) d vb = (if PGROUNDDOWN vb = PGROUNDDOWN a then pa OR perm OR PTE_P else pt_entry (mem s) d vb)) \<and>
      mappages_loop d (Suc k) a pa perm s = mappages_loop d k (a + PGSIZE) (pa + PGSIZE) perm t"
    unfolding mappages_loop.simps[of d "Suc k"] nat.case by blast
  have ht': "\<forall>vb. has_tab (mem t) d vb \<longrightarrow> has_tab (mem s) d vb \<or> (\<exists>vc. pgidx a vc \<le> Suc k \<and> PDX vb = PDX vc)" using ht a0 by (metis le0)
  from o show ?case
  proof
    assume "fl = [] \<and> (\<forall>vb. pt_entry (mem t) d vb = pt_entry (mem s) d vb) \<and> mappages_loop d (Suc k) a pa perm s = Ok (- 1) t"
    then show ?thesis using t ht' by (intro exI[of _ t] exI[of _ fl'] exI[of _ 0] conjI[OF ht']) (auto simp: map_range_def vext_def)
  next
    assume r: "(\<forall>vb. pt_entry (mem t) d vb = (if PGROUNDDOWN vb = PGROUNDDOWN a then pa OR perm OR PTE_P else pt_entry (mem s) d vb)) \<and>
      mappages_loop d (Suc k) a pa perm s = mappages_loop d k (a + PGSIZE) (pa + PGSIZE) perm t"
    have al: "(a + PGSIZE) mod PGSIZE = 0" by (rule aligned_next[OF Suc.prems(2)])
    have vm: "vm t d fl'" using t by (simp add: vext_def)
    have un: "pt_entry (mem t) d vb AND PTE_P = 0" if i: "pgidx (a + PGSIZE) vb \<le> k" for vb
    proof -
      have "pgidx a vb \<noteq> 0" "pgidx a vb \<le> Suc k"
        using i Suc.prems(3) by (auto simp: pgidx_Suc[OF Suc.prems(2)] split: if_splits)
      then show ?thesis using r Suc.prems(4) a pgidx_0[OF Suc.prems(2)] by auto
    qed
    have k: "k < 1048576" using Suc.prems(3) by simp
    from Suc.IH[OF vm al k, of "pa + PGSIZE"] un obtain u fl'' j where
      hu: "\<forall>vb. has_tab (mem u) d vb \<longrightarrow> has_tab (mem t) d vb \<or> (\<exists>vc. pgidx (a + PGSIZE) vc \<le> k \<and> PDX vb = PDX vc)" and u: "j \<le> Suc k"
      "mappages_loop d k (a + PGSIZE) (pa + PGSIZE) perm t = Ok (if j = Suc k then 0 else - 1) u" "vext d t fl' u fl''"
      "length fl' \<le> length fl'' + j" "j = Suc k \<or> length fl' \<le> j \<and> fl'' = []" "\<forall>vb. pt_entry (mem u) d vb = map_range (a + PGSIZE) (pa + PGSIZE) perm j (pt_entry (mem t) d) vb" by blast
    have e: "pt_entry (mem t) d = (\<lambda>vb. if PGROUNDDOWN vb = a then pa OR perm OR PTE_P else pt_entry (mem s) d vb)"
      using r a by auto
    have "pt_entry (mem u) d vb = map_range a pa perm (Suc j) (pt_entry (mem s) d) vb" for vb
      using u(1,6) Suc.prems(2,3) unfolding e by (simp add: map_range_Suc)
    moreover have "pgidx a vc \<le> Suc k" if "pgidx (a + PGSIZE) vc \<le> k" for vc
      using that Suc.prems(3) by (auto simp: pgidx_Suc[OF Suc.prems(2)] split: if_splits)
    then have "\<forall>vb. has_tab (mem u) d vb \<longrightarrow> has_tab (mem s) d vb \<or> (\<exists>vc. pgidx a vc \<le> Suc k \<and> PDX vb = PDX vc)"
      using hu ht' by blast
    ultimately show ?thesis using r l u(1,2,4,5) vext_trans[OF t u(3)]
      by (intro exI[of _ u] exI[of _ fl''] exI[of _ "Suc j"]) auto
  qed
qed

lemma mappages_loop_eq:
  "mappages d va sz pa perm = mappages_loop d (pgidx (PGROUNDDOWN va) (va + sz - 1)) (PGROUNDDOWN va) pa perm"
  by (simp add: mappages_def pgidx_def Let_def)

lemma round_aligned: "PGROUNDDOWN va mod PGSIZE = 0"
  using unat_PGROUNDDOWN[of va] by (simp add: aligned_mod[symmetric])

text \<open>
  C14: \<open>mappages\<close> on a well-formed page table and an unmapped range returns 0 after it has mapped
  every page of the range, in order, to consecutive frames with the given permissions, or -1
  when the allocator ran out of pages for page tables, which it does only with fewer free pages
  than pages to map. No other address is mapped differently, the page table stays
  well-formed, and no page is written but the directory, its tables and free ones.
\<close>
theorem mappages_maps:
  assumes "vm s d fl" "k = pgidx (PGROUNDDOWN va) (va + sz - 1)"
    and "\<forall>vb. pgidx (PGROUNDDOWN va) vb \<le> k \<longrightarrow> pt_entry (mem s) d vb AND PTE_P = 0"
  shows "\<exists>t fl' j. mappages d va sz pa perm s = Ok (if j = Suc k then 0 else - 1) t \<and>
    (j = Suc k \<or> j \<le> k \<and> length fl \<le> j) \<and> vm t d fl' \<and> same_off (insert d (tabs (mem s) d \<union> set fl)) (mem s) (mem t) \<and>
    (\<forall>vb. pt_entry (mem t) d vb =
       (if pgidx (PGROUNDDOWN va) vb < j then (pa + of_nat (pgidx (PGROUNDDOWN va) vb) * PGSIZE) OR perm OR PTE_P
        else pt_entry (mem s) d vb))"
proof -
  have k: "k < 1048576" unfolding assms(2) by (rule pgidx_mult(2)[OF round_aligned])
  obtain t fl' j where "j \<le> Suc k" "mappages_loop d k (PGROUNDDOWN va) pa perm s = Ok (if j = Suc k then 0 else - 1) t"
    "vext d s fl t fl'" "j = Suc k \<or> length fl \<le> j \<and> fl' = []"
    "\<forall>vb. pt_entry (mem t) d vb = map_range (PGROUNDDOWN va) pa perm j (pt_entry (mem s) d) vb"
    using mappages_loop_run[OF assms(1) round_aligned k assms(3)] by blast
  then show ?thesis unfolding mappages_loop_eq assms(2)[symmetric]
    by (intro exI[of _ t] exI[of _ fl'] exI[of _ j]) (auto simp: vext_def troom_def map_range_def)
qed

text \<open>An empty directory, and two free pages.\<close>

definition empty_dir :: kmem where
  "empty_dir = \<lparr>held = {}, mem = wr32 (\<lambda>_. 0) 0x80201000 0x80202000, freelist = 0x80201000, use_lock = True, kend = 0x80100000\<rparr>"

lemma empty_dir_vm: "vm empty_dir 0x80200000 [0x80201000, 0x80202000]" "pt_entry (mem empty_dir) 0x80200000 va = 0"
proof -
  have o: "same_off {0x80201000} (\<lambda>_. 0) (mem empty_dir)"
    using same_off_wr32[of "0x80201000" 0 "\<lambda>_. 0"] by (simp add: empty_dir_def entry_def)
  have z: "rd32 (\<lambda>_. 0) a = 0" for a by (simp add: rd32_def)
  have "rd32 (mem empty_dir) (entry 0x80200000 (PDX va)) = 0" for va
    using rd32_same_off[OF o _ _ PDX_less, of "0x80200000"] by (simp add: z)
  then have h: "\<not> has_tab (mem empty_dir) 0x80200000 va" for va by (simp add: has_tab_def)
  show "pt_entry (mem empty_dir) 0x80200000 va = 0" using h by (simp add: pt_entry_tab)
  have "rd32 (mem empty_dir) 0x80202000 = 0"
    using rd32_same_off[OF o, of "0x80202000" 0] by (simp add: entry_def z)
  moreover have "rd32 (mem empty_dir) 0x80201000 = 0x80202000" by (simp add: empty_dir_def)
  ultimately have "free_list empty_dir [0x80201000, 0x80202000]"
    by (simp add: free_list_def empty_dir_def page_ok_def V2P_def)
  then show "vm empty_dir 0x80200000 [0x80201000, 0x80202000]"
    using h by (simp add: vm_def pt_ok_def) (simp add: empty_dir_def page_ok_def V2P_def)
qed

theorem mappages_maps_witness:
  "\<exists>t. mappages 0x80200000 0x3000 0x2000 0x500000 6 empty_dir = Ok 0 t \<and> pt_entry (mem t) 0x80200000 0x3010 = 0x500007 \<and>
     pt_entry (mem t) 0x80200000 0x4abc = 0x501007 \<and> pt_entry (mem t) 0x80200000 0x5000 = 0"
proof -
  have r: "PGROUNDDOWN 0x3000 = 0x3000" "PGROUNDDOWN 0x3010 = 0x3000" "PGROUNDDOWN 0x4abc = 0x4000" "PGROUNDDOWN 0x5000 = 0x5000" "PGROUNDDOWN 0x4fff = 0x4000"
    by (simp_all add: PGROUNDDOWN_def)
  note i = pgidx_def r
  have "\<exists>t fl' j. mappages 0x80200000 0x3000 0x2000 0x500000 6 empty_dir = Ok (if j = Suc 1 then 0 else - 1) t \<and>
    (j = Suc 1 \<or> j \<le> 1 \<and> length [0x80201000 :: uint, 0x80202000] \<le> j) \<and> vm t 0x80200000 fl' \<and>
    same_off (insert 0x80200000 (tabs (mem empty_dir) 0x80200000 \<union> set [0x80201000, 0x80202000])) (mem empty_dir) (mem t) \<and>
    (\<forall>vb. pt_entry (mem t) 0x80200000 vb =
       (if pgidx (PGROUNDDOWN 0x3000) vb < j then (0x500000 + of_nat (pgidx (PGROUNDDOWN 0x3000) vb) * PGSIZE) OR 6 OR PTE_P
        else pt_entry (mem empty_dir) 0x80200000 vb))"
    by (rule mappages_maps) (simp_all add: empty_dir_vm i)
  then show ?thesis by (auto simp: i empty_dir_vm(2))
qed

end
