(* ===== verification/Uvm.thy ===== *)
theory Uvm
  imports Pagetab
begin

text \<open>
  User memory: the pages a page table maps below \<open>KERNBASE\<close>. In a well-formed user address space
  every such page has a frame of its own, which is neither free nor part of the page table.
  \<open>uval\<close> is the byte a process sees at an address. The theorems say what \<open>deallocuvm\<close>, \<open>allocuvm\<close>,
  \<open>copyuvm\<close> and \<open>copyout\<close> do to the bytes a process sees and that they neither lose nor
  duplicate a page.
\<close>

section \<open>Address spaces\<close>

definition present :: "memory \<Rightarrow> uint \<Rightarrow> uint \<Rightarrow> bool" where
  "present m d va \<longleftrightarrow> pt_entry m d va AND PTE_P \<noteq> 0"

definition frame_of :: "memory \<Rightarrow> uint \<Rightarrow> uint \<Rightarrow> uint" where
  "frame_of m d va = P2V (PTE_ADDR (pt_entry m d va))"

definition frames :: "memory \<Rightarrow> uint \<Rightarrow> uint set" where
  "frames m d = {frame_of m d va | va. va < KERNBASE \<and> present m d va}"

definition uval :: "memory \<Rightarrow> uint \<Rightarrow> uint \<Rightarrow> uchar option" where
  "uval m d va = (if present m d va then Some (m (frame_of m d va + (va AND 0xFFF))) else None)"

definition us_ok :: "uint \<Rightarrow> memory \<Rightarrow> uint \<Rightarrow> uint set \<Rightarrow> bool" where
  "us_ok e m d F \<longleftrightarrow>
     (\<forall>va. va < KERNBASE \<and> present m d va \<longrightarrow>
        page_ok e (frame_of m d va) \<and> frame_of m d va \<notin> F \<and> frame_of m d va \<noteq> d \<and> frame_of m d va \<notin> tabs m d) \<and>
     (\<forall>va vb. va < KERNBASE \<and> vb < KERNBASE \<and> present m d va \<and> present m d vb \<and> frame_of m d va = frame_of m d vb \<longrightarrow>
        PGROUNDDOWN va = PGROUNDDOWN vb)"

definition uvm :: "'a kmem_scheme \<Rightarrow> uint \<Rightarrow> uint list \<Rightarrow> bool" where
  "uvm s d fl \<longleftrightarrow> vm s d fl \<and> us_ok (kend s) (mem s) d (set fl) \<and> KERNBASE < kend s"

definition uroom :: "'a kmem_scheme \<Rightarrow> uint \<Rightarrow> uint list \<Rightarrow> uint set" where
  "uroom s d fl = troom s d fl \<union> frames (mem s) d"

text \<open>A step on the address space of \<open>d\<close>: no page is lost or gained, no other page written.\<close>

definition uext :: "uint \<Rightarrow> 'a kmem_scheme \<Rightarrow> uint list \<Rightarrow> 'a kmem_scheme \<Rightarrow> uint list \<Rightarrow> bool" where
  "uext d s fl t fl' \<longleftrightarrow> kept s t \<and> uvm t d fl' \<and> uroom t d fl' = uroom s d fl \<and>
     same_off (uroom s d fl) (mem s) (mem t) \<and> (\<forall>va. \<not> va < KERNBASE \<longrightarrow> pt_entry (mem t) d va = pt_entry (mem s) d va)"

lemma uext_refl: "uvm s d fl \<Longrightarrow> uext d s fl s fl"
  by (simp add: uext_def)

lemma uext_trans: "uext d s fl t fl' \<Longrightarrow> uext d t fl' u fl'' \<Longrightarrow> uext d s fl u fl''"
  unfolding uext_def by (elim conjE, intro conjI) (auto intro: kept_trans same_off_trans)

lemma uval_translate: "uval m d va = map_option m (translate m d va)"
  by (simp add: uval_def translate_def present_def frame_of_def Let_def)

lemma us_okD:
  assumes "us_ok e m d F" "va < KERNBASE" "present m d va"
  shows "page_ok e (frame_of m d va)" "frame_of m d va \<notin> F" "frame_of m d va \<noteq> d" "frame_of m d va \<notin> tabs m d"
    "vb < KERNBASE \<Longrightarrow> present m d vb \<Longrightarrow> frame_of m d va = frame_of m d vb \<Longrightarrow> PGROUNDDOWN va = PGROUNDDOWN vb"
  using assms unfolding us_ok_def by blast+

text \<open>Addresses of one page.\<close>

lemma pt_entry_page: "PGROUNDDOWN va = PGROUNDDOWN vb \<Longrightarrow> pt_entry m d va = pt_entry m d vb"
  by (simp add: same_page_iff pt_entry_def Let_def)

lemma page_cong:
  assumes "PGROUNDDOWN va = PGROUNDDOWN vb"
  shows "present m d va = present m d vb" "frame_of m d va = frame_of m d vb"
  using pt_entry_page[OF assms] by (simp_all add: present_def frame_of_def)

lemma offset_less: "unat (va AND 0xFFF :: uint) < 4096"
proof -
  have "va AND 0xFFF = take_bit 12 va" unfolding mask12 by (simp add: take_bit_eq_mask)
  then show ?thesis by (simp add: take_bit_eq_mod unat_mod_distrib)
qed

lemma frame_aligned: "frame_of m d va mod PGSIZE = 0"
  by (simp add: frame_of_def aligned_P2V PTE_ADDR_aligned)

lemma byte_page: "f mod PGSIZE = 0 \<Longrightarrow> PGROUNDDOWN (f + (va AND 0xFFF)) = f"
  by (rule aligned_plus[OF _ offset_less])

lemma uval_same:
  assumes "pt_entry m' d va = pt_entry m d va" "same_off P m m'" "present m d va \<Longrightarrow> frame_of m d va \<notin> P"
  shows "uval m' d va = uval m d va"
proof -
  have e: "present m' d va = present m d va" "frame_of m' d va = frame_of m d va"
    using assms(1) by (simp_all add: present_def frame_of_def)
  have "m' (frame_of m d va + (va AND 0xFFF)) = m (frame_of m d va + (va AND 0xFFF))" if "present m d va"
    using assms(2,3) that byte_page[OF frame_aligned] by (simp add: same_off_def)
  then show ?thesis using e by (simp add: uval_def)
qed

text \<open>Changing pages elsewhere.\<close>

lemma uvm_same:
  assumes u: "uvm s d fl" and k: "kept s t" "freelist t = freelist s" and o: "same_off P (mem s) (mem t)" "P \<inter> uroom s d fl = {}"
  shows "uvm t d fl" "pt_entry (mem t) d va = pt_entry (mem s) d va" "tabs (mem t) d = tabs (mem s) d" "uroom t d fl = uroom s d fl"
    "va < KERNBASE \<Longrightarrow> uval (mem t) d va = uval (mem s) d va"
proof -
  have ok: "pt_ok (kend s) (mem s) d (set fl)" and f: "free_list s fl" using u by (simp_all add: uvm_def vm_def)
  have P: "P \<inter> insert d (tabs (mem s) d) = {}" "P \<inter> set fl = {}" "d \<notin> P" using o(2) by (auto simp: uroom_def troom_def)
  note p = pt_same[OF ok o(1) P(1)]
  show tb: "tabs (mem t) d = tabs (mem s) d" by (rule pt_same_dir(3)[OF pt_okD(1)[OF ok] o(1) P(3)])
  show e: "pt_entry (mem t) d va = pt_entry (mem s) d va" for va by (rule p(2))
  have v: "present (mem t) d = present (mem s) d" "frame_of (mem t) d = frame_of (mem s) d"
    using e by (auto simp: present_def frame_of_def)
  then have fr: "frames (mem t) d = frames (mem s) d" by (simp add: frames_def)
  then show "uroom t d fl = uroom s d fl" by (simp add: uroom_def troom_def tb)
  have "us_ok (kend t) (mem t) d (set fl)" using u kept_sel(1)[OF k(1)] unfolding uvm_def us_ok_def tb v by simp
  then show "uvm t d fl" using u p(1) kept_sel(1)[OF k(1)] free_list_same[OF f k o(1) P(2)] by (simp add: uvm_def vm_def)
  show "uval (mem t) d va = uval (mem s) d va" if "va < KERNBASE"
    by (rule uval_same[OF e o(1)]) (use o(2) that in \<open>auto simp: uroom_def frames_def\<close>)
qed

section \<open>Freeing\<close>

lemma pt_ok_insert: "pt_ok e m d F \<Longrightarrow> x \<noteq> d \<Longrightarrow> x \<notin> tabs m d \<Longrightarrow> pt_ok e m d (insert x F)"
  unfolding pt_ok_def tabs_def by blast

lemma same_off_pushed:
  assumes "v mod PGSIZE = 0"
  shows "same_off {v} (mem s) (mem (pushed v s))"
  using page_eq_pushed[of v s] page_addr_iff[OF assms] by (simp add: same_off_def page_eq_def)

lemma kept_pushed [simp]: "kept s (pushed v s)"
  by (simp add: kept_def pushed_def)

text \<open>Giving a page back that nobody uses.\<close>

lemma vm_pushed:
  assumes u: "vm s d fl" and x: "page_ok (kend s) x" "x \<notin> troom s d fl"
  shows "kfree x s = Ok () (pushed x s)" "vm (pushed x s) d (x # fl)"
    "pt_entry (mem (pushed x s)) d va = pt_entry (mem s) d va" "tabs (mem (pushed x s)) d = tabs (mem s) d"
    "same_off {x} (mem s) (mem (pushed x s))"
proof -
  have ok: "pt_ok (kend s) (mem s) d (set fl)" and f: "free_list s fl" using u by (simp_all add: vm_def)
  have n: "x \<noteq> d" "x \<notin> tabs (mem s) d" "x \<notin> set fl" using x(2) by (auto simp: troom_def)
  show o: "same_off {x} (mem s) (mem (pushed x s))" using x(1) by (intro same_off_pushed) (simp add: page_ok_def)
  have P: "{x} \<inter> insert d (tabs (mem s) d) = {}" "d \<notin> {x}" using n by auto
  note p = pt_same[OF ok o P(1)]
  show tb: "tabs (mem (pushed x s)) d = tabs (mem s) d" by (rule pt_same_dir(3)[OF pt_okD(1)[OF ok] o P(2)])
  show "pt_entry (mem (pushed x s)) d va = pt_entry (mem s) d va" by (rule p(2))
  show "kfree x s = Ok () (pushed x s)" by (rule kfree_Ok(1)[OF f x(1) n(3)])
  show "vm (pushed x s) d (x # fl)"
    using kfree_Ok(2)[OF f x(1) n(3)] pt_ok_insert[OF p(1) n(1)] n(2) tb by (simp add: vm_def)
qed


lemma us_ok_change:
  assumes us: "us_ok e m d F"
    and en: "\<And>vb. pt_entry m' d vb = (if PGROUNDDOWN vb = PGROUNDDOWN va then v else pt_entry m d vb)"
    and new: "v AND PTE_P \<noteq> 0 \<Longrightarrow> page_ok e (P2V (PTE_ADDR v)) \<and> P2V (PTE_ADDR v) \<notin> insert d (tabs m' d \<union> F') \<and>
        P2V (PTE_ADDR v) \<notin> frames m d"
    and F: "\<And>x. x \<in> insert d (tabs m' d \<union> F') \<Longrightarrow>
        x \<in> insert d (tabs m d \<union> F) \<or> (va < KERNBASE \<and> present m d va \<and> x = frame_of m d va)"
  shows "us_ok e m' d F'"
  unfolding us_ok_def
proof (intro conjI allI impI)
  have old: "present m' d vb = present m d vb" "frame_of m' d vb = frame_of m d vb" if "PGROUNDDOWN vb \<noteq> PGROUNDDOWN va" for vb
    using en that by (simp_all add: present_def frame_of_def)
  have nw: "present m' d vb \<longleftrightarrow> v AND PTE_P \<noteq> 0" "frame_of m' d vb = P2V (PTE_ADDR v)" if "PGROUNDDOWN vb = PGROUNDDOWN va" for vb
    using en that by (simp_all add: present_def frame_of_def)
  {
    fix vb assume b: "vb < KERNBASE \<and> present m' d vb"
    have "page_ok e (frame_of m' d vb) \<and> frame_of m' d vb \<notin> F' \<and> frame_of m' d vb \<noteq> d \<and> frame_of m' d vb \<notin> tabs m' d"
    proof (cases "PGROUNDDOWN vb = PGROUNDDOWN va")
      case True
      then show ?thesis using new nw[OF True] b by simp
    next
      case False
      then have p: "present m d vb" "vb < KERNBASE" using b old by simp_all
      note u = us_okD[OF us p(2,1)]
      have "frame_of m d vb \<notin> insert d (tabs m' d \<union> F')"
      proof
        assume "frame_of m d vb \<in> insert d (tabs m' d \<union> F')"
        from F[OF this] u(2-4) have "va < KERNBASE" "present m d va" "frame_of m d vb = frame_of m d va" by blast+
        from u(5)[OF this] False show False by simp
      qed
      then show ?thesis using u(1) old[OF False] by simp
    qed
  }
  then show "vb < KERNBASE \<and> present m' d vb \<Longrightarrow> page_ok e (frame_of m' d vb)"
    "vb < KERNBASE \<and> present m' d vb \<Longrightarrow> frame_of m' d vb \<notin> F'" "vb < KERNBASE \<and> present m' d vb \<Longrightarrow> frame_of m' d vb \<noteq> d"
    "vb < KERNBASE \<and> present m' d vb \<Longrightarrow> frame_of m' d vb \<notin> tabs m' d" for vb by blast+
  fix vb vc assume b: "vb < KERNBASE \<and> vc < KERNBASE \<and> present m' d vb \<and> present m' d vc \<and> frame_of m' d vb = frame_of m' d vc"
  have x: False if "PGROUNDDOWN vb = PGROUNDDOWN va" "PGROUNDDOWN vc \<noteq> PGROUNDDOWN va" "vc < KERNBASE" "present m' d vb"
      "present m' d vc" "frame_of m' d vb = frame_of m' d vc" for vb vc
    using that nw[of vb] old[of vc] new by (auto simp: frames_def)
  show "PGROUNDDOWN vb = PGROUNDDOWN vc"
  proof (cases "PGROUNDDOWN vb = PGROUNDDOWN va \<or> PGROUNDDOWN vc = PGROUNDDOWN va")
    case True
    then show ?thesis using x[of vb vc] x[of vc vb] b by metis
  next
    case False
    then show ?thesis using us_okD(5)[OF us, of vb vc] b old[of vb] old[of vc] by simp
  qed
qed

lemma frames_change:
  assumes en: "\<And>vb. pt_entry m' d vb = (if PGROUNDDOWN vb = PGROUNDDOWN va then v else pt_entry m d vb)"
    and us: "us_ok e m d F" and va: "va < KERNBASE"
  shows "frames m' d = (frames m d - (if present m d va then {frame_of m d va} else {})) \<union> (if v AND PTE_P \<noteq> 0 then {P2V (PTE_ADDR v)} else {})"
proof -
  have old: "present m' d vb = present m d vb" "frame_of m' d vb = frame_of m d vb" if "PGROUNDDOWN vb \<noteq> PGROUNDDOWN va" for vb
    using en that by (simp_all add: present_def frame_of_def)
  have nw: "present m' d vb \<longleftrightarrow> v AND PTE_P \<noteq> 0" "frame_of m' d vb = P2V (PTE_ADDR v)" if "PGROUNDDOWN vb = PGROUNDDOWN va" for vb
    using en that by (simp_all add: present_def frame_of_def)
  have inj: "PGROUNDDOWN vb = PGROUNDDOWN va" if "vb < KERNBASE" "present m d vb" "present m d va" "frame_of m d vb = frame_of m d va" for vb
    using us_okD(5)[OF us that(1,2) va that(3,4)] .
  show ?thesis
  proof (rule set_eqI)
    fix x
    have "x \<in> frames m' d \<longleftrightarrow> (\<exists>vb. vb < KERNBASE \<and> present m d vb \<and> PGROUNDDOWN vb \<noteq> PGROUNDDOWN va \<and> x = frame_of m d vb) \<or>
        (v AND PTE_P \<noteq> 0 \<and> x = P2V (PTE_ADDR v))"
      unfolding frames_def mem_Collect_eq using old nw va by metis
    moreover have "(\<exists>vb. vb < KERNBASE \<and> present m d vb \<and> PGROUNDDOWN vb \<noteq> PGROUNDDOWN va \<and> x = frame_of m d vb) \<longleftrightarrow>
        x \<in> frames m d - (if present m d va then {frame_of m d va} else {})"
    proof (cases "present m d va")
      case True
      have "PGROUNDDOWN vb = PGROUNDDOWN va \<longleftrightarrow> frame_of m d vb = frame_of m d va" if "vb < KERNBASE" "present m d vb" for vb
        using inj[OF that True] page_cong(2)[of vb va m d] by blast
      then show ?thesis using True by (auto simp: frames_def)
    next
      case False
      then have "PGROUNDDOWN vb \<noteq> PGROUNDDOWN va" if "present m d vb" for vb
        using that page_cong(1)[of vb va m d] by blast
      then show ?thesis using False by (auto simp: frames_def)
    qed
    ultimately show "x \<in> frames m' d \<longleftrightarrow> x \<in> (frames m d - (if present m d va then {frame_of m d va} else {})) \<union>
        (if v AND PTE_P \<noteq> 0 then {P2V (PTE_ADDR v)} else {})" by auto
  qed
qed

lemma below_kernbase: "va < KERNBASE \<Longrightarrow> PGROUNDDOWN vb = PGROUNDDOWN va \<Longrightarrow> vb < KERNBASE"
proof -
  assume a: "va < KERNBASE" "PGROUNDDOWN vb = PGROUNDDOWN va"
  have "unat vb div 4096 * 4096 = unat va div 4096 * 4096" using unat_PGROUNDDOWN[of va] unat_PGROUNDDOWN[of vb] a(2) by simp
  then have "unat vb div 4096 = unat va div 4096" by simp
  moreover have "unat va < 524288 * 4096" using a(1) by (simp add: word_less_nat_alt)
  ultimately have "unat vb div 4096 < 524288" by (simp add: less_mult_imp_div_less)
  then have "unat vb < 524288 * 4096" by (simp add: div_less_iff_less_mult)
  then show ?thesis by (simp add: word_less_nat_alt)
qed

text \<open>Freeing the page of one address: \<open>kfree\<close> and clearing the entry.\<close>

lemma free_one:
  assumes u: "uvm s d fl" and va: "va < KERNBASE" "present (mem s) d va"
    and t_def: "t = (pushed (frame_of (mem s) d va) s)\<lparr>mem := wr32 (mem (pushed (frame_of (mem s) d va) s)) (entry (tab (mem s) d va) (PTX va)) 0\<rparr>"
  shows "kfree (frame_of (mem s) d va) s = Ok () (pushed (frame_of (mem s) d va) s)"
    "uext d s fl t (frame_of (mem s) d va # fl)"
    "\<And>vb. vb < KERNBASE \<Longrightarrow> uval (mem t) d vb = (if PGROUNDDOWN vb = PGROUNDDOWN va then None else uval (mem s) d vb)"
proof -
  let ?f = "frame_of (mem s) d va" and ?s = "pushed (frame_of (mem s) d va) s"
  have vm: "vm s d fl" and us: "us_ok (kend s) (mem s) d (set fl)" and kb: "KERNBASE < kend s" using u by (simp_all add: uvm_def)
  note f = us_okD[OF us va]
  have nt: "?f \<notin> troom s d fl" using f by (simp add: troom_def)
  note p = vm_pushed[OF vm f(1) nt]
  show "kfree ?f s = Ok () ?s" by (rule p(1))
  have h: "has_tab (mem s) d va" using va(2) by (simp add: present_def pt_entry_tab split: if_splits)
  have dm: "d mod PGSIZE = 0" "d \<notin> {?f}" using vm f(3) by (simp_all add: vm_def pt_ok_def page_ok_def)
  note q = pt_same_dir[OF dm(1) p(5) dm(2)]
  have "t = ?s\<lparr>mem := wr32 (mem ?s) (entry (tab (mem ?s) d va) (PTX va)) 0\<rparr>" by (simp add: t_def q(2))
  note st = vext_store[OF p(2) h[folded q(1)] this]
  have en: "pt_entry (mem t) d vb = (if PGROUNDDOWN vb = PGROUNDDOWN va then 0 else pt_entry (mem s) d vb)" for vb
    using st(2) p(3) by simp
  have k: "kept s t" using st(1) by (auto simp: vext_def intro: kept_trans[OF kept_pushed])
  have v: "vm t d (?f # fl)" using st(1) by (simp add: vext_def)
  have tb: "tabs (mem t) d = tabs (mem s) d"
    using pt_store(4)[OF _ h[folded q(1)] refl, of "kend s" "set (?f # fl)" 0] p(2,4) by (simp add: t_def vm_def q(2))
  have "us_ok (kend s) (mem t) d (set (?f # fl))"
    by (rule us_ok_change[OF us en]) (use va tb in auto)
  then have uv: "uvm t d (?f # fl)" using v kb kept_sel(1)[OF k] by (simp add: uvm_def)
  have fr: "frames (mem t) d = frames (mem s) d - {?f}"
    using frames_change[OF en us va(1)] va(2) by simp
  have ff: "?f \<in> frames (mem s) d" using va by (auto simp: frames_def)
  have r: "uroom t d (?f # fl) = uroom s d fl" using ff by (auto simp: uroom_def troom_def tb fr)
  have ts: "tab (mem s) d va \<in> tabs (mem s) d" using h by (auto simp: tabs_def)
  have "same_off {?f, tab (mem s) d va} (mem s) (mem t)"
  proof -
    have "same_off {tab (mem s) d va} (mem ?s) (mem t)"
      using pt_store(6)[OF _ h[folded q(1)] refl, of "kend s" "set (?f # fl)" 0] p(2) by (simp add: t_def vm_def q(2))
    then show ?thesis using p(5) by (auto intro: same_off_trans[of _ _ "mem ?s"] elim: same_off_mono)
  qed
  note so = this
  then have "same_off (uroom s d fl) (mem s) (mem t)" by (rule same_off_mono) (use ff ts in \<open>auto simp: uroom_def troom_def\<close>)
  then show "uext d s fl t (?f # fl)" using k uv r en below_kernbase[OF va(1)] by (auto simp: uext_def)
  show "uval (mem t) d vb = (if PGROUNDDOWN vb = PGROUNDDOWN va then None else uval (mem s) d vb)" if vb: "vb < KERNBASE" for vb
  proof (cases "PGROUNDDOWN vb = PGROUNDDOWN va")
    case True
    then show ?thesis using en by (simp add: uval_def present_def)
  next
    case False
    have "uval (mem t) d vb = uval (mem s) d vb"
      by (rule uval_same[OF _ so]) (use us_okD[OF us vb] f(5)[OF vb] va(2) en False ts in auto)
    then show ?thesis using False by simp
  qed
qed


text \<open>The addresses from \<open>a\<close> to the end of the last page that starts below \<open>sz\<close>.\<close>

definition in_pages :: "nat \<Rightarrow> nat \<Rightarrow> uint \<Rightarrow> bool" where
  "in_pages a sz va \<longleftrightarrow> a \<le> unat va \<and> unat va div 4096 * 4096 < sz"

lemma page_div: "PGROUNDDOWN va = PGROUNDDOWN vb \<longleftrightarrow> unat va div 4096 = unat vb div 4096"
  by (simp add: word_unat_eq_iff unat_PGROUNDDOWN)

lemma unat_PDX: "unat (PDX va) = unat va div 4194304"
proof -
  have "PDX va = take_bit 10 (drop_bit 22 va)" by (simp add: PDX_def mask10 take_bit_eq_mask)
  then have "unat (PDX va) = (unat va div 4194304) mod 1024"
    by (simp add: take_bit_eq_mod drop_bit_eq_div unat_mod_distrib unat_div_distrib)
  also have "\<dots> = unat va div 4194304" using unat_uint_less[of va] by (simp add: div_less_iff_less_mult)
  finally show ?thesis .
qed

lemma in_pages_step:
  assumes "a mod 4096 = 0" "a < sz"
  shows "in_pages a sz va \<longleftrightarrow> unat va div 4096 = a div 4096 \<or> in_pages (a + 4096) sz va"
proof -
  obtain n where n: "a = 4096 * n" using assms(1) by (auto elim: dvdE simp: mod_eq_0_iff_dvd)
  then have n': "a div 4096 = n" by simp
  have "a \<le> unat va \<longleftrightarrow> n \<le> unat va div 4096" "a + 4096 \<le> unat va \<longleftrightarrow> Suc n \<le> unat va div 4096" using n by linarith+
  then show ?thesis using assms(2) n unfolding in_pages_def n' by auto
qed

lemma in_pages_end: "a mod 4096 = 0 \<Longrightarrow> sz \<le> a \<Longrightarrow> \<not> in_pages a sz va"
proof -
  assume a: "a mod 4096 = 0" "sz \<le> a"
  obtain n where n: "a = 4096 * n" using a(1) by (auto elim: dvdE simp: mod_eq_0_iff_dvd)
  have "a \<le> unat va \<longleftrightarrow> n \<le> unat va div 4096" using n by linarith
  then show ?thesis using n a(2) by (auto simp: in_pages_def)
qed

lemma jump_less: "a < (a div 4194304 + 1) * (4194304 :: nat)"
  using div_mult_mod_eq[of a 4194304] mod_less_divisor[of 4194304 a] unfolding add_mult_distrib by linarith

lemma in_pages_jump:
  "in_pages a sz va \<longleftrightarrow> in_pages ((a div 4194304 + 1) * 4194304) sz va \<or> in_pages a sz va \<and> unat va div 4194304 = a div 4194304"
proof -
  have "(a div 4194304 + 1) * 4194304 \<le> unat va \<or> unat va div 4194304 = a div 4194304" if "a \<le> unat va"
  proof -
    have "a div 4194304 \<le> unat va div 4194304" using that by (rule div_le_mono)
    moreover have "(a div 4194304 + 1) * 4194304 \<le> unat va" if "a div 4194304 + 1 \<le> unat va div 4194304"
      using mult_le_mono1[OF that, of 4194304] div_times_less_eq_dividend[of "unat va" 4194304] by linarith
    ultimately show ?thesis by linarith
  qed
  moreover have "a \<le> unat va" if "(a div 4194304 + 1) * 4194304 \<le> unat va" using that jump_less[of a] by linarith
  ultimately show ?thesis by (auto simp: in_pages_def)
qed

lemma in_pages_below: "in_pages a (unat sz) va \<Longrightarrow> sz \<le> KERNBASE \<Longrightarrow> va < KERNBASE"
proof -
  assume a: "in_pages a (unat sz) va" "sz \<le> KERNBASE"
  have "unat va div 4096 * 4096 < 524288 * 4096" using a by (simp add: in_pages_def word_le_nat_alt)
  then have "unat va div 4096 < 524288" by simp
  then have "unat va < 524288 * 4096" by (simp add: div_less_iff_less_mult)
  then show ?thesis by (simp add: word_less_nat_alt)
qed

lemma P2V_nonzero: "page_ok e (P2V p) \<Longrightarrow> KERNBASE < e \<Longrightarrow> p \<noteq> 0"
  by (auto simp: page_ok_def P2V_def)

lemma deallocuvm_loop_run:
  assumes "uvm s d fl" "oldsz \<le> KERNBASE" "a mod 4096 = 0"
  shows "\<exists>t fl'. deallocuvm_loop d oldsz a s = Ok () t \<and> uext d s fl t fl' \<and> set fl \<subseteq> set fl' \<and>
    (\<forall>va < KERNBASE. uval (mem t) d va = (if in_pages a (unat oldsz) va then None else uval (mem s) d va))"
  using assms
proof (induction "unat oldsz - a" arbitrary: a s fl rule: less_induct)
  case less
  show ?case
  proof (cases "a < unat oldsz")
    case False
    then show ?thesis using less.prems in_pages_end[of a "unat oldsz"] uext_refl[OF less.prems(1)]
      by (intro exI[of _ s] exI[of _ fl]) (simp add: deallocuvm_loop.simps ret_def)
  next
    case a: True
    let ?a = "of_nat a :: uint"
    have au: "unat ?a = a" using a unat_uint_less[of oldsz] by (intro unat_of_nat_small) (simp add: less_trans)
    have ak: "?a < KERNBASE" using a less.prems(2) au by (simp add: word_less_nat_alt word_le_nat_alt)
    have pg: "PGROUNDDOWN va = PGROUNDDOWN ?a \<longleftrightarrow> unat va div 4096 = a div 4096" for va using page_div[of va ?a] au by simp
    have a4: "(a + 4096) mod 4096 = 0" using less.prems(3) by simp
    have dec: "unat oldsz - (a + 4096) < unat oldsz - a" using a by simp
    note run = walk_noalloc[of d ?a s] bnd_step[where m = "walkpgdir d ?a False"]
    have ok: "pt_ok (kend s) (mem s) d (set fl)" using less.prems(1) by (simp add: uvm_def vm_def)
    show ?thesis
    proof (cases "has_tab (mem s) d ?a")
      case False
      let ?j = "(a div 4194304 + 1) * 4194304"
      have "unat (PGADDR (PDX ?a + 1) 0 0 - PGSIZE) + 4096 = ?j" using next_pde[of a] a unat_uint_less[of oldsz] by simp
      then have e: "deallocuvm_loop d oldsz a s = deallocuvm_loop d oldsz ?j s"
        using False a by (subst deallocuvm_loop.simps) (simp add: run)
      have j1: "?j mod 4096 = 0" using mod_mult_self1_is_0[of 4096 "(a div 4194304 + 1) * 1024"] by (simp add: mult.commute mult.left_commute)
      have j2: "unat oldsz - ?j < unat oldsz - a" using a jump_less[of a] by linarith
      obtain t fl' where t: "deallocuvm_loop d oldsz ?j s = Ok () t" "uext d s fl t fl'" "set fl \<subseteq> set fl'"
        "\<forall>va < KERNBASE. uval (mem t) d va = (if in_pages ?j (unat oldsz) va then None else uval (mem s) d va)"
        using less.hyps[OF j2 less.prems(1,2) j1] by blast
      have "uval (mem s) d va = None" if "unat va div 4194304 = a div 4194304" for va
      proof -
        have "PDX va = PDX ?a" using that au by (simp add: word_unat_eq_iff unat_PDX)
        then have "\<not> has_tab (mem s) d va" using False by (simp add: has_tab_def)
        then show ?thesis by (simp add: uval_def present_def pt_entry_tab)
      qed
      then have "\<forall>va < KERNBASE. uval (mem t) d va = (if in_pages a (unat oldsz) va then None else uval (mem s) d va)"
        using t(4) in_pages_jump[of a "unat oldsz"] by metis
      then show ?thesis unfolding e using t(1-3) by blast
    next
      case h: True
      let ?p = "entry (tab (mem s) d ?a) (PTX ?a)"
      have p: "?p \<noteq> 0" using entry_nonzero[OF pt_okD(7)[OF ok h] PTX_less] .
      have rd: "rd32 (mem s) ?p = pt_entry (mem s) d ?a" using h by (simp add: pt_entry_tab)
      show ?thesis
      proof (cases "present (mem s) d ?a")
        case False
        have e: "deallocuvm_loop d oldsz a s = deallocuvm_loop d oldsz (a + 4096) s"
          using False a h p rd by (subst deallocuvm_loop.simps) (simp add: run load_run present_def)
        obtain t fl' where t: "deallocuvm_loop d oldsz (a + 4096) s = Ok () t" "uext d s fl t fl'" "set fl \<subseteq> set fl'"
          "\<forall>va < KERNBASE. uval (mem t) d va = (if in_pages (a + 4096) (unat oldsz) va then None else uval (mem s) d va)"
          using less.hyps[OF dec less.prems(1,2) a4] by blast
        have n: "uval (mem s) d va = None" if "unat va div 4096 = a div 4096" for va
          using that False page_cong(1)[of va ?a "mem s" d] pg by (simp add: uval_def)
        have "\<forall>va < KERNBASE. uval (mem t) d va = (if in_pages a (unat oldsz) va then None else uval (mem s) d va)"
          using t(4) n in_pages_step[OF less.prems(3) a] by metis
        then show ?thesis unfolding e using t(1-3) by blast
      next
        case True
        let ?f = "frame_of (mem s) d ?a"
        let ?t = "(pushed ?f s)\<lparr>mem := wr32 (mem (pushed ?f s)) ?p 0\<rparr>"
        note f = free_one[OF less.prems(1) ak True refl]
        have nz: "PTE_ADDR (pt_entry (mem s) d ?a) \<noteq> 0"
          by (rule P2V_nonzero[of "kend s"]) (use less.prems(1) us_okD(1)[OF _ ak True] in \<open>auto simp: uvm_def frame_of_def\<close>)
        have "deallocuvm_loop d oldsz a s = deallocuvm_loop d oldsz (a + 4096) ?t"
          using True a h p rd nz f(1)
          by (subst deallocuvm_loop.simps) (simp add: run load_run present_def run_simps store_run frame_of_def bnd_step[where m = "kfree q" for q])
        moreover have "uvm ?t d (?f # fl)" using f(2) by (simp add: uext_def)
        from less.hyps[OF dec this less.prems(2) a4] obtain t fl' where t: "deallocuvm_loop d oldsz (a + 4096) ?t = Ok () t"
          "uext d ?t (?f # fl) t fl'" "set (?f # fl) \<subseteq> set fl'"
          "\<forall>va < KERNBASE. uval (mem t) d va = (if in_pages (a + 4096) (unat oldsz) va then None else uval (mem ?t) d va)" by blast
        moreover have "uext d s fl t fl'" by (rule uext_trans[OF f(2) t(2)])
        moreover have "uval (mem t) d va = (if in_pages a (unat oldsz) va then None else uval (mem s) d va)" if "va < KERNBASE" for va
          using t(4) f(3)[OF that] that in_pages_step[OF less.prems(3) a, of va] pg[of va] by auto
        ultimately show ?thesis by (intro exI[of _ t] exI[of _ fl']) simp
      qed
    qed
  qed
qed


section \<open>Allocating\<close>

text \<open>A page that is taken off the free list is nobody's.\<close>

lemma us_ok_mono: "us_ok e m d F \<Longrightarrow> F' \<subseteq> F \<Longrightarrow> us_ok e m d F'"
  unfolding us_ok_def by blast

lemma pt_ok_mono: "pt_ok e m d F \<Longrightarrow> F' \<subseteq> F \<Longrightarrow> pt_ok e m d F'"
  unfolding pt_ok_def by blast

lemma take_page:
  assumes u: "uvm s d (x # xs)" and t_def: "t = s\<lparr>freelist := rd32 (mem s) x\<rparr>"
  shows "kalloc s = Ok x t" "uvm t d xs" "x \<notin> uroom t d xs" "uroom s d (x # xs) = insert x (uroom t d xs)" "page_ok (kend s) x" "x \<noteq> 0"
proof -
  have f: "free_list s (x # xs)" and ok: "pt_ok (kend s) (mem s) d (set (x # xs))" and us: "us_ok (kend s) (mem s) d (set (x # xs))"
    and kb: "KERNBASE < kend s" using u by (simp_all add: uvm_def vm_def)
  show "kalloc s = Ok x t" unfolding t_def by (rule kalloc_Cons(1)[OF f])
  show "uvm t d xs" using kalloc_Cons(2)[OF f] pt_ok_mono[OF ok] us_ok_mono[OF us] kb by (simp add: uvm_def vm_def t_def subset_insertI)
  have "x \<notin> tabs (mem s) d" using pt_okD(5)[OF ok] by (fastforce simp: tabs_def)
  moreover have "x \<notin> frames (mem s) d" using us_okD(2)[OF us] by (fastforce simp: frames_def)
  ultimately show "x \<notin> uroom t d xs" using f pt_okD(2)[OF ok] by (auto simp: uroom_def troom_def free_list_def t_def)
  show "uroom s d (x # xs) = insert x (uroom t d xs)" by (auto simp: uroom_def troom_def t_def)
  show "page_ok (kend s) x" "x \<noteq> 0" using f by (simp_all add: free_list_def)
qed

lemma vext_room: "vext d s fl t fl' \<Longrightarrow> insert d (tabs (mem t) d \<union> set fl') = insert d (tabs (mem s) d \<union> set fl)"
  by (simp add: vext_def troom_def)

lemma frames_same: "(\<And>vb. pt_entry m' d vb = pt_entry m d vb) \<Longrightarrow> frames m' d = frames m d"
  by (simp add: frames_def present_def frame_of_def)

text \<open>New page tables alone change nothing a process sees.\<close>

lemma frame_troom: "uvm s d fl \<Longrightarrow> va < KERNBASE \<Longrightarrow> present (mem s) d va \<Longrightarrow> frame_of (mem s) d va \<notin> troom s d fl"
  using us_okD[of "kend s" "mem s" d "set fl" va] by (simp add: uvm_def troom_def)

lemma vext_uext:
  assumes u: "uvm s d fl" and v: "vext d s fl t fl'" and en: "\<And>vb. pt_entry (mem t) d vb = pt_entry (mem s) d vb"
  shows "uext d s fl t fl'" "va < KERNBASE \<Longrightarrow> uval (mem t) d va = uval (mem s) d va"
proof -
  have k: "kept s t" "vm t d fl'" "same_off (troom s d fl) (mem s) (mem t)" "troom t d fl' = troom s d fl" using v by (simp_all add: vext_def)
  have us: "us_ok (kend s) (mem s) d (set fl)" using u by (simp add: uvm_def)
  have nw: "present (mem t) d = present (mem s) d" "frame_of (mem t) d = frame_of (mem s) d" using en by (auto simp: present_def frame_of_def)
  have "us_ok (kend t) (mem t) d (set fl')" using us vext_room[OF v] kept_sel(1)[OF k(1)] unfolding us_ok_def nw by simp blast
  then have "uvm t d fl'" using u k kept_sel(1)[OF k(1)] by (simp add: uvm_def)
  moreover have "uroom t d fl' = uroom s d fl" using k(4) frames_same[OF en] by (simp add: uroom_def)
  moreover have "same_off (uroom s d fl) (mem s) (mem t)" by (rule same_off_mono[OF k(3)]) (simp add: uroom_def)
  ultimately show "uext d s fl t fl'" using k(1) en by (simp add: uext_def)
  show "va < KERNBASE \<Longrightarrow> uval (mem t) d va = uval (mem s) d va"
    by (rule uval_same[OF en k(3)]) (rule frame_troom[OF u])
qed

text \<open>Mapping the page \<open>x\<close> at one address.\<close>

lemma map_page:
  assumes u: "uvm s d fl" and va: "va < KERNBASE" "va mod PGSIZE = 0" "\<not> present (mem s) d va"
    and x: "page_ok (kend s) x" "x \<notin> uroom s d fl" and perm: "perm AND 0xFFF = perm"
  shows "\<exists>t fl'. kept s t \<and> uvm t d fl' \<and> same_off (uroom s d fl) (mem s) (mem t) \<and> length fl \<le> length fl' + 1 \<and>
    (mappages d va PGSIZE (V2P x) perm s = Ok 0 t \<and> uroom t d fl' = insert x (uroom s d fl) \<and>
      (\<forall>vb. pt_entry (mem t) d vb = (if PGROUNDDOWN vb = va then V2P x OR perm OR PTE_P else pt_entry (mem s) d vb)) \<and>
      (\<forall>vb < KERNBASE. uval (mem t) d vb = (if PGROUNDDOWN vb = va then Some (mem s (x + (vb AND 0xFFF))) else uval (mem s) d vb)) \<or>
     fl = [] \<and> mappages d va PGSIZE (V2P x) perm s = Ok (- 1) t \<and> uext d s fl t fl' \<and>
      (\<forall>vb < KERNBASE. uval (mem t) d vb = uval (mem s) d vb))"
proof -
  have vm: "vm s d fl" and us: "us_ok (kend s) (mem s) d (set fl)" and kb: "KERNBASE < kend s" using u by (simp_all add: uvm_def)
  have rd: "PGROUNDDOWN va = va" by (rule aligned_round[OF va(2)])
  have "unat (4095 :: uint) < 4096" by simp
  then have "PGROUNDDOWN (va + 4095) = va" by (rule aligned_plus[OF va(2)])
  then have last: "pgidx va (va + PGSIZE - 1) = 0" using pgidx_0[OF va(2)] by (simp add: add.commute)
  have i0: "pgidx va vb = 0 \<longleftrightarrow> PGROUNDDOWN vb = va" for vb using pgidx_0[OF va(2)] .
  have un: "\<forall>vb. pgidx va vb \<le> 0 \<longrightarrow> pt_entry (mem s) d vb AND PTE_P = 0"
  proof (intro allI impI)
    fix vb assume "pgidx va vb \<le> 0"
    then have "PGROUNDDOWN vb = PGROUNDDOWN va" using i0 rd by simp
    from pt_entry_page[OF this] show "pt_entry (mem s) d vb AND PTE_P = 0" using va(3) by (simp add: present_def)
  qed
  obtain t fl' j where t: "j \<le> Suc 0" "mappages d va PGSIZE (V2P x) perm s = Ok (if j = Suc 0 then 0 else - 1) t"
    "vext d s fl t fl'" "length fl \<le> length fl' + j" "j = Suc 0 \<or> length fl \<le> j \<and> fl' = []"
    "\<forall>vb. pt_entry (mem t) d vb = map_range va (V2P x) perm j (pt_entry (mem s) d) vb"
    using mappages_loop_run[OF vm va(2) _ un, of "V2P x" perm] unfolding mappages_loop_eq rd last by auto
  have k: "kept s t" "vm t d fl'" "same_off (troom s d fl) (mem s) (mem t)" "troom t d fl' = troom s d fl" using t(3) by (simp_all add: vext_def)
  have so: "same_off (uroom s d fl) (mem s) (mem t)" by (rule same_off_mono[OF k(3)]) (simp add: uroom_def)
  show ?thesis
  proof (cases "j = Suc 0")
    case False
    then have j: "j = 0" using t(1) by simp
    then have "pt_entry (mem t) d vb = pt_entry (mem s) d vb" for vb using t(6) by (simp add: map_range_def)
    note w = vext_uext[OF u t(3) this]
    show ?thesis using t(2,4,5) k(1) so w unfolding j by (intro exI[of _ t] exI[of _ fl']) (simp add: uext_def)
  next
    case True
    let ?v = "V2P x OR perm OR PTE_P"
    have en: "pt_entry (mem t) d vb = (if PGROUNDDOWN vb = va then ?v else pt_entry (mem s) d vb)" for vb
      using t(6) True i0[of vb] by (cases "pgidx va vb = 0") (simp_all add: map_range_def)
    have en': "pt_entry (mem t) d vb = (if PGROUNDDOWN vb = PGROUNDDOWN va then ?v else pt_entry (mem s) d vb)" for vb
      using en rd by simp
    have xa: "V2P x mod PGSIZE = 0" using x(1) by (simp add: page_ok_def aligned_V2P)
    have "(perm OR PTE_P) AND 0xFFF = perm OR PTE_P" using perm by (simp add: bit.conj_disj_distrib2)
    then have ad: "PTE_ADDR ?v = V2P x" using entry_parts(1)[OF xa] by (simp add: or.assoc)
    have pr: "?v AND PTE_P \<noteq> 0"
    proof -
      have "bit (?v AND PTE_P) 0" by (simp add: bit_and_iff bit_or_iff)
      then show ?thesis by (metis bit_0_eq bot_apply bot_bool_def)
    qed
    have nx: "x \<notin> troom s d fl" "x \<notin> frames (mem s) d" using x(2) by (simp_all add: uroom_def)
    have "us_ok (kend s) (mem t) d (set fl')"
      by (rule us_ok_change[OF us en']) (use x(1) ad nx k(4) vext_room[OF t(3)] in \<open>auto simp: troom_def\<close>)
    then have uv: "uvm t d fl'" using k kb kept_sel(1)[OF k(1)] by (simp add: uvm_def)
    have "frames (mem t) d = insert x (frames (mem s) d)" using frames_change[OF en' us va(1)] va(3) pr ad by simp
    then have room: "uroom t d fl' = insert x (uroom s d fl)" using k(4) by (simp add: uroom_def)
    have "uval (mem t) d vb = (if PGROUNDDOWN vb = va then Some (mem s (x + (vb AND 0xFFF))) else uval (mem s) d vb)" if vb: "vb < KERNBASE" for vb
    proof (cases "PGROUNDDOWN vb = va")
      case True
      have "mem t (x + (vb AND 0xFFF)) = mem s (x + (vb AND 0xFFF))"
        using k(3) nx(1) byte_page[of x vb] x(1) by (simp add: same_off_def page_ok_def)
      then show ?thesis using True en pr ad by (simp add: uval_def present_def frame_of_def)
    next
      case False
      then show ?thesis using uval_same[OF _ k(3), of d vb] frame_troom[OF u vb] en by simp
    qed
    then show ?thesis using True t(2,4) k(1) uv so room en by (intro exI[of _ t] exI[of _ fl']) simp
  qed
qed


text \<open>The page \<open>x\<close> is out of the free list and not yet mapped.\<close>

definition lent :: "uint \<Rightarrow> uint \<Rightarrow> 'a kmem_scheme \<Rightarrow> uint list \<Rightarrow> 'a kmem_scheme \<Rightarrow> uint list \<Rightarrow> bool" where
  "lent d x s fl t fl' \<longleftrightarrow> kept s t \<and> uvm t d fl' \<and> page_ok (kend s) x \<and> x \<notin> uroom t d fl' \<and>
     uroom s d fl = insert x (uroom t d fl') \<and> same_off (uroom s d fl) (mem s) (mem t) \<and>
     (\<forall>va. \<not> va < KERNBASE \<longrightarrow> pt_entry (mem t) d va = pt_entry (mem s) d va)"

lemma lent_take:
  assumes "uvm s d (x # xs)"
  shows "kalloc s = Ok x (s\<lparr>freelist := rd32 (mem s) x\<rparr>)" "lent d x s (x # xs) (s\<lparr>freelist := rd32 (mem s) x\<rparr>) xs" "x \<noteq> 0"
  using take_page[OF assms refl] by (simp_all add: lent_def)

lemma lent_write:
  assumes l: "lent d x s fl t fl'" and t: "same_off {x} (mem t) m"
  shows "lent d x s fl (t\<lparr>mem := m\<rparr>) fl'" "va < KERNBASE \<Longrightarrow> uval m d va = uval (mem t) d va" "pt_entry m d va = pt_entry (mem t) d va"
proof -
  have u: "uvm t d fl'" "{x} \<inter> uroom t d fl' = {}" using l by (simp_all add: lent_def)
  note w = uvm_same[OF u(1) keptI(1) _ _ u(2), of m]
  have "same_off (uroom s d fl) (mem s) m"
    by (rule same_off_trans[of _ _ "mem t"]) (use l same_off_mono[OF t] in \<open>auto simp: lent_def\<close>)
  then show "lent d x s fl (t\<lparr>mem := m\<rparr>) fl'" using l w(1,2,4) t kept_trans[OF _ keptI(1), of s t m] by (simp add: lent_def)
  show "va < KERNBASE \<Longrightarrow> uval m d va = uval (mem t) d va" "pt_entry m d va = pt_entry (mem t) d va" using w(2,5) t by simp_all
qed

lemma lent_uext:
  assumes "lent d x s fl t fl'" "uext d t fl' u fl''"
  shows "lent d x s fl u fl''"
proof -
  have "same_off (uroom s d fl) (mem s) (mem u)"
    by (rule same_off_trans[of _ _ "mem t"]) (use assms in \<open>auto simp: lent_def uext_def elim: same_off_mono\<close>)
  then show ?thesis using assms kept_trans[of s t u] by (simp add: lent_def uext_def)
qed

lemma lent_free:
  assumes l: "lent d x s fl t fl'"
  shows "kfree x t = Ok () (pushed x t)" "uext d s fl (pushed x t) (x # fl')" "va < KERNBASE \<Longrightarrow> uval (mem (pushed x t)) d va = uval (mem t) d va"
proof -
  let ?t = "pushed x t"
  have u: "uvm t d fl'" and x: "page_ok (kend t) x" "x \<notin> uroom t d fl'" and k: "kept s t" using l kept_sel(1)[of s t] by (simp_all add: lent_def)
  have vm: "vm t d fl'" and us: "us_ok (kend t) (mem t) d (set fl')" and kb: "KERNBASE < kend t" using u by (simp_all add: uvm_def)
  have nt: "x \<notin> troom t d fl'" "x \<notin> frames (mem t) d" using x(2) by (simp_all add: uroom_def)
  note p = vm_pushed[OF vm x(1) nt(1)]
  show "kfree x t = Ok () ?t" by (rule p(1))
  have nw: "present (mem ?t) d = present (mem t) d" "frame_of (mem ?t) d = frame_of (mem t) d" using p(3) by (auto simp: present_def frame_of_def)
  have "us_ok (kend t) (mem ?t) d (set (x # fl'))"
    using us nt(2) unfolding us_ok_def nw p(4) by (auto simp: frames_def)
  then have "uvm ?t d (x # fl')" using p(2) kb by (simp add: uvm_def)
  moreover have "uroom ?t d (x # fl') = uroom s d fl" using l frames_same[OF p(3)] p(4) by (auto simp: uroom_def troom_def lent_def)
  moreover have "same_off (uroom s d fl) (mem s) (mem ?t)"
    by (rule same_off_trans[of _ _ "mem t"]) (use l same_off_mono[OF p(5)] in \<open>auto simp: lent_def\<close>)
  ultimately show "uext d s fl ?t (x # fl')" using l p(3) kept_trans[OF k kept_pushed] by (simp add: uext_def lent_def)
  show "va < KERNBASE \<Longrightarrow> uval (mem ?t) d va = uval (mem t) d va"
    by (rule uval_same[OF p(3) p(5)]) (use nt(2) in \<open>auto simp: frames_def\<close>)
qed

lemma lent_map:
  assumes l: "lent d x s fl t fl'" and va: "va < KERNBASE" "va mod PGSIZE = 0" "\<not> present (mem t) d va" and perm: "perm AND 0xFFF = perm"
  shows "\<exists>u fl''. length fl' \<le> length fl'' + 1 \<and>
    (mappages d va PGSIZE (V2P x) perm t = Ok 0 u \<and> uext d s fl u fl'' \<and>
      (\<forall>vb. pt_entry (mem u) d vb = (if PGROUNDDOWN vb = va then V2P x OR perm OR PTE_P else pt_entry (mem t) d vb)) \<and>
      (\<forall>vb < KERNBASE. uval (mem u) d vb = (if PGROUNDDOWN vb = va then Some (mem t (x + (vb AND 0xFFF))) else uval (mem t) d vb)) \<or>
     fl' = [] \<and> mappages d va PGSIZE (V2P x) perm t = Ok (- 1) u \<and> lent d x s fl u fl'' \<and>
      (\<forall>vb < KERNBASE. uval (mem u) d vb = uval (mem t) d vb))"
proof -
  have u: "uvm t d fl'" and x: "page_ok (kend t) x" "x \<notin> uroom t d fl'" and k: "kept s t" using l kept_sel(1)[of s t] by (simp_all add: lent_def)
  obtain u fl'' where m: "kept t u" "uvm u d fl''" "same_off (uroom t d fl') (mem t) (mem u)" "length fl' \<le> length fl'' + 1" and
    c: "mappages d va PGSIZE (V2P x) perm t = Ok 0 u \<and> uroom u d fl'' = insert x (uroom t d fl') \<and>
      (\<forall>vb. pt_entry (mem u) d vb = (if PGROUNDDOWN vb = va then V2P x OR perm OR PTE_P else pt_entry (mem t) d vb)) \<and>
      (\<forall>vb < KERNBASE. uval (mem u) d vb = (if PGROUNDDOWN vb = va then Some (mem t (x + (vb AND 0xFFF))) else uval (mem t) d vb)) \<or>
     fl' = [] \<and> mappages d va PGSIZE (V2P x) perm t = Ok (- 1) u \<and> uext d t fl' u fl'' \<and>
      (\<forall>vb < KERNBASE. uval (mem u) d vb = uval (mem t) d vb)"
    using map_page[OF u va x perm] by blast
  from c show ?thesis
  proof
    assume c: "mappages d va PGSIZE (V2P x) perm t = Ok 0 u \<and> uroom u d fl'' = insert x (uroom t d fl') \<and>
      (\<forall>vb. pt_entry (mem u) d vb = (if PGROUNDDOWN vb = va then V2P x OR perm OR PTE_P else pt_entry (mem t) d vb)) \<and>
      (\<forall>vb < KERNBASE. uval (mem u) d vb = (if PGROUNDDOWN vb = va then Some (mem t (x + (vb AND 0xFFF))) else uval (mem t) d vb))"
    have "PGROUNDDOWN vb \<noteq> va" if "\<not> vb < KERNBASE" for vb using below_kernbase[OF va(1), of vb] aligned_round[OF va(2)] that by auto
    then have "pt_entry (mem u) d vb = pt_entry (mem s) d vb" if "\<not> vb < KERNBASE" for vb using that c l by (simp add: lent_def)
    moreover have "same_off (uroom s d fl) (mem s) (mem u)"
      by (rule same_off_trans[of _ _ "mem t"]) (use l same_off_mono[OF m(3)] in \<open>auto simp: lent_def\<close>)
    ultimately have "uext d s fl u fl''" using c l m(2) kept_trans[OF k m(1)] by (simp add: uext_def lent_def)
    then show ?thesis using c m(4) by blast
  next
    assume c: "fl' = [] \<and> mappages d va PGSIZE (V2P x) perm t = Ok (- 1) u \<and> uext d t fl' u fl'' \<and>
      (\<forall>vb < KERNBASE. uval (mem u) d vb = uval (mem t) d vb)"
    then show ?thesis using lent_uext[OF l] m(4) by blast
  qed
qed


lemma zero_lent:
  assumes "lent d x s fl t fl'"
  shows "same_off {x} (mem t) (memset (mem t) x 0 PGSIZE)" "memset (mem t) x 0 PGSIZE (x + (va AND 0xFFF)) = 0"
proof -
  have a: "x mod PGSIZE = 0" using assms by (simp add: lent_def page_ok_def)
  show "same_off {x} (mem t) (memset (mem t) x 0 PGSIZE)" by (rule same_off_memset[OF a])
  show "memset (mem t) x 0 PGSIZE (x + (va AND 0xFFF)) = 0"
    using page_addr_iff[OF a] byte_page[OF a] by (simp add: memset_eq)
qed

text \<open>The number of pages still to allocate.\<close>

definition npages :: "nat \<Rightarrow> nat \<Rightarrow> nat" where
  "npages a sz = (sz + 4095 - a) div 4096"

lemma npages_step: "a < sz \<Longrightarrow> npages a sz = Suc (npages (a + 4096) sz)"
proof -
  assume "a < sz"
  then have "sz + 4095 - a = 4096 + (sz - a - 1)" "sz + 4095 - (a + 4096) = sz - a - 1" by simp_all
  then show ?thesis unfolding npages_def by simp
qed

lemma deallocuvm_run:
  assumes "uvm s d fl" "oldsz \<le> KERNBASE" "newsz < oldsz"
  shows "\<exists>t fl'. deallocuvm d oldsz newsz s = Ok newsz t \<and> uext d s fl t fl' \<and>
    (\<forall>va < KERNBASE. uval (mem t) d va = (if in_pages (unat (PGROUNDUP newsz)) (unat oldsz) va then None else uval (mem s) d va))"
proof -
  have "unat newsz \<le> 0xFFFFF000" using assms(2,3) by (simp add: word_less_nat_alt word_le_nat_alt)
  then have "unat (PGROUNDUP newsz) mod 4096 = 0" by (simp add: unat_PGROUNDUP)
  from deallocuvm_loop_run[OF assms(1,2) this] obtain t fl' where
    t: "deallocuvm_loop d oldsz (unat (PGROUNDUP newsz)) s = Ok () t" "uext d s fl t fl'"
      "\<forall>va < KERNBASE. uval (mem t) d va = (if in_pages (unat (PGROUNDUP newsz)) (unat oldsz) va then None else uval (mem s) d va)"
    by blast
  have "deallocuvm d oldsz newsz s = Ok newsz t"
    using assms(3) t(1) by (simp add: deallocuvm_def bnd_def ret_def not_le[symmetric])
  then show ?thesis using t(2,3) by blast
qed

text \<open>The failure branches of \<open>allocuvm\<close>: what was allocated so far is freed again.\<close>

lemma undo_alloc:
  assumes u: "uvm t d fl'" "newsz < KERNBASE" "oldsz < newsz" "A = unat (PGROUNDUP oldsz)"
    and same: "\<forall>va < KERNBASE. uval (mem t) d va = uval (mem s) d va"
  shows "\<exists>u fl''. deallocuvm d newsz oldsz t = Ok oldsz u \<and> uext d t fl' u fl'' \<and>
    (\<forall>va < KERNBASE. uval (mem u) d va = (if in_pages A (unat newsz) va then None else uval (mem s) d va))"
proof -
  have "newsz \<le> KERNBASE" using u(2) by simp
  from deallocuvm_run[OF u(1) this u(3)] same show ?thesis unfolding u(4) by auto
qed

lemma allocuvm_loop_run:
  assumes "uvm s d fl" "newsz < KERNBASE" "oldsz \<le> newsz" "a mod 4096 = 0" "A = unat (PGROUNDUP oldsz)" "A \<le> a"
    "\<forall>va. in_pages a (unat newsz) va \<longrightarrow> uval (mem s) d va = None"
  shows "\<exists>r t fl'. allocuvm_loop d oldsz newsz a s = Ok r t \<and> uext d s fl t fl' \<and>
    (r = newsz \<and> length fl \<le> length fl' + 2 * npages a (unat newsz) \<and> (\<forall>va < KERNBASE. uval (mem t) d va = (if in_pages a (unat newsz) va then Some 0 else uval (mem s) d va)) \<or>
     r = 0 \<and> length fl < 2 * npages a (unat newsz) \<and>
       (\<forall>va < KERNBASE. uval (mem t) d va = (if in_pages A (unat newsz) va then None else uval (mem s) d va)))"
  using assms
proof (induction "unat newsz - a" arbitrary: a s fl rule: less_induct)
  case less
  show ?case
  proof (cases "a < unat newsz")
    case False
    then show ?thesis using less.prems(4) in_pages_end[of a "unat newsz"] uext_refl[OF less.prems(1)]
      by (intro exI[of _ newsz] exI[of _ s] exI[of _ fl]) (simp add: allocuvm_loop.simps ret_def)
  next
    case a: True
    let ?a = "of_nat a :: uint"
    have au: "unat ?a = a" using a unat_uint_less[of newsz] by (intro unat_of_nat_small) (simp add: less_trans)
    have ak: "?a < KERNBASE" using a less.prems(2) au by (simp add: word_less_nat_alt)
    have aa: "?a mod PGSIZE = 0" using less.prems(4) au by (simp add: aligned_mod[symmetric])
    have pg: "PGROUNDDOWN va = ?a \<longleftrightarrow> unat va div 4096 = a div 4096" for va
      using page_div[of va ?a] au aligned_round[OF aa] by simp
    have old: "oldsz < newsz"
    proof -
      have "unat oldsz \<le> A" unfolding less.prems(5) by (rule PGROUNDUP_ge) (use less.prems(2,3) in \<open>simp add: word_less_nat_alt word_le_nat_alt\<close>)
      then show ?thesis using a less.prems(6) by (simp add: word_less_nat_alt)
    qed
    note n = npages_step[OF a]
    show ?thesis
    proof (cases fl)
      case Nil
      have k: "kalloc s = Ok 0 s" using less.prems(1) Nil by (simp add: kalloc_Nil uvm_def vm_def)
      obtain u fl'' where u: "deallocuvm d newsz oldsz s = Ok oldsz u" "uext d s fl u fl''"
        "\<forall>va < KERNBASE. uval (mem u) d va = (if in_pages A (unat newsz) va then None else uval (mem s) d va)"
        using undo_alloc[OF less.prems(1,2) old less.prems(5), of s] by auto
      have "allocuvm_loop d oldsz newsz a s = Ok 0 u"
        using a k u(1) by (subst allocuvm_loop.simps) (simp add: bnd_def ret_def)
      then show ?thesis using u(2,3) n Nil by auto
    next
      case (Cons x xs)
      let ?s1 = "s\<lparr>freelist := rd32 (mem s) x\<rparr>"
      let ?m = "memset (mem s) x 0 PGSIZE"
      let ?s2 = "?s1\<lparr>mem := ?m\<rparr>"
      note k = lent_take[OF less.prems(1)[unfolded Cons], folded Cons]
      note z = zero_lent[OF k(2)]
      note w = lent_write[OF k(2) z(1)]
      have "in_pages a (unat newsz) ?a" using in_pages_step[OF less.prems(4) a, of ?a] au by simp
      then have np: "\<not> present (mem s) d ?a" using less.prems(7) by (auto simp: uval_def)
      then have np2: "\<not> present (mem ?s2) d ?a" using w(3) by (simp add: present_def)
      have pm: "(PTE_W OR PTE_U) AND 0xFFF = PTE_W OR PTE_U" by simp
      have e: "allocuvm_loop d oldsz newsz a s = bnd (mappages d ?a PGSIZE (V2P x) (PTE_W OR PTE_U)) (\<lambda>r.
          if r < 0 then seq (deallocuvm d newsz oldsz) (seq (kfree x) (ret 0)) else allocuvm_loop d oldsz newsz (a + 4096)) ?s2"
        using a k(1,3) by (subst allocuvm_loop.simps) (simp add: bnd_step[where m = kalloc] zero_page_run)
      obtain u fl'' where lf: "length xs \<le> length fl'' + 1" and
        c: "mappages d ?a PGSIZE (V2P x) (PTE_W OR PTE_U) ?s2 = Ok 0 u \<and> uext d s fl u fl'' \<and>
          (\<forall>vb < KERNBASE. uval (mem u) d vb = (if PGROUNDDOWN vb = ?a then Some (?m (x + (vb AND 0xFFF))) else uval ?m d vb)) \<or>
         xs = [] \<and> mappages d ?a PGSIZE (V2P x) (PTE_W OR PTE_U) ?s2 = Ok (- 1) u \<and> lent d x s fl u fl'' \<and>
          (\<forall>vb < KERNBASE. uval (mem u) d vb = uval ?m d vb)"
        using lent_map[OF w(1)[simplified] ak aa _ pm] np2 by auto
      from c show ?thesis
      proof
        assume c: "mappages d ?a PGSIZE (V2P x) (PTE_W OR PTE_U) ?s2 = Ok 0 u \<and> uext d s fl u fl'' \<and>
          (\<forall>vb < KERNBASE. uval (mem u) d vb = (if PGROUNDDOWN vb = ?a then Some (?m (x + (vb AND 0xFFF))) else uval ?m d vb))"
        have v: "uval (mem u) d vb = (if unat vb div 4096 = a div 4096 then Some 0 else uval (mem s) d vb)" if "vb < KERNBASE" for vb
          using c that z(2)[of vb] w(2)[OF that] pg[of vb] by simp
        have ip: "in_pages (a + 4096) (unat newsz) va \<Longrightarrow> va < KERNBASE \<and> unat va div 4096 \<noteq> a div 4096 \<and> in_pages a (unat newsz) va" for va
        proof -
          assume i: "in_pages (a + 4096) (unat newsz) va"
          have "a + 4096 \<le> unat va" using i by (simp add: in_pages_def)
          then have "a div 4096 + 1 \<le> unat va div 4096" using div_le_mono[of "a + 4096" "unat va" 4096] by simp
          then show ?thesis using i in_pages_step[OF less.prems(4) a, of va] in_pages_below[OF i] less.prems(2) by auto
        qed
        then have h1: "\<forall>va. in_pages (a + 4096) (unat newsz) va \<longrightarrow> uval (mem u) d va = None" using v less.prems(7) by simp
        have h2: "uvm u d fl''" "unat newsz - (a + 4096) < unat newsz - a" "(a + 4096) mod 4096 = 0" "A \<le> a + 4096"
          using c a less.prems(4,6) by (auto simp: uext_def)
        obtain r t fl' where t: "allocuvm_loop d oldsz newsz (a + 4096) u = Ok r t" "uext d u fl'' t fl'" and
          q: "r = newsz \<and> length fl'' \<le> length fl' + 2 * npages (a + 4096) (unat newsz) \<and> (\<forall>va < KERNBASE. uval (mem t) d va = (if in_pages (a + 4096) (unat newsz) va then Some 0 else uval (mem u) d va)) \<or>
           r = 0 \<and> length fl'' < 2 * npages (a + 4096) (unat newsz) \<and>
             (\<forall>va < KERNBASE. uval (mem t) d va = (if in_pages A (unat newsz) va then None else uval (mem u) d va))"
          using less.hyps[OF h2(2,1) less.prems(2,3) h2(3) less.prems(5) h2(4) h1] by blast
        have run: "allocuvm_loop d oldsz newsz a s = Ok r t" using e c t(1) by (simp add: bnd_def)
        have ex: "uext d s fl t fl'" using uext_trans[OF _ t(2)] c by blast
        have iA: "in_pages A (unat newsz) va" if "in_pages a (unat newsz) va" for va using that less.prems(6) by (simp add: in_pages_def)
        have st: "in_pages a (unat newsz) va \<longleftrightarrow> unat va div 4096 = a div 4096 \<or> in_pages (a + 4096) (unat newsz) va" for va
          by (rule in_pages_step[OF less.prems(4) a])
        from q show ?thesis
        proof
          assume q: "r = newsz \<and> length fl'' \<le> length fl' + 2 * npages (a + 4096) (unat newsz) \<and> (\<forall>va < KERNBASE. uval (mem t) d va = (if in_pages (a + 4096) (unat newsz) va then Some 0 else uval (mem u) d va))"
          have "\<forall>va < KERNBASE. uval (mem t) d va = (if in_pages a (unat newsz) va then Some 0 else uval (mem s) d va)"
            using q v st by auto
          moreover have "length fl \<le> length fl' + 2 * npages a (unat newsz)" using q lf n Cons by simp
          ultimately show ?thesis using run ex q by blast
        next
          assume q: "r = 0 \<and> length fl'' < 2 * npages (a + 4096) (unat newsz) \<and>
             (\<forall>va < KERNBASE. uval (mem t) d va = (if in_pages A (unat newsz) va then None else uval (mem u) d va))"
          have "\<forall>va < KERNBASE. uval (mem t) d va = (if in_pages A (unat newsz) va then None else uval (mem s) d va)"
            using q v st iA by auto
          moreover have "length fl < 2 * npages a (unat newsz)" using q lf n Cons by simp
          ultimately show ?thesis using run ex q by blast
        qed
      next
        assume c: "xs = [] \<and> mappages d ?a PGSIZE (V2P x) (PTE_W OR PTE_U) ?s2 = Ok (- 1) u \<and> lent d x s fl u fl'' \<and>
          (\<forall>vb < KERNBASE. uval (mem u) d vb = uval ?m d vb)"
        have "uvm u d fl''" "\<forall>va < KERNBASE. uval (mem u) d va = uval (mem s) d va" using c w(2) by (auto simp: lent_def)
        from undo_alloc[OF this(1) less.prems(2) old less.prems(5) this(2)] obtain t fl' where
          t: "deallocuvm d newsz oldsz u = Ok oldsz t" "uext d u fl'' t fl'"
          "\<forall>va < KERNBASE. uval (mem t) d va = (if in_pages A (unat newsz) va then None else uval (mem s) d va)" by blast
        have "lent d x s fl t fl'" using lent_uext[OF _ t(2)] c by blast
        note f = lent_free[OF this]
        have "allocuvm_loop d oldsz newsz a s = Ok 0 (pushed x t)" using e c t(1) f(1) by (simp add: bnd_def ret_def)
        moreover have "\<forall>va < KERNBASE. uval (mem (pushed x t)) d va = (if in_pages A (unat newsz) va then None else uval (mem s) d va)"
          using t(3) f(3) by simp
        moreover have "length fl < 2 * npages a (unat newsz)" using c n Cons by simp
        ultimately show ?thesis using f(2) by blast
      qed
    qed
  qed
qed


lemma allocuvm_run:
  assumes "uvm s d fl" "oldsz \<le> newsz" "newsz < KERNBASE"
    and "\<And>va. in_pages (unat (PGROUNDUP oldsz)) (unat newsz) va \<Longrightarrow> uval (mem s) d va = None"
  shows "\<exists>r t fl'. allocuvm d oldsz newsz s = Ok r t \<and> uext d s fl t fl' \<and>
    (r = newsz \<and> length fl \<le> length fl' + 2 * npages (unat (PGROUNDUP oldsz)) (unat newsz) \<and> (\<forall>va. va < KERNBASE \<longrightarrow> uval (mem t) d va =
       (if in_pages (unat (PGROUNDUP oldsz)) (unat newsz) va then Some 0 else uval (mem s) d va)) \<or>
     r = 0 \<and> length fl < 2 * npages (unat (PGROUNDUP oldsz)) (unat newsz) \<and>
       (\<forall>va. va < KERNBASE \<longrightarrow> uval (mem t) d va = uval (mem s) d va))"
proof -
  let ?A = "unat (PGROUNDUP oldsz)"
  have "unat oldsz \<le> 0xFFFFF000" using assms(2,3) by (simp add: word_less_nat_alt word_le_nat_alt)
  then have "?A mod 4096 = 0" by (simp add: unat_PGROUNDUP)
  from allocuvm_loop_run[OF assms(1,3,2) this refl order_refl] assms(4) obtain r t fl' where
    t: "allocuvm_loop d oldsz newsz ?A s = Ok r t" "uext d s fl t fl'" and
    c: "r = newsz \<and> length fl \<le> length fl' + 2 * npages ?A (unat newsz) \<and> (\<forall>va < KERNBASE. uval (mem t) d va = (if in_pages ?A (unat newsz) va then Some 0 else uval (mem s) d va)) \<or>
     r = 0 \<and> length fl < 2 * npages ?A (unat newsz) \<and>
       (\<forall>va < KERNBASE. uval (mem t) d va = (if in_pages ?A (unat newsz) va then None else uval (mem s) d va))" by blast
  have "allocuvm d oldsz newsz s = Ok r t" using assms(2,3) t(1) by (simp add: allocuvm_def not_le[symmetric])
  moreover have "uval (mem s) d va = (if in_pages ?A (unat newsz) va then None else uval (mem s) d va)" for va using assms(4) by simp
  ultimately show ?thesis using t(2) c by (intro exI[of _ r] exI[of _ t] exI[of _ fl']) simp
qed

text \<open>
  C6: \<open>deallocuvm\<close> on a well-formed user address space succeeds and returns the smaller size. Exactly
  the pages from the new size, rounded up, to the old one disappear; every other byte the
  process sees is unchanged. The pages freed are back in the allocator: the set of pages that are
  free, hold the page table or are mapped is the same as before.
\<close>
theorem deallocuvm_frees:
  assumes "uvm s d fl" "oldsz \<le> KERNBASE"
  shows "\<exists>t fl'. deallocuvm d oldsz newsz s = Ok (min oldsz newsz) t \<and> uvm t d fl' \<and> uroom t d fl' = uroom s d fl \<and>
    same_off (uroom s d fl) (mem s) (mem t) \<and>
    (\<forall>va. va < KERNBASE \<longrightarrow> uval (mem t) d va =
       (if newsz < oldsz \<and> in_pages (unat (PGROUNDUP newsz)) (unat oldsz) va then None else uval (mem s) d va))"
proof (cases "newsz < oldsz")
  case True
  from deallocuvm_run[OF assms True] obtain t fl' where "deallocuvm d oldsz newsz s = Ok newsz t" "uext d s fl t fl'"
    "\<forall>va < KERNBASE. uval (mem t) d va = (if in_pages (unat (PGROUNDUP newsz)) (unat oldsz) va then None else uval (mem s) d va)" by blast
  then show ?thesis using True by (intro exI[of _ t] exI[of _ fl']) (simp add: uext_def min_def not_le[symmetric])
next
  case False
  then have "deallocuvm d oldsz newsz s = Ok (min oldsz newsz) s" by (simp add: deallocuvm_def ret_def min_def not_less)
  then show ?thesis using False uext_refl[OF assms(1)] by (intro exI[of _ s] exI[of _ fl]) (simp add: uext_def)
qed


lemma empty_dir_uvm: "uvm empty_dir 0x80200000 [0x80201000, 0x80202000]" "uval (mem empty_dir) 0x80200000 va = None"
proof -
  have n: "\<not> present (mem empty_dir) 0x80200000 va" for va by (simp add: present_def empty_dir_vm(2))
  then show "uvm empty_dir 0x80200000 [0x80201000, 0x80202000]"
    using empty_dir_vm(1) by (simp add: uvm_def us_ok_def) (simp add: empty_dir_def)
  show "uval (mem empty_dir) 0x80200000 va = None" using n by (simp add: uval_def)
qed


lemma one_page:
  "\<exists>t fl. allocuvm 0x80200000 0 0x1000 empty_dir = Ok 0x1000 t \<and> uvm t 0x80200000 fl \<and> uval (mem t) 0x80200000 0x123 = Some 0"
proof -
  have p: "PGROUNDUP 0 = 0" by (simp add: PGROUNDUP_def)
  have i: "in_pages 0 4096 0x123" "npages 0 4096 = 1" by (simp_all add: in_pages_def npages_def)
  show ?thesis using allocuvm_run[OF empty_dir_uvm(1), where oldsz = 0 and newsz = "0x1000"] i empty_dir_uvm(2) by (auto simp: p uext_def)
qed

theorem deallocuvm_frees_witness:
  "\<exists>t u. allocuvm 0x80200000 0 0x1000 empty_dir = Ok 0x1000 t \<and> uval (mem t) 0x80200000 0x123 = Some 0 \<and>
     deallocuvm 0x80200000 0x1000 0 t = Ok 0 u \<and> uval (mem u) 0x80200000 0x123 = None"
proof -
  obtain t fl where t: "allocuvm 0x80200000 0 0x1000 empty_dir = Ok 0x1000 t" "uvm t 0x80200000 fl" "uval (mem t) 0x80200000 0x123 = Some 0"
    using one_page by blast
  have p: "PGROUNDUP 0 = 0" by (simp add: PGROUNDUP_def)
  have i: "in_pages 0 4096 0x123" by (simp add: in_pages_def)
  show ?thesis using deallocuvm_frees[OF t(2), where oldsz = "0x1000" and newsz = 0] t(1,3) i by (auto simp: p min_def)
qed

end
