(* ===== verification/Kvm.thy ===== *)
theory Kvm
  imports Uvm
begin

text \<open>
  Whole page tables: \<open>freevm\<close> gives back every page of an address space, and \<open>setupkvm\<close> makes the
  address space every process has above \<open>KERNBASE\<close>, the direct map of physical memory.
\<close>

section \<open>Freeing a page table\<close>

definition dent :: "memory \<Rightarrow> uint \<Rightarrow> nat \<Rightarrow> uint" where
  "dent m d i = rd32 m (entry d (of_nat i))"

definition dtabs :: "memory \<Rightarrow> uint \<Rightarrow> nat set \<Rightarrow> uint set" where
  "dtabs m d I = {P2V (PTE_ADDR (dent m d i)) | i. i \<in> I \<and> dent m d i AND PTE_P \<noteq> 0}"

text \<open>The body of the last loop of \<open>freevm\<close>.\<close>

abbreviation free_tab :: "uint \<Rightarrow> nat \<Rightarrow> ('a kmem_scheme, unit) kop" where
  "free_tab d i \<equiv> bnd (load (entry d (of_nat i))) (\<lambda>pde. if pde AND PTE_P \<noteq> 0 then kfree (P2V (PTE_ADDR pde)) else ret ())"

lemma free_tab_run:
  "free_tab d i s = (if dent (mem s) d i AND PTE_P \<noteq> 0 then kfree (P2V (PTE_ADDR (dent (mem s) d i))) s else Ok () s)"
  by (simp add: load_run dent_def ret_def)

lemma unat_index: "i < 1024 \<Longrightarrow> unat (of_nat i :: uint) = i"
  by (rule unat_of_nat_small) simp

lemma dent_same:
  assumes "same_off P m m'" "d \<notin> P" "d mod PGSIZE = 0" "i < 1024"
  shows "dent m' d i = dent m d i"
  unfolding dent_def by (rule rd32_same_off[OF assms(1-3)]) (use assms(4) unat_index in simp)

lemma dtabs_same:
  assumes "same_off P m m'" "d \<notin> P" "d mod PGSIZE = 0" "I \<subseteq> {..<1024}"
  shows "dtabs m' d I = dtabs m d I"
  using dent_same[OF assms(1-3)] assms(4) unfolding dtabs_def by (metis (no_types, lifting) lessThan_iff subsetD)

lemma dtabs_insert: "dtabs m d (insert i I) = dtabs m d I \<union> (if dent m d i AND PTE_P \<noteq> 0 then {P2V (PTE_ADDR (dent m d i))} else {})"
  by (auto simp: dtabs_def)

lemma PDX_surj: "i < 1024 \<Longrightarrow> \<exists>va. PDX va = of_nat i"
proof -
  assume i: "i < 1024"
  have "unat (push_bit 22 (of_nat i) :: uint) = i * 4194304"
    using i by (simp add: push_bit_eq_mult unat_word_ariths unat_index)
  then have "unat (PDX (push_bit 22 (of_nat i))) = i" by (simp add: unat_PDX)
  then have "PDX (push_bit 22 (of_nat i)) = of_nat i" using i by (simp add: word_unat_eq_iff unat_index)
  then show ?thesis by blast
qed

lemma dtabs_tabs: "dtabs m d {..<1024} = tabs m d"
proof (rule set_eqI, rule iffI)
  fix x assume "x \<in> dtabs m d {..<1024}"
  then obtain i where i: "i < 1024" "x = P2V (PTE_ADDR (dent m d i))" "dent m d i AND PTE_P \<noteq> 0" by (auto simp: dtabs_def)
  obtain va where "PDX va = of_nat i" using PDX_surj[OF i(1)] by blast
  then have "has_tab m d va" "x = tab m d va" using i(2,3) by (simp_all add: has_tab_def tab_def dent_def)
  then show "x \<in> tabs m d" by (auto simp: tabs_def)
next
  fix x assume "x \<in> tabs m d"
  then obtain va where v: "has_tab m d va" "x = tab m d va" by (auto simp: tabs_def)
  have "dent m d (unat (PDX va)) = rd32 m (entry d (PDX va))" by (simp add: dent_def)
  then show "x \<in> dtabs m d {..<1024}" using v PDX_less[of va]
    by (auto simp: dtabs_def has_tab_def tab_def intro!: exI[of _ "unat (PDX va)"])
qed

lemma free_tables:
  assumes "free_list s fl" "page_ok (kend s) d" "d \<notin> set fl" "distinct is" "set is \<subseteq> {..<1024}"
    "\<And>i. i \<in> set is \<Longrightarrow> dent (mem s) d i AND PTE_P \<noteq> 0 \<Longrightarrow>
       page_ok (kend s) (P2V (PTE_ADDR (dent (mem s) d i))) \<and> P2V (PTE_ADDR (dent (mem s) d i)) \<notin> insert d (set fl)"
    "\<And>i j. i \<in> set is \<Longrightarrow> j \<in> set is \<Longrightarrow> dent (mem s) d i AND PTE_P \<noteq> 0 \<Longrightarrow> dent (mem s) d j AND PTE_P \<noteq> 0 \<Longrightarrow>
       P2V (PTE_ADDR (dent (mem s) d i)) = P2V (PTE_ADDR (dent (mem s) d j)) \<Longrightarrow> i = j"
  shows "\<exists>t fl'. foreach is (free_tab d) s = Ok () t \<and> kept s t \<and>
    free_list t fl' \<and> set fl' = set fl \<union> dtabs (mem s) d (set is) \<and> same_off (dtabs (mem s) d (set is)) (mem s) (mem t)"
  using assms
proof (induction "is" arbitrary: s fl)
  case Nil
  then show ?case by (intro exI[of _ s] exI[of _ fl]) (simp add: ret_def dtabs_def)
next
  case (Cons i "is" s fl)
  have d: "d mod PGSIZE = 0" using Cons.prems(2) by (simp add: page_ok_def)
  have sub: "set is \<subseteq> {..<1024}" "i < 1024" using Cons.prems(5) by auto
  let ?x = "P2V (PTE_ADDR (dent (mem s) d i))"
  show ?case
  proof (cases "dent (mem s) d i AND PTE_P \<noteq> 0")
    case False
    obtain t fl' where "foreach is (free_tab d) s = Ok () t" "kept s t"
      "free_list t fl'" "set fl' = set fl \<union> dtabs (mem s) d (set is)" "same_off (dtabs (mem s) d (set is)) (mem s) (mem t)"
    proof (atomize_elim, rule Cons.IH[OF Cons.prems(1-3) _ sub(1)])
      show "distinct is" using Cons.prems(4) by simp
    qed (use Cons.prems(6,7) in \<open>auto simp del: free_tab_run\<close>)
    moreover have one: "free_tab d i s = Ok () s" using False by (simp add: free_tab_run)
    ultimately show ?thesis using False
      by (intro exI[of _ t] exI[of _ fl']) (simp add: dtabs_insert bnd_step[where m = "free_tab d i" and s = s, OF one])
  next
    case True
    have x: "page_ok (kend s) ?x" "?x \<notin> set fl" "?x \<noteq> d" using Cons.prems(6)[of i] True by auto
    note f = kfree_Ok[OF Cons.prems(1) x(1,2)]
    have o: "same_off {?x} (mem s) (mem (pushed ?x s))" using x(1) by (intro same_off_pushed) (simp add: page_ok_def)
    have nd: "d \<notin> {?x}" using x(3) by simp
    have e: "dent (mem (pushed ?x s)) d j = dent (mem s) d j" if "j < 1024" for j by (rule dent_same[OF o nd d that])
    have t: "dtabs (mem (pushed ?x s)) d (set is) = dtabs (mem s) d (set is)" by (rule dtabs_same[OF o nd d sub(1)])
    have "\<exists>t fl'. foreach is (free_tab d) (pushed ?x s) = Ok () t \<and> kept (pushed ?x s) t \<and>
      free_list t fl' \<and> set fl' = set (?x # fl) \<union> dtabs (mem (pushed ?x s)) d (set is) \<and>
      same_off (dtabs (mem (pushed ?x s)) d (set is)) (mem (pushed ?x s)) (mem t)"
    proof (rule Cons.IH[OF f(2) _ _ _ sub(1)])
      show "page_ok (kend (pushed ?x s)) d" "d \<notin> set (?x # fl)" "distinct is" using Cons.prems(2-4) x(3) by auto
      fix j assume j: "j \<in> set is" "dent (mem (pushed ?x s)) d j AND PTE_P \<noteq> 0"
      have "j < 1024" using j(1) sub(1) by auto
      note ej = e[OF this]
      have "i \<noteq> j" using j(1) Cons.prems(4) by auto
      then have "P2V (PTE_ADDR (dent (mem s) d j)) \<noteq> ?x" using Cons.prems(7)[of i j] j True unfolding ej by auto
      then show "page_ok (kend (pushed ?x s)) (P2V (PTE_ADDR (dent (mem (pushed ?x s)) d j))) \<and>
          P2V (PTE_ADDR (dent (mem (pushed ?x s)) d j)) \<notin> insert d (set (?x # fl))"
        using j Cons.prems(6)[of j] unfolding ej by simp
    next
      fix j k assume "j \<in> set is" "k \<in> set is" "dent (mem (pushed ?x s)) d j AND PTE_P \<noteq> 0" "dent (mem (pushed ?x s)) d k AND PTE_P \<noteq> 0"
        "P2V (PTE_ADDR (dent (mem (pushed ?x s)) d j)) = P2V (PTE_ADDR (dent (mem (pushed ?x s)) d k))"
      moreover have "j < 1024" "k < 1024" using calculation sub(1) by auto
      ultimately show "j = k" using Cons.prems(7)[of j k] by (simp add: e)
    qed
    then obtain t fl' where t': "foreach is (free_tab d) (pushed ?x s) = Ok () t" "kept (pushed ?x s) t"
      "free_list t fl'" "set fl' = set (?x # fl) \<union> dtabs (mem s) d (set is)" "same_off (dtabs (mem s) d (set is)) (mem (pushed ?x s)) (mem t)"
      unfolding t by blast
    have one: "free_tab d i s = Ok () (pushed ?x s)" using True f(1) by (simp add: free_tab_run)
    have "same_off (dtabs (mem s) d (set (i # is))) (mem s) (mem t)"
      by (rule same_off_trans[OF same_off_mono[OF o] same_off_mono[OF t'(5)]]) (use True in \<open>auto simp: dtabs_insert\<close>)
    moreover have "foreach (i # is) (free_tab d) s = Ok () t"
      using t'(1) by (simp add: bnd_step[where m = "free_tab d i" and s = s, OF one])
    moreover have "set fl' = set fl \<union> dtabs (mem s) d (set (i # is))" using t'(4) True by (auto simp: dtabs_insert)
    ultimately show ?thesis using t'(3) kept_trans[OF kept_pushed t'(2)] by blast
  qed
qed


lemma dent_tab:
  assumes "PDX va = of_nat i"
  shows "has_tab m d va \<longleftrightarrow> dent m d i AND PTE_P \<noteq> 0" "tab m d va = P2V (PTE_ADDR (dent m d i))"
  by (simp_all add: has_tab_def tab_def dent_def assms)

lemma free_dir:
  assumes u: "uvm s d fl" and e: "frames (mem s) d = {}"
  shows "\<exists>t fl'. seq (foreach [0..<1024] (free_tab d)) (kfree d) s = Ok () t \<and> kept s t \<and> free_list t fl' \<and>
    set fl' = uroom s d fl \<and> same_off (uroom s d fl) (mem s) (mem t)"
proof -
  have f: "free_list s fl" and ok: "pt_ok (kend s) (mem s) d (set fl)" using u by (simp_all add: uvm_def vm_def)
  have sub: "set [0..<1024] \<subseteq> {..<1024}" "set [0..<1024] = {..<1024}" by auto
  have ix: "\<exists>va. (has_tab (mem s) d va \<longleftrightarrow> dent (mem s) d i AND PTE_P \<noteq> 0) \<and> tab (mem s) d va = P2V (PTE_ADDR (dent (mem s) d i)) \<and> PDX va = of_nat i"
    if "i < 1024" for i using PDX_surj[OF that] dent_tab by blast
  have "\<exists>t fl'. foreach [0..<1024] (free_tab d) s = Ok () t \<and> kept s t \<and> free_list t fl' \<and>
      set fl' = set fl \<union> dtabs (mem s) d (set [0..<1024]) \<and> same_off (dtabs (mem s) d (set [0..<1024])) (mem s) (mem t)"
  proof (rule free_tables[OF f pt_okD(3)[OF ok] pt_okD(2)[OF ok] distinct_upt sub(1)])
    fix i assume i: "i \<in> set [0..<1024]" "dent (mem s) d i AND PTE_P \<noteq> 0"
    then obtain va where "has_tab (mem s) d va" "tab (mem s) d va = P2V (PTE_ADDR (dent (mem s) d i))" using ix[of i] sub(2) by auto
    then show "page_ok (kend s) (P2V (PTE_ADDR (dent (mem s) d i))) \<and> P2V (PTE_ADDR (dent (mem s) d i)) \<notin> insert d (set fl)"
      using pt_okD(5-7)[OF ok, of va] by simp
  next
    fix i j assume ij: "i \<in> set [0..<1024]" "j \<in> set [0..<1024]" "dent (mem s) d i AND PTE_P \<noteq> 0" "dent (mem s) d j AND PTE_P \<noteq> 0"
      "P2V (PTE_ADDR (dent (mem s) d i)) = P2V (PTE_ADDR (dent (mem s) d j))"
    obtain va vb where "has_tab (mem s) d va" "tab (mem s) d va = P2V (PTE_ADDR (dent (mem s) d i))" "PDX va = of_nat i"
      "has_tab (mem s) d vb" "tab (mem s) d vb = P2V (PTE_ADDR (dent (mem s) d j))" "PDX vb = of_nat j"
      using ij(1-4) ix[of i] ix[of j] sub(2) by auto
    then have "of_nat i = (of_nat j :: uint)" using pt_okD(8)[OF ok, of va vb] ij(5) by simp
    then have "unat (of_nat i :: uint) = unat (of_nat j :: uint)" by simp
    then show "i = j" using ij(1,2) unat_index by simp
  qed
  then obtain t fl' where t: "foreach [0..<1024] (free_tab d) s = Ok () t" "kept s t" "free_list t fl'"
    "set fl' = set fl \<union> tabs (mem s) d" "same_off (tabs (mem s) d) (mem s) (mem t)" unfolding sub(2) dtabs_tabs by blast
  have dd: "page_ok (kend t) d" "d \<notin> set fl'"
    using pt_okD(2,3)[OF ok] pt_okD(6)[OF ok] t(2,4) kept_sel(1) by (fastforce simp: tabs_def)+
  note k = kfree_Ok[OF t(3) dd]
  have o: "same_off {d} (mem t) (mem (pushed d t))" by (rule same_off_pushed[OF pt_okD(1)[OF ok]])
  have r: "uroom s d fl = insert d (set fl \<union> tabs (mem s) d)" using e by (auto simp: uroom_def troom_def)
  have "same_off (uroom s d fl) (mem s) (mem (pushed d t))"
    by (rule same_off_trans[OF same_off_mono[OF t(5)] same_off_mono[OF o]]) (auto simp: r)
  moreover have "seq (foreach [0..<1024] (free_tab d)) (kfree d) s = Ok () (pushed d t)"
    unfolding bnd_step[where m = "foreach [0..<1024] (free_tab d)" and s = s, OF t(1)] by (rule k(1))
  ultimately show ?thesis using k(2) t(4) r kept_trans[OF t(2) kept_pushed]
    by (intro exI[of _ "pushed d t"] exI[of _ "d # fl'"]) auto
qed

lemma freevm_run:
  assumes u: "uvm s d fl"
  shows "\<exists>t fl'. freevm d s = Ok () t \<and> kept s t \<and> free_list t fl' \<and> set fl' = uroom s d fl \<and> same_off (uroom s d fl) (mem s) (mem t)"
proof -
  have d0: "d \<noteq> 0" using u page_ok_nonzero[of "kend s" d] by (simp add: uvm_def vm_def pt_ok_def)
  obtain t fl' where t: "deallocuvm d KERNBASE 0 s = Ok 0 t" "uext d s fl t fl'" and
    v: "\<forall>va < KERNBASE. uval (mem t) d va = (if in_pages (unat (PGROUNDUP 0)) (unat KERNBASE) va then None else uval (mem s) d va)"
    using deallocuvm_run[OF u, of KERNBASE 0] by auto
  have "in_pages (unat (PGROUNDUP 0)) (unat KERNBASE) va" if "va < KERNBASE" for va
    using that PGROUNDDOWN_le[of va] unat_PGROUNDDOWN[of va] by (simp add: in_pages_def PGROUNDUP_def word_less_nat_alt)
  then have "\<not> present (mem t) d va" if "va < KERNBASE" for va using v that by (auto simp: uval_def split: if_splits)
  then have "frames (mem t) d = {}" by (auto simp: frames_def)
  moreover have "uvm t d fl'" using t(2) by (simp add: uext_def)
  ultimately obtain w fl'' where w: "seq (foreach [0..<1024] (free_tab d)) (kfree d) t = Ok () w" "kept t w" "free_list w fl''"
    "set fl'' = uroom t d fl'" "same_off (uroom t d fl') (mem t) (mem w)" using free_dir by blast
  have "freevm d s = Ok () w" using d0 w(1) by (simp add: freevm_def run_simps bnd_step[where m = "deallocuvm d KERNBASE 0" and s = s, OF t(1)])
  moreover have "uroom t d fl' = uroom s d fl" "kept s t" "same_off (uroom s d fl) (mem s) (mem t)" using t(2) by (simp_all add: uext_def)
  ultimately show ?thesis using w kept_trans[of s t w] same_off_trans[of "uroom s d fl" "mem s" "mem t" "mem w"] by (intro exI[of _ w] exI[of _ fl'']) simp
qed

text \<open>
  C11: \<open>freevm\<close> on a well-formed user address space succeeds, and afterwards the free list holds
  exactly the pages that were free before, the page directory, its page tables and the frames of
  every mapped user page: nothing is lost and nothing is freed twice. No other page is written.
\<close>
theorem freevm_frees_all:
  assumes "uvm s d fl"
  shows "\<exists>t fl'. freevm d s = Ok () t \<and> free_list t fl' \<and>
    set fl' = set fl \<union> {d} \<union> tabs (mem s) d \<union> frames (mem s) d \<and> same_off (set fl') (mem s) (mem t)"
proof -
  have "uroom s d fl = set fl \<union> {d} \<union> tabs (mem s) d \<union> frames (mem s) d" by (auto simp: uroom_def troom_def)
  then show ?thesis using freevm_run[OF assms] by metis
qed

theorem freevm_frees_all_witness:
  "\<exists>t fl. freevm 0x80200000 empty_dir = Ok () t \<and> free_list t fl \<and> {0x80200000, 0x80201000, 0x80202000} \<subseteq> set fl"
  using freevm_frees_all[OF empty_dir_uvm(1)] by auto


section \<open>The kernel part of an address space\<close>

text \<open>
  A page table with nothing mapped below \<open>KERNBASE\<close> and with tables only at the directory indices in
  \<open>I\<close>.
\<close>

definition kvm :: "uint set \<Rightarrow> 'a kmem_scheme \<Rightarrow> uint \<Rightarrow> uint list \<Rightarrow> bool" where
  "kvm I s d fl \<longleftrightarrow> vm s d fl \<and> (\<forall>va < KERNBASE. pt_entry (mem s) d va = 0) \<and> KERNBASE < kend s \<and>
     (\<forall>va. has_tab (mem s) d va \<longrightarrow> PDX va \<in> I)"

lemma kvm_uvm:
  assumes "kvm I s d fl"
  shows "uvm s d fl" "frames (mem s) d = {}" "uroom s d fl = troom s d fl"
proof -
  have n: "\<not> present (mem s) d va" if "va < KERNBASE" for va using assms that by (simp add: kvm_def present_def)
  then show "uvm s d fl" using assms unfolding uvm_def kvm_def us_ok_def by blast
  show "frames (mem s) d = {}" using n by (auto simp: frames_def)
  then show "uroom s d fl = troom s d fl" by (simp add: uroom_def)
qed

text \<open>Entries after one entry of the table of kernel mappings, and after a list of them.\<close>

definition kmap_pages :: "kmap \<Rightarrow> nat" where
  "kmap_pages k = Suc (pgidx (km_virt k) (km_virt k + (km_phys_end k - km_phys_start k) - 1))"

definition kmap_put :: "kmap \<Rightarrow> (uint \<Rightarrow> uint) \<Rightarrow> uint \<Rightarrow> uint" where
  "kmap_put k = map_range (km_virt k) (km_phys_start k) (km_perm k) (kmap_pages k)"

fun kmaps_ok :: "uint set \<Rightarrow> kmap list \<Rightarrow> (uint \<Rightarrow> uint) \<Rightarrow> bool" where
  "kmaps_ok I [] f \<longleftrightarrow> True"
| "kmaps_ok I (k # ks) f \<longleftrightarrow> km_virt k mod PGSIZE = 0 \<and>
     (\<forall>vb. pgidx (km_virt k) vb < kmap_pages k \<longrightarrow> KERNBASE \<le> vb \<and> PDX vb \<in> I \<and> f vb AND PTE_P = 0) \<and> kmaps_ok I ks (kmap_put k f)"

lemma tabs_image: "tabs m d = (\<lambda>i. P2V (PTE_ADDR (rd32 m (entry d i)))) ` {PDX va | va. has_tab m d va}"
  by (auto simp: tabs_def tab_def)

text \<open>When the free list is used up, all of it went into page tables.\<close>

lemma used_up:
  assumes "vext d s fl t []" "\<forall>va. has_tab (mem t) d va \<longrightarrow> PDX va \<in> I" "finite I"
  shows "card (troom s d fl) \<le> Suc (card I)"
proof -
  have e: "troom s d fl = insert d (tabs (mem t) d)" using assms(1) by (simp add: vext_def troom_def)
  have sub: "{PDX va | va. has_tab (mem t) d va} \<subseteq> I" using assms(2) by auto
  then have "card (tabs (mem t) d) \<le> card {PDX va | va. has_tab (mem t) d va}" unfolding tabs_image
    using assms(3) by (intro card_image_le) (rule finite_subset)
  also have "\<dots> \<le> card I" by (rule card_mono[OF assms(3) sub])
  finally have "card (tabs (mem t) d) \<le> card I" .
  then show ?thesis unfolding e using card_insert_le_m1[of "Suc (card I)" "tabs (mem t) d" d] by simp
qed

lemma map_kernel:
  assumes k: "kvm I s d fl" and ok: "kmaps_ok I [k] (pt_entry (mem s) d)"
  shows "\<exists>r t fl'. mappages d (km_virt k) (km_phys_end k - km_phys_start k) (km_phys_start k) (km_perm k) s = Ok r t \<and>
    vext d s fl t fl' \<and>
    (r = 0 \<and> kvm I t d fl' \<and> (\<forall>vb. pt_entry (mem t) d vb = kmap_put k (pt_entry (mem s) d) vb) \<or> r = - 1 \<and> kvm I t d fl' \<and> fl' = [])"
proof -
  let ?v = "km_virt k" and ?K = "pgidx (km_virt k) (km_virt k + (km_phys_end k - km_phys_start k) - 1)"
  have vm: "vm s d fl" and al: "?v mod PGSIZE = 0" using k ok by (simp_all add: kvm_def)
  have K: "?K < 1048576" by (rule pgidx_mult(2)[OF al])
  have un: "\<forall>vb. pgidx ?v vb \<le> ?K \<longrightarrow> pt_entry (mem s) d vb AND PTE_P = 0" using ok by (simp add: kmap_pages_def less_Suc_eq_le)
  obtain t fl' j where h: "\<forall>vb. has_tab (mem t) d vb \<longrightarrow> has_tab (mem s) d vb \<or> (\<exists>vc. pgidx ?v vc \<le> ?K \<and> PDX vb = PDX vc)"
    and t: "j \<le> Suc ?K" "mappages_loop d ?K ?v (km_phys_start k) (km_perm k) s = Ok (if j = Suc ?K then 0 else - 1) t"
    "vext d s fl t fl'" "j = Suc ?K \<or> length fl \<le> j \<and> fl' = []"
    "\<forall>vb. pt_entry (mem t) d vb = map_range ?v (km_phys_start k) (km_perm k) j (pt_entry (mem s) d) vb"
    using mappages_loop_run[OF vm al K un] by blast
  have "pt_entry (mem t) d vb = 0" if "vb < KERNBASE" for vb
  proof -
    have "\<not> pgidx ?v vb < kmap_pages k" using ok that by (auto simp: not_less)
    then have "\<not> pgidx ?v vb < j" using t(1) by (simp add: kmap_pages_def)
    then show ?thesis using t(5) k that by (simp add: map_range_def kvm_def)
  qed
  moreover have "\<forall>va. has_tab (mem t) d va \<longrightarrow> PDX va \<in> I"
    using h k ok by (auto simp: kvm_def kmap_pages_def less_Suc_eq_le)
  ultimately have kt: "kvm I t d fl'" using k t(3) kept_sel(1)[of s t] by (simp add: kvm_def vext_def)
  show ?thesis
  proof (cases "j = Suc ?K")
    case True
    then show ?thesis using t kt unfolding mappages_loop_eq aligned_round[OF al]
      by (intro exI[of _ 0] exI[of _ t] exI[of _ fl']) (simp add: kmap_put_def kmap_pages_def)
  next
    case False
    then show ?thesis using t kt unfolding mappages_loop_eq aligned_round[OF al]
      by (intro exI[of _ "- 1"] exI[of _ t] exI[of _ fl']) simp
  qed
qed

lemma setupkvm_loop_run:
  assumes "kvm I s d fl" "kmaps_ok I ks (pt_entry (mem s) d)" "finite I"
  shows "\<exists>r t fl'. setupkvm_loop d ks s = Ok r t \<and> kept s t \<and> same_off (troom s d fl) (mem s) (mem t) \<and>
    (r = d \<and> kvm I t d fl' \<and> troom t d fl' = troom s d fl \<and> (\<forall>vb. pt_entry (mem t) d vb = fold kmap_put ks (pt_entry (mem s) d) vb) \<or>
     r = 0 \<and> free_list t fl' \<and> set fl' = troom s d fl \<and> card (troom s d fl) \<le> Suc (card I))"
  using assms
proof (induction ks arbitrary: s fl)
  case Nil
  then show ?case by (intro exI[of _ d] exI[of _ s] exI[of _ fl]) (simp add: ret_def)
next
  case (Cons k ks)
  have ok: "kmaps_ok I [k] (pt_entry (mem s) d)" using Cons.prems(2) by simp
  obtain r t fl' where m: "mappages d (km_virt k) (km_phys_end k - km_phys_start k) (km_phys_start k) (km_perm k) s = Ok r t"
    and v: "vext d s fl t fl'" and kt: "kvm I t d fl'" and
    c: "r = 0 \<and> (\<forall>vb. pt_entry (mem t) d vb = kmap_put k (pt_entry (mem s) d) vb) \<or> r = - 1 \<and> fl' = []"
    using map_kernel[OF Cons.prems(1) ok] by blast
  have o: "kept s t" "troom t d fl' = troom s d fl" "same_off (troom s d fl) (mem s) (mem t)" using v by (simp_all add: vext_def)
  note run = bnd_step[where m = "mappages d (km_virt k) (km_phys_end k - km_phys_start k) (km_phys_start k) (km_perm k)" and s = s, OF m]
  from c show ?case
  proof
    assume c: "r = 0 \<and> (\<forall>vb. pt_entry (mem t) d vb = kmap_put k (pt_entry (mem s) d) vb)"
    then have e: "pt_entry (mem t) d = kmap_put k (pt_entry (mem s) d)" by auto
    obtain r' u fl'' where u: "setupkvm_loop d ks t = Ok r' u" "kept t u" "same_off (troom t d fl') (mem t) (mem u)"
      "r' = d \<and> kvm I u d fl'' \<and> troom u d fl'' = troom t d fl' \<and> (\<forall>vb. pt_entry (mem u) d vb = fold kmap_put ks (pt_entry (mem t) d) vb) \<or>
       r' = 0 \<and> free_list u fl'' \<and> set fl'' = troom t d fl' \<and> card (troom t d fl') \<le> Suc (card I)"
      using Cons.IH[OF kt _ Cons.prems(3)] Cons.prems(2) e by (metis kmaps_ok.simps(2))
    have "setupkvm_loop d (k # ks) s = Ok r' u" using c u(1) by (simp add: run)
    then show ?thesis using u(3,4) o kept_trans[OF o(1) u(2)] same_off_trans[OF o(3), of "mem u"] unfolding e
      by (intro exI[of _ r'] exI[of _ u] exI[of _ fl'']) auto
  next
    assume c: "r = - 1 \<and> fl' = []"
    note kv = kvm_uvm[OF kt]
    obtain w fl'' where w: "freevm d t = Ok () w" "kept t w" "free_list w fl''" "set fl'' = uroom t d fl'" "same_off (uroom t d fl') (mem t) (mem w)"
      using freevm_run[OF kv(1)] by blast
    have "setupkvm_loop d (k # ks) s = Ok 0 w" using c by (simp add: run bnd_step[where m = "freevm d" and s = t, OF w(1)] ret_def)
    moreover have "card (troom s d fl) \<le> Suc (card I)" using used_up[of d s fl t I] v c kt Cons.prems(3) by (simp add: kvm_def)
    ultimately show ?thesis using w(2-5) kv(3) o kept_trans[OF o(1) w(2)] same_off_trans[OF o(3), of "mem w"]
      by (intro exI[of _ 0] exI[of _ w] exI[of _ fl'']) simp
  qed
qed


lemma page_start_less: "(x :: nat) div 4096 * 4096 < 4096 * c \<longleftrightarrow> x < 4096 * c"
  using div_less_iff_less_mult[of 4096 x c] by (simp add: mult.commute)

lemma pgidx_range:
  assumes "a mod PGSIZE = 0" "unat a + 4096 * n \<le> 2 ^ 32"
  shows "pgidx a vb < n \<longleftrightarrow> unat a \<le> unat vb \<and> unat vb < unat a + 4096 * n"
proof -
  let ?p = "unat vb div 4096 * 4096"
  obtain q where q: "unat a = 4096 * q" using assms(1) by (auto elim: dvdE simp: aligned_mod[symmetric] mod_eq_0_iff_dvd)
  note m = pgidx_mult(1)[OF assms(1), of vb]
  show ?thesis
  proof (cases "a \<le> PGROUNDDOWN vb")
    case True
    then have e: "4096 * pgidx a vb = ?p - unat a" using m by (simp add: unat_sub unat_PGROUNDDOWN)
    have le: "unat a \<le> ?p" using True by (simp add: word_le_nat_alt unat_PGROUNDDOWN)
    have "pgidx a vb < n \<longleftrightarrow> 4096 * pgidx a vb < 4096 * n" by simp
    also have "\<dots> \<longleftrightarrow> ?p < unat a + 4096 * n" using e le by linarith
    also have "\<dots> \<longleftrightarrow> unat vb < unat a + 4096 * n" using page_start_less[of "unat vb" "q + n"] q by (simp add: distrib_left)
    finally show ?thesis using le div_times_less_eq_dividend[of "unat vb" 4096] by linarith
  next
    case False
    then have lt: "?p < unat a" by (simp add: word_le_nat_alt unat_PGROUNDDOWN)
    then have "unat vb < unat a" using page_start_less[of "unat vb" q] q by simp
    moreover have "unat (PGROUNDDOWN vb - a) = 2 ^ 32 + ?p - unat a"
      using lt by (simp add: unat_sub_if' unat_PGROUNDDOWN)
    then have "4096 * n \<le> 4096 * pgidx a vb" using m assms(2) by linarith
    ultimately show ?thesis by simp
  qed
qed

lemma kmap_range:
  assumes al: "km_virt k mod PGSIZE = 0" and sz: "n = unat (km_phys_end k - km_phys_start k)" "0 < n" "n mod 4096 = 0" "unat (km_virt k) + n \<le> 2 ^ 32"
  shows "pgidx (km_virt k) vb < kmap_pages k \<longleftrightarrow> unat (km_virt k) \<le> unat vb \<and> unat vb < unat (km_virt k) + n"
    "kmap_put k f vb = (if unat (km_virt k) \<le> unat vb \<and> unat vb < unat (km_virt k) + n
       then (km_phys_start k + (PGROUNDDOWN vb - km_virt k)) OR km_perm k OR PTE_P else f vb)"
proof -
  let ?v = "km_virt k" and ?w = "km_virt k + (km_phys_end k - km_phys_start k) - 1"
  obtain q where q: "unat ?v = 4096 * q" using al by (auto elim: dvdE simp: aligned_mod[symmetric] mod_eq_0_iff_dvd)
  obtain m where m: "n = 4096 * Suc m" using sz(2,3) by (cases "n div 4096") (auto elim!: dvdE simp: mod_eq_0_iff_dvd)
  have w: "?w = ?v + of_nat (n - 1)" using sz(1,2) by (simp add: of_nat_diff)
  have "unat (of_nat (n - 1) :: uint) = n - 1" using sz(2,4) by (intro unat_of_nat_small) simp
  then have "unat ?w = unat ?v + (n - 1)" unfolding w using sz(2,4) by (simp add: unat_word_ariths)
  then have "unat ?w = 4096 * (q + m) + 4095" using q m by simp
  moreover have "(4096 * c + 4095) div 4096 * 4096 = 4096 * c" for c :: nat by simp
  ultimately have "unat (PGROUNDDOWN ?w) = 4096 * (q + m)" by (simp only: unat_PGROUNDDOWN)
  moreover have "?v \<le> PGROUNDDOWN ?w" using calculation q by (simp add: word_le_nat_alt)
  ultimately have "unat (PGROUNDDOWN ?w - ?v) = 4096 * m" using q by (simp add: unat_sub)
  then have p: "kmap_pages k = Suc m" by (simp add: kmap_pages_def pgidx_def)
  show g: "pgidx ?v vb < kmap_pages k \<longleftrightarrow> unat ?v \<le> unat vb \<and> unat vb < unat ?v + n"
    unfolding p m by (rule pgidx_range[OF al]) (use sz(4) m in simp)
  have "of_nat (pgidx ?v vb) * PGSIZE = (of_nat (unat (PGROUNDDOWN vb - ?v)) :: uint)" unfolding pgidx_mult(1)[OF al] by simp
  then have "of_nat (pgidx ?v vb) * PGSIZE = PGROUNDDOWN vb - ?v" by simp
  then show "kmap_put k f vb = (if unat ?v \<le> unat vb \<and> unat vb < unat ?v + n
       then (km_phys_start k + (PGROUNDDOWN vb - ?v)) OR km_perm k OR PTE_P else f vb)"
    unfolding g[symmetric] by (simp add: kmap_put_def map_range_def)
qed

text \<open>What the kernel's mappings are meant to be.\<close>

definition kernel_entry :: "uint \<Rightarrow> uint \<Rightarrow> uint" where
  "kernel_entry dat va =
     (if va < KERNBASE then 0
      else if va < KERNLINK then V2P (PGROUNDDOWN va) OR PTE_W OR PTE_P
      else if va < dat then V2P (PGROUNDDOWN va) OR PTE_P
      else if va < P2V PHYSTOP then V2P (PGROUNDDOWN va) OR PTE_W OR PTE_P
      else if va < DEVSPACE then 0
      else PGROUNDDOWN va OR PTE_W OR PTE_P)"


text \<open>The directory indices the kernel uses: 224 Mbytes of memory and 32 Mbytes of devices.\<close>

definition kernel_pdx :: "uint set" where
  "kernel_pdx = of_nat ` ({512..<568} \<union> {1016..<1024})"

lemma kernel_pdx_card: "finite kernel_pdx" "card kernel_pdx \<le> 64"
proof -
  show "finite kernel_pdx" by (simp add: kernel_pdx_def)
  have "card kernel_pdx \<le> card ({512..<568} \<union> {1016..<1024 :: nat})" unfolding kernel_pdx_def by (rule card_image_le) simp
  also have "\<dots> \<le> 64" using card_Un_le[of "{512..<568}" "{1016..<1024 :: nat}"] by simp
  finally show "card kernel_pdx \<le> 64" .
qed

lemma kernel_pdxI:
  assumes "0x80000000 \<le> unat va \<and> unat va < 0x8E000000 \<or> 0xFE000000 \<le> unat va"
  shows "PDX va \<in> kernel_pdx"
proof -
  have "unat va div 4194304 \<in> {512..<568} \<union> {1016..<1024}"
  proof (cases "0xFE000000 \<le> unat va")
    case True
    have "1016 \<le> unat va div 4194304" using div_le_mono[OF True, of 4194304] by simp
    moreover have "unat va div 4194304 < 1024" using unat_uint_less[of va] by (simp add: div_less_iff_less_mult)
    ultimately show ?thesis by simp
  next
    case False
    then have v: "0x80000000 \<le> unat va" "unat va < 0x8E000000" using assms by auto
    have "512 \<le> unat va div 4194304" using div_le_mono[OF v(1), of 4194304] by simp
    moreover have "unat va div 4194304 < 568" using v(2) by (simp add: div_less_iff_less_mult)
    ultimately show ?thesis by simp
  qed
  moreover have "PDX va = of_nat (unat va div 4194304)" unfolding unat_PDX[symmetric] by simp
  ultimately show ?thesis unfolding kernel_pdx_def by blast
qed

text \<open>The table of the kernel's mappings, when the data segment starts at a page boundary above the text.\<close>

lemma kmap_tab_entries:
  assumes dat: "dat mod PGSIZE = 0" "KERNLINK < dat" "dat < P2V PHYSTOP"
  shows "kmaps_ok kernel_pdx (kmap_tab dat) (\<lambda>_. 0)" "fold kmap_put (kmap_tab dat) (\<lambda>_. 0) = kernel_entry dat"
proof -
  have d: "0x80100000 < unat dat" "unat dat < 0x8E000000" "unat dat mod 4096 = 0"
    using dat by (simp_all add: word_less_nat_alt P2V_def aligned_mod)
  let ?k1 = "\<lparr>km_virt = KERNBASE, km_phys_start = 0, km_phys_end = EXTMEM, km_perm = PTE_W\<rparr>"
  let ?k2 = "\<lparr>km_virt = KERNLINK, km_phys_start = V2P KERNLINK, km_phys_end = V2P dat, km_perm = 0\<rparr>"
  let ?k3 = "\<lparr>km_virt = dat, km_phys_start = V2P dat, km_phys_end = PHYSTOP, km_perm = PTE_W\<rparr>"
  let ?k4 = "\<lparr>km_virt = DEVSPACE, km_phys_start = DEVSPACE, km_phys_end = 0, km_perm = PTE_W\<rparr>"
  have u2: "unat (V2P dat - V2P KERNLINK) = unat dat - 0x80100000"
  proof -
    have "V2P dat - V2P KERNLINK = dat - KERNLINK" by (simp add: V2P_def)
    moreover have "KERNLINK \<le> dat" using dat(2) by simp
    ultimately show ?thesis by (simp add: unat_sub)
  qed
  have u3: "unat (PHYSTOP - V2P dat) = 0x8E000000 - unat dat"
  proof -
    have "PHYSTOP - V2P dat = 0x8E000000 - dat" by (simp add: V2P_def)
    moreover have "dat \<le> 0x8E000000" using d(2) by (simp add: word_le_nat_alt)
    then have "unat (0x8E000000 - dat) = 0x8E000000 - unat dat" by (simp add: unat_sub)
    ultimately show ?thesis by argo
  qed
  obtain q where q: "unat dat = 4096 * q" using d(3) by (auto elim: dvdE simp: mod_eq_0_iff_dvd)
  have m2: "(unat dat - 0x80100000) mod 4096 = 0"
  proof -
    have "unat dat - 0x80100000 = 4096 * (q - 0x80100)" using q by simp
    then show ?thesis by (simp only: mod_mult_self1_is_0)
  qed
  have m3: "(0x8E000000 - unat dat) mod 4096 = 0"
  proof -
    have "0x8E000000 - unat dat = 4096 * (0x8E000 - q)" using q by simp
    then show ?thesis by (simp only: mod_mult_self1_is_0)
  qed
  note r1 = kmap_range[of ?k1 "0x100000"] and r2 = kmap_range[of ?k2 "unat dat - 0x80100000"]
    and r3 = kmap_range[of ?k3 "0x8E000000 - unat dat"] and r4 = kmap_range[of ?k4 "0x2000000"]
  have a: "pgidx (km_virt ?k1) vb < kmap_pages ?k1 \<longleftrightarrow> 0x80000000 \<le> unat vb \<and> unat vb < 0x80100000"
    "kmap_put ?k1 f vb = (if 0x80000000 \<le> unat vb \<and> unat vb < 0x80100000 then (PGROUNDDOWN vb - KERNBASE) OR PTE_W OR PTE_P else f vb)" for vb f
    using r1 by simp_all
  have b: "pgidx (km_virt ?k2) vb < kmap_pages ?k2 \<longleftrightarrow> 0x80100000 \<le> unat vb \<and> unat vb < unat dat"
    "kmap_put ?k2 f vb = (if 0x80100000 \<le> unat vb \<and> unat vb < unat dat then (PGROUNDDOWN vb - KERNBASE) OR 0 OR PTE_P else f vb)" for vb f
    using r2 d m2 u2 by (simp_all add: V2P_def)
  have c: "pgidx (km_virt ?k3) vb < kmap_pages ?k3 \<longleftrightarrow> unat dat \<le> unat vb \<and> unat vb < 0x8E000000"
    "kmap_put ?k3 f vb = (if unat dat \<le> unat vb \<and> unat vb < 0x8E000000 then (PGROUNDDOWN vb - KERNBASE) OR PTE_W OR PTE_P else f vb)" for vb f
    using r3 d m3 u3 dat(1) by (simp_all add: V2P_def)
  have e: "pgidx (km_virt ?k4) vb < kmap_pages ?k4 \<longleftrightarrow> 0xFE000000 \<le> unat vb"
    "kmap_put ?k4 f vb = (if 0xFE000000 \<le> unat vb then PGROUNDDOWN vb OR PTE_W OR PTE_P else f vb)" for vb f
    using r4(1)[where vb = vb] r4(2)[where vb = vb and f = f] unat_uint_less[of vb] by simp_all
  show "kmaps_ok kernel_pdx (kmap_tab dat) (\<lambda>_. 0)"
    unfolding kmap_tab_def kmaps_ok.simps a b c e using d dat(1) by (auto simp: word_le_nat_alt intro!: kernel_pdxI)
  show "fold kmap_put (kmap_tab dat) (\<lambda>_. 0) = kernel_entry dat"
  proof
    fix vb
    show "fold kmap_put (kmap_tab dat) (\<lambda>_. 0) vb = kernel_entry dat vb"
      unfolding kmap_tab_def fold.simps o_apply id_apply a b c e using d by (simp add: kernel_entry_def V2P_def P2V_def word_less_nat_alt)
  qed
qed


text \<open>A zeroed page is an empty page directory.\<close>

lemma empty_directory:
  assumes f: "free_list s (x # xs)" and kb: "KERNBASE < kend s"
    and t_def: "t = s\<lparr>freelist := rd32 (mem s) x, mem := memset (mem s) x 0 PGSIZE\<rparr>"
  shows "kvm I t x xs" "pt_entry (mem t) x va = 0" "troom t x xs = set (x # xs)" "same_off {x} (mem s) (mem t)" "kept s t"
proof -
  have x: "page_ok (kend s) x" "x \<notin> set xs" "x mod PGSIZE = 0" using f by (simp_all add: free_list_def page_ok_def)
  show o: "same_off {x} (mem s) (mem t)" using same_off_memset[OF x(3)] by (simp add: t_def)
  show k: "kept s t" by (simp add: t_def kept_def)
  have n: "\<not> has_tab (mem t) x va" for va using rd32_zeroed[OF x(3) PDX_less, of "mem s"] by (simp add: has_tab_def t_def)
  then show z: "pt_entry (mem t) x va = 0" for va by (simp add: pt_entry_tab)
  show "troom t x xs = set (x # xs)" using n by (simp add: troom_def tabs_def)
  have "free_list t xs"
    by (rule free_list_same[OF kalloc_Cons(2)[OF f] _ _ _ , of t "{x}"]) (use x o in \<open>auto simp: t_def kept_def\<close>)
  then show "kvm I t x xs" using n z x kb by (simp add: kvm_def vm_def pt_ok_def t_def)
qed

lemma setupkvm_run:
  assumes f: "free_list s fl" and kb: "KERNBASE < kend s" and dat: "dat mod PGSIZE = 0" "KERNLINK < dat" "dat < P2V PHYSTOP"
  shows "\<exists>r t fl'. setupkvm dat s = Ok r t \<and> kept s t \<and> same_off (set fl) (mem s) (mem t) \<and>
    (r \<noteq> 0 \<and> kvm kernel_pdx t r fl' \<and> troom t r fl' = set fl \<and> pt_entry (mem t) r = kernel_entry dat \<or>
     r = 0 \<and> free_list t fl' \<and> set fl' = set fl \<and> length fl \<le> 65)"
proof (cases fl)
  case Nil
  have "setupkvm dat s = Ok 0 s" using f Nil by (simp add: setupkvm_def bnd_step[where m = kalloc] kalloc_Nil ret_def)
  then show ?thesis using f Nil by (intro exI[of _ 0] exI[of _ s] exI[of _ "[]"]) simp
next
  case (Cons x xs)
  let ?t = "s\<lparr>freelist := rd32 (mem s) x, mem := memset (mem s) x 0 PGSIZE\<rparr>"
  note e = empty_directory(1)[OF f[unfolded Cons] kb refl, of kernel_pdx] empty_directory(2-5)[OF f[unfolded Cons] kb refl]
  have x0: "x \<noteq> 0" using f Cons by (simp add: free_list_def)
  have z: "pt_entry (mem ?t) x = (\<lambda>_. 0)" using e(2) by auto
  have run: "setupkvm dat s = setupkvm_loop x (kmap_tab dat) ?t"
    using kalloc_Cons(1)[OF f[unfolded Cons]] x0
    by (simp add: setupkvm_def bnd_step[where m = kalloc] zero_page_run run_simps P2V_def)
  obtain r t fl' where t: "setupkvm_loop x (kmap_tab dat) ?t = Ok r t" "kept ?t t" "same_off (troom ?t x xs) (mem ?t) (mem t)" and
    c: "r = x \<and> kvm kernel_pdx t x fl' \<and> troom t x fl' = troom ?t x xs \<and> (\<forall>vb. pt_entry (mem t) x vb = fold kmap_put (kmap_tab dat) (pt_entry (mem ?t) x) vb) \<or>
     r = 0 \<and> free_list t fl' \<and> set fl' = troom ?t x xs \<and> card (troom ?t x xs) \<le> Suc (card kernel_pdx)"
    using setupkvm_loop_run[OF e(1) _ kernel_pdx_card(1), of "kmap_tab dat"] kmap_tab_entries(1)[OF dat] unfolding z by blast
  have cd: "card (set fl) = length fl" using f by (simp add: free_list_def distinct_card)
  have so: "same_off (set fl) (mem s) (mem t)"
    by (rule same_off_trans[OF same_off_mono[OF e(4)]]) (use t(3) e(3) Cons in auto)
  have kt: "kept s t" by (rule kept_trans[OF e(5) t(2)])
  have en: "fold kmap_put (kmap_tab dat) (pt_entry (mem ?t) x) = kernel_entry dat" unfolding z by (rule kmap_tab_entries(2)[OF dat])
  have room: "troom ?t x xs = set fl" using e(3) Cons by simp
  from c show ?thesis
  proof
    assume "r = x \<and> kvm kernel_pdx t x fl' \<and> troom t x fl' = troom ?t x xs \<and> (\<forall>vb. pt_entry (mem t) x vb = fold kmap_put (kmap_tab dat) (pt_entry (mem ?t) x) vb)"
    then show ?thesis unfolding run en room using t(1) kt so x0 by (intro exI[of _ r] exI[of _ t] exI[of _ fl'] conjI disjI1 ext) simp_all
  next
    assume "r = 0 \<and> free_list t fl' \<and> set fl' = troom ?t x xs \<and> card (troom ?t x xs) \<le> Suc (card kernel_pdx)"
    then show ?thesis unfolding run room using t(1) kt so cd kernel_pdx_card(2) by (intro exI[of _ r] exI[of _ t] exI[of _ fl'] conjI disjI2) simp_all
  qed
qed

text \<open>
  C8: \<open>setupkvm\<close>, given a free list and a data segment that starts at a page boundary between
  the kernel's text and the end of memory, either returns a well-formed page directory that maps
  every kernel address to its physical address (text read-only, the rest writable, devices
  one to one) and nothing below \<open>KERNBASE\<close>, or returns 0 with every page back on the free list. It
  returns 0 only if there are at most 65 free pages.
\<close>
theorem setupkvm_maps_kernel:
  assumes "free_list s fl" "KERNBASE < kend s" "dat mod PGSIZE = 0" "KERNLINK < dat" "dat < P2V PHYSTOP"
  shows "\<exists>r t fl'. setupkvm dat s = Ok r t \<and> same_off (set fl) (mem s) (mem t) \<and>
    (r \<noteq> 0 \<and> uvm t r fl' \<and> uroom t r fl' = set fl \<and> (\<forall>va. pt_entry (mem t) r va = kernel_entry dat va) \<or>
     r = 0 \<and> free_list t fl' \<and> set fl' = set fl \<and> length fl \<le> 65)"
proof -
  obtain r t fl' where t: "setupkvm dat s = Ok r t" "same_off (set fl) (mem s) (mem t)" and
    c: "r \<noteq> 0 \<and> kvm kernel_pdx t r fl' \<and> troom t r fl' = set fl \<and> pt_entry (mem t) r = kernel_entry dat \<or>
     r = 0 \<and> free_list t fl' \<and> set fl' = set fl \<and> length fl \<le> 65"
    using setupkvm_run[OF assms] by blast
  have "uvm t r fl'" "uroom t r fl' = troom t r fl'" if "kvm kernel_pdx t r fl'" using kvm_uvm[OF that] by simp_all
  then show ?thesis using t c by (intro exI[of _ r] exI[of _ t] exI[of _ fl']) auto
qed

text \<open>At boot: the pages \<open>kinit1\<close> frees below 4 Mbytes are enough for the kernel's page table.\<close>

lemma boot_pages: "\<exists>t fl. kinit1 0x80100001 0x80400000 boot_mem = Ok () t \<and> free_list t fl \<and> length fl = 767 \<and> KERNBASE < kend t"
proof -
  let ?s = "boot_mem\<lparr>use_lock := False\<rparr>" and ?p = "PGROUNDUP 0x80100001"
  have p: "unat ?p = 0x80101000" by (simp add: unat_PGROUNDUP)
  have "page_ok (kend ?s) x \<and> x \<notin> set []" if "x \<in> set (pages ?p 0x80400000)" for x
  proof -
    have x: "unat ?p \<le> unat x" "unat x + 4096 \<le> unat (0x80400000 :: uint)" "unat x mod 4096 = 0"
      using pages_bounds[OF that] p by auto
    have "page_ok (kend ?s) x" by (rule page_okI) (use x p in \<open>simp_all add: boot_mem_def\<close>)
    then show ?thesis by simp
  qed
  moreover have "free_list ?s []" by (simp add: free_list_def boot_mem_def)
  moreover have "distinct (pages ?p 0x80400000)" by (rule distinct_pages) (simp add: p)
  ultimately obtain t where t: "freerange_loop ?p 0x80400000 ?s = Ok () t"
    "free_list t (rev (pages ?p 0x80400000) @ [])" "kend t = kend ?s"
    using freerange_loop_Ok[of ?s "[]" ?p "0x80400000"] by blast
  have s: "boot_mem\<lparr>held := held boot_mem - {L_kmem}, use_lock := False\<rparr> = ?s" by (simp add: boot_mem_def)
  have "kinit1 0x80100001 0x80400000 boot_mem = Ok () t" using t(1) s by (simp add: kinit1_def freerange_def bnd_def modify_def)
  moreover have "length (rev (pages ?p 0x80400000)) = 767" by (simp add: length_pages p)
  ultimately show ?thesis using t(2,3) by (intro exI[of _ t] exI[of _ "rev (pages ?p 0x80400000)"]) (simp add: boot_mem_def)
qed

theorem setupkvm_maps_kernel_witness:
  "\<exists>s t r. kinit1 0x80100001 0x80400000 boot_mem = Ok () s \<and> setupkvm 0x80108000 s = Ok r t \<and> r \<noteq> 0 \<and>
     pt_entry (mem t) r 0x80107abc = 0x107001 \<and> pt_entry (mem t) r 0x80108004 = 0x108003 \<and> pt_entry (mem t) r 0x1000 = 0"
proof -
  obtain s fl where s: "kinit1 0x80100001 0x80400000 boot_mem = Ok () s" "free_list s fl" "length fl = 767" "KERNBASE < kend s"
    using boot_pages by blast
  have k: "kernel_entry 0x80108000 0x80107abc = 0x107001" "kernel_entry 0x80108000 0x80108004 = 0x108003" "kernel_entry 0x80108000 0x1000 = 0"
    by (simp_all add: kernel_entry_def PGROUNDDOWN_def V2P_def P2V_def)
  show ?thesis using setupkvm_maps_kernel[OF s(2,4), of "0x80108000"] s(1,3) k by (auto simp: P2V_def)
qed

end
