(* ===== verification/Ucopy.thy ===== *)
theory Ucopy
  imports Kvm
begin

text \<open>
  Two address spaces: \<open>copyuvm\<close>, which gives a child process its own copy of its parent's memory,
  and \<open>copyout\<close>, which writes kernel bytes into user memory.
\<close>

section \<open>An address space that is not being changed\<close>

definition owned :: "memory \<Rightarrow> uint \<Rightarrow> uint set" where
  "owned m p = insert p (tabs m p \<union> frames m p)"

definition space :: "'a kmem_scheme \<Rightarrow> uint \<Rightarrow> bool" where
  "space s p \<longleftrightarrow> pt_ok (kend s) (mem s) p {} \<and> us_ok (kend s) (mem s) p {}"

lemma uvm_space: "uvm s p fl \<Longrightarrow> space s p" "uvm s p fl \<Longrightarrow> uroom s p fl = owned (mem s) p \<union> set fl"
  "uvm s p fl \<Longrightarrow> owned (mem s) p \<inter> set fl = {}"
proof -
  assume u: "uvm s p fl"
  have ok: "pt_ok (kend s) (mem s) p (set fl)" "us_ok (kend s) (mem s) p (set fl)" using u by (simp_all add: uvm_def vm_def)
  then show "space s p" using pt_ok_mono[OF ok(1)] us_ok_mono[OF ok(2)] by (simp add: space_def)
  show "uroom s p fl = owned (mem s) p \<union> set fl" by (auto simp: owned_def uroom_def troom_def)
  show "owned (mem s) p \<inter> set fl = {}" using pt_okD(2,5)[OF ok(1)] us_okD(2)[OF ok(2)] by (fastforce simp: owned_def tabs_def frames_def)
qed

lemma space_same:
  assumes sp: "space s p" and k: "kept s t" and o: "same_off P (mem s) (mem t)" "P \<inter> owned (mem s) p = {}"
  shows "space t p" "pt_entry (mem t) p va = pt_entry (mem s) p va" "owned (mem t) p = owned (mem s) p"
    "va < KERNBASE \<Longrightarrow> uval (mem t) p va = uval (mem s) p va"
proof -
  have ok: "pt_ok (kend s) (mem s) p {}" "us_ok (kend s) (mem s) p {}" using sp by (simp_all add: space_def)
  have P: "P \<inter> insert p (tabs (mem s) p) = {}" "p \<notin> P" using o(2) by (auto simp: owned_def)
  note q = pt_same[OF ok(1) o(1) P(1)]
  have tb: "tabs (mem t) p = tabs (mem s) p" by (rule pt_same_dir(3)[OF pt_okD(1)[OF ok(1)] o(1) P(2)])
  show en: "pt_entry (mem t) p va = pt_entry (mem s) p va" for va by (rule q(2))
  have v: "present (mem t) p = present (mem s) p" "frame_of (mem t) p = frame_of (mem s) p"
    using en by (auto simp: present_def frame_of_def)
  then show "owned (mem t) p = owned (mem s) p" by (simp add: owned_def frames_def tb)
  have "us_ok (kend t) (mem t) p {}" using ok(2) kept_sel(1)[OF k] unfolding us_ok_def tb v by simp
  then show "space t p" using q(1) kept_sel(1)[OF k] by (simp add: space_def)
  show "uval (mem t) p va = uval (mem s) p va" if "va < KERNBASE"
    by (rule uval_same[OF en o(1)]) (use o(2) that in \<open>auto simp: owned_def frames_def\<close>)
qed

section \<open>copyuvm\<close>

text \<open>Copying the contents of a page.\<close>

lemma copy_page:
  assumes l: "lent d x s fl t fl'" and f: "f mod PGSIZE = 0" "page_ok (kend s) f"
  shows "same_off {x} (mem t) (memmove (mem t) x f PGSIZE)"
    "memmove (mem t) x f PGSIZE (x + (va AND 0xFFF)) = mem t (f + (va AND 0xFFF))"
proof -
  have x: "x mod PGSIZE = 0" "page_ok (kend s) x" using l by (simp_all add: lent_def page_ok_def)
  have small: "unat y + unat PGSIZE < 2 ^ 32" if "page_ok e y" for e y
  proof -
    have "V2P y < PHYSTOP" using that by (simp add: page_ok_def)
    then have v: "unat (V2P y) < 0xE000000" by (simp add: word_less_nat_alt)
    have "y = V2P y + KERNBASE" by (simp add: V2P_def)
    then have "unat y = unat (V2P y + KERNBASE)" by (rule arg_cong)
    also have "\<dots> = unat (V2P y) + 0x80000000" using v by (simp add: unat_word_ariths)
    finally show ?thesis using v by simp
  qed
  have m: "memmove (mem t) x f PGSIZE = moved (mem t) x f 4096"
    using memmove_moved[OF small[OF f(2)] small[OF x(2)], of "mem t"] by simp
  show "same_off {x} (mem t) (memmove (mem t) x f PGSIZE)"
    using page_addr_iff[OF x(1)] by (simp add: m moved_def same_off_def)
  show "memmove (mem t) x f PGSIZE (x + (va AND 0xFFF)) = mem t (f + (va AND 0xFFF))"
    using offset_less[of va] by (simp add: m moved_def)
qed

lemma PTE_FLAGS_small: "PTE_FLAGS e AND 0xFFF = PTE_FLAGS e"
  by (simp add: PTE_FLAGS_def and.assoc)

lemma flags_present:
  assumes "e AND PTE_P \<noteq> 0"
  shows "PTE_FLAGS e OR PTE_P = PTE_FLAGS e"
proof -
  have "bit e 0" using assms by (simp add: and_one_eq odd_iff_mod_2_eq_one bit_0)
  then show ?thesis by (intro bit_word_eqI) (auto simp: bit_or_iff bit_PTE_FLAGS bit_1_iff)
qed

lemma child_flags:
  assumes "x mod PGSIZE = 0" "e AND PTE_P \<noteq> 0"
  shows "PTE_FLAGS (V2P x OR PTE_FLAGS e OR PTE_P) = PTE_FLAGS e"
  using entry_parts(2)[of "V2P x" "PTE_FLAGS e"] assms by (simp add: or.assoc flags_present aligned_V2P PTE_FLAGS_small)

text \<open>The failure branches: the child's page table is given up.\<close>

lemma give_up:
  assumes "uext d s fl u fl'"
  shows "\<exists>t fl''. freevm d u = Ok () t \<and> kept s t \<and> free_list t fl'' \<and> set fl'' = uroom s d fl \<and> same_off (uroom s d fl) (mem s) (mem t)"
proof -
  have u: "uvm u d fl'" "uroom u d fl' = uroom s d fl" "kept s u" "same_off (uroom s d fl) (mem s) (mem u)"
    using assms by (simp_all add: uext_def)
  obtain t fl'' where "freevm d u = Ok () t" "kept u t" "free_list t fl''" "set fl'' = uroom s d fl" "same_off (uroom s d fl) (mem u) (mem t)"
    using freevm_run[OF u(1)] unfolding u(2) by blast
  then show ?thesis using kept_trans[OF u(3), of t] same_off_trans[OF u(4), of "mem t"] by blast
qed

lemma copyuvm_loop_run:
  assumes "uvm s d fl" "space s p" "owned (mem s) p \<inter> uroom s d fl = {}" "sz \<le> KERNBASE" "i mod 4096 = 0"
    "\<And>va. in_pages i (unat sz) va \<Longrightarrow> present (mem s) p va \<and> \<not> present (mem s) d va"
  shows "\<exists>r t fl'. copyuvm_loop p d sz i s = Ok r t \<and> kept s t \<and> same_off (uroom s d fl) (mem s) (mem t) \<and>
    (r = d \<and> uext d s fl t fl' \<and>
       (\<forall>va < KERNBASE. uval (mem t) d va = (if in_pages i (unat sz) va then uval (mem s) p va else uval (mem s) d va)) \<and>
       (\<forall>va. in_pages i (unat sz) va \<longrightarrow> PTE_FLAGS (pt_entry (mem t) d va) = PTE_FLAGS (pt_entry (mem s) p va)) \<and>
       (\<forall>va < KERNBASE. \<not> in_pages i (unat sz) va \<longrightarrow> pt_entry (mem t) d va = pt_entry (mem s) d va) \<or>
     r = 0 \<and> free_list t fl' \<and> set fl' = uroom s d fl \<and> length fl < 2 * npages i (unat sz))"
  using assms
proof (induction "unat sz - i" arbitrary: i s fl rule: less_induct)
  case less
  show ?case
  proof (cases "i < unat sz")
    case False
    then have "\<not> in_pages i (unat sz) va" for va using in_pages_end[OF less.prems(5)] by simp
    moreover have "copyuvm_loop p d sz i s = Ok d s" using False by (simp add: copyuvm_loop.simps ret_def)
    ultimately show ?thesis using uext_refl[OF less.prems(1)] by (intro exI[of _ d] exI[of _ s] exI[of _ fl]) simp
  next
    case i: True
    let ?a = "of_nat i :: uint"
    have au: "unat ?a = i" using i unat_uint_less[of sz] by (intro unat_of_nat_small) (simp add: less_trans)
    have ak: "?a < KERNBASE" using i less.prems(4) au by (simp add: word_less_nat_alt word_le_nat_alt)
    have aa: "?a mod PGSIZE = 0" using less.prems(5) au by (simp add: aligned_mod[symmetric])
    have pg: "PGROUNDDOWN va = ?a \<longleftrightarrow> unat va div 4096 = i div 4096" for va
      using page_div[of va ?a] au aligned_round[OF aa] by simp
    note st = in_pages_step[OF less.prems(5) i] and n = npages_step[OF i]
    have "in_pages i (unat sz) ?a" using st[of ?a] au by simp
    from less.prems(6)[OF this] have pp: "present (mem s) p ?a" and nd: "\<not> present (mem s) d ?a" by simp_all
    have pok: "pt_ok (kend s) (mem s) p {}" "us_ok (kend s) (mem s) p {}" using less.prems(2) by (simp_all add: space_def)
    let ?e = "pt_entry (mem s) p ?a" and ?f = "frame_of (mem s) p ?a"
    have eP: "?e AND PTE_P \<noteq> 0" using pp by (simp add: present_def)
    have h: "has_tab (mem s) p ?a" using eP by (simp add: pt_entry_tab split: if_splits)
    have pte: "entry (tab (mem s) p ?a) (PTX ?a) \<noteq> 0" using entry_nonzero[OF pt_okD(7)[OF pok(1) h] PTX_less] .
    have rd: "rd32 (mem s) (entry (tab (mem s) p ?a) (PTX ?a)) = ?e" using h by (simp add: pt_entry_tab)
    have f: "page_ok (kend s) ?f" "?f mod PGSIZE = 0" using us_okD(1)[OF pok(2) ak pp] frame_aligned by simp_all
    have run: "copyuvm_loop p d sz i s = bnd kalloc (\<lambda>m.
        if m = 0 then seq (freevm d) (ret 0)
        else seq (modify (\<lambda>s. s\<lparr>mem := memmove (mem s) m ?f PGSIZE\<rparr>))
          (bnd (mappages d ?a PGSIZE (V2P m) (PTE_FLAGS ?e)) (\<lambda>r.
          if r < 0 then seq (kfree m) (seq (freevm d) (ret 0)) else copyuvm_loop p d sz (i + 4096)))) s"
      using i h pte eP unfolding frame_of_def rd[symmetric] by (subst copyuvm_loop.simps)
        (simp add: walk_noalloc[of p ?a s] bnd_step[where m = "walkpgdir p ?a False"] load_run run_simps)
    show ?thesis
    proof (cases fl)
      case Nil
      have k: "kalloc s = Ok 0 s" using less.prems(1) Nil by (simp add: kalloc_Nil uvm_def vm_def)
      obtain t fl'' where t: "freevm d s = Ok () t" "kept s t" "free_list t fl''" "set fl'' = uroom s d fl" "same_off (uroom s d fl) (mem s) (mem t)"
        using give_up[OF uext_refl[OF less.prems(1)]] by blast
      have "copyuvm_loop p d sz i s = Ok 0 t" unfolding run using k t(1) by (simp add: bnd_def ret_def)
      then show ?thesis using t(2-5) n Nil by (intro exI[of _ 0] exI[of _ t] exI[of _ fl'']) simp
    next
      case (Cons x xs)
      let ?s1 = "s\<lparr>freelist := rd32 (mem s) x\<rparr>"
      let ?m = "memmove (mem s) x ?f PGSIZE"
      let ?s2 = "?s1\<lparr>mem := ?m\<rparr>"
      note k = lent_take[OF less.prems(1)[unfolded Cons], folded Cons]
      note c = copy_page[OF k(2) f(2,1), simplified]
      note w = lent_write[OF k(2), simplified, OF c(1)]
      have np2: "\<not> present (mem ?s2) d ?a" using w(3) nd by (simp add: present_def)
      have e: "copyuvm_loop p d sz i s = bnd (mappages d ?a PGSIZE (V2P x) (PTE_FLAGS ?e)) (\<lambda>r.
          if r < 0 then seq (kfree x) (seq (freevm d) (ret 0)) else copyuvm_loop p d sz (i + 4096)) ?s2"
        unfolding run using k(1,3) by (simp add: bnd_step[where m = kalloc] run_simps)
      have x: "x \<in> uroom s d fl" "x mod PGSIZE = 0" using k(2) by (simp_all add: lent_def page_ok_def)
      obtain u fl'' where lf: "length xs \<le> length fl'' + 1" and
        c2: "mappages d ?a PGSIZE (V2P x) (PTE_FLAGS ?e) ?s2 = Ok 0 u \<and> uext d s fl u fl'' \<and>
          (\<forall>vb. pt_entry (mem u) d vb = (if PGROUNDDOWN vb = ?a then V2P x OR PTE_FLAGS ?e OR PTE_P else pt_entry (mem ?s2) d vb)) \<and>
          (\<forall>vb < KERNBASE. uval (mem u) d vb = (if PGROUNDDOWN vb = ?a then Some (?m (x + (vb AND 0xFFF))) else uval ?m d vb)) \<or>
         xs = [] \<and> mappages d ?a PGSIZE (V2P x) (PTE_FLAGS ?e) ?s2 = Ok (- 1) u \<and> lent d x s fl u fl''"
        using lent_map[OF w(1) ak aa np2 PTE_FLAGS_small[of ?e]] by auto
      from c2 show ?thesis
      proof
        assume c2: "mappages d ?a PGSIZE (V2P x) (PTE_FLAGS ?e) ?s2 = Ok 0 u \<and> uext d s fl u fl'' \<and>
          (\<forall>vb. pt_entry (mem u) d vb = (if PGROUNDDOWN vb = ?a then V2P x OR PTE_FLAGS ?e OR PTE_P else pt_entry (mem ?s2) d vb)) \<and>
          (\<forall>vb < KERNBASE. uval (mem u) d vb = (if PGROUNDDOWN vb = ?a then Some (?m (x + (vb AND 0xFFF))) else uval ?m d vb))"
        have ux: "uvm u d fl''" "kept s u" "uroom u d fl'' = uroom s d fl" "same_off (uroom s d fl) (mem s) (mem u)"
          using c2 by (simp_all add: uext_def)
        have dj: "uroom s d fl \<inter> owned (mem s) p = {}" using less.prems(3) by auto
        note sp = space_same[OF less.prems(2) ux(2,4) dj]
        have same_p: "present (mem s) p vb = present (mem s) p ?a" "frame_of (mem s) p vb = ?f" if "PGROUNDDOWN vb = ?a" for vb
          using page_cong[of vb ?a "mem s" p] that aligned_round[OF aa] by simp_all
        have v: "uval (mem u) d vb = (if PGROUNDDOWN vb = ?a then uval (mem s) p vb else uval (mem s) d vb)" if "vb < KERNBASE" for vb
          using c2 that c(2)[of vb] w(2)[OF that] same_p[of vb] pp by (simp add: uval_def[of "mem s" p])
        have en: "pt_entry (mem u) d vb = (if PGROUNDDOWN vb = ?a then V2P x OR PTE_FLAGS ?e OR PTE_P else pt_entry (mem s) d vb)" for vb
          using c2 w(3)[of vb] by simp
        have nx: "in_pages (i + 4096) (unat sz) va \<Longrightarrow> PGROUNDDOWN va \<noteq> ?a \<and> in_pages i (unat sz) va \<and> va < KERNBASE" for va
        proof -
          assume j: "in_pages (i + 4096) (unat sz) va"
          have "i + 4096 \<le> unat va" using j by (simp add: in_pages_def)
          then have "i div 4096 + 1 \<le> unat va div 4096" using div_le_mono[of "i + 4096" "unat va" 4096] by simp
          then show ?thesis using j st[of va] in_pages_below[OF j less.prems(4)] pg[of va] by auto
        qed
        have h1: "in_pages (i + 4096) (unat sz) va \<Longrightarrow> present (mem u) p va \<and> \<not> present (mem u) d va" for va
          using nx[of va] less.prems(6)[of va] sp(2)[of va] en[of va] by (simp add: present_def)
        have h2: "unat sz - (i + 4096) < unat sz - i" "(i + 4096) mod 4096 = 0" "owned (mem u) p \<inter> uroom u d fl'' = {}"
          using i less.prems(3,5) sp(3) ux(3) by auto
        obtain r t fl' where t: "copyuvm_loop p d sz (i + 4096) u = Ok r t" "kept u t" "same_off (uroom u d fl'') (mem u) (mem t)" and
          q: "r = d \<and> uext d u fl'' t fl' \<and>
             (\<forall>va < KERNBASE. uval (mem t) d va = (if in_pages (i + 4096) (unat sz) va then uval (mem u) p va else uval (mem u) d va)) \<and>
             (\<forall>va. in_pages (i + 4096) (unat sz) va \<longrightarrow> PTE_FLAGS (pt_entry (mem t) d va) = PTE_FLAGS (pt_entry (mem u) p va)) \<and>
             (\<forall>va < KERNBASE. \<not> in_pages (i + 4096) (unat sz) va \<longrightarrow> pt_entry (mem t) d va = pt_entry (mem u) d va) \<or>
           r = 0 \<and> free_list t fl' \<and> set fl' = uroom u d fl'' \<and> length fl'' < 2 * npages (i + 4096) (unat sz)"
          using less.hyps[OF h2(1) ux(1) sp(1) h2(3) less.prems(4) h2(2) h1] by blast
        have rn: "copyuvm_loop p d sz i s = Ok r t" using e c2 t(1) by (simp add: bnd_def)
        have kt: "kept s t" "same_off (uroom s d fl) (mem s) (mem t)"
          using kept_trans[OF ux(2) t(2)] same_off_trans[OF ux(4)] t(3) ux(3) by auto
        from q show ?thesis
        proof
          assume q: "r = d \<and> uext d u fl'' t fl' \<and>
             (\<forall>va < KERNBASE. uval (mem t) d va = (if in_pages (i + 4096) (unat sz) va then uval (mem u) p va else uval (mem u) d va)) \<and>
             (\<forall>va. in_pages (i + 4096) (unat sz) va \<longrightarrow> PTE_FLAGS (pt_entry (mem t) d va) = PTE_FLAGS (pt_entry (mem u) p va)) \<and>
             (\<forall>va < KERNBASE. \<not> in_pages (i + 4096) (unat sz) va \<longrightarrow> pt_entry (mem t) d va = pt_entry (mem u) d va)"
          have a1: "uext d s fl t fl'" using uext_trans c2 q by blast
          have a2: "\<forall>va < KERNBASE. uval (mem t) d va = (if in_pages i (unat sz) va then uval (mem s) p va else uval (mem s) d va)"
            using q v sp(4) st pg nx by auto
          have a3: "PTE_FLAGS (pt_entry (mem t) d va) = PTE_FLAGS (pt_entry (mem s) p va)" if j: "in_pages i (unat sz) va" for va
          proof (cases "in_pages (i + 4096) (unat sz) va")
            case True
            then show ?thesis using q sp(2) by simp
          next
            case False
            then have a: "PGROUNDDOWN va = ?a" using j st[of va] pg[of va] by simp
            have "pt_entry (mem t) d va = V2P x OR PTE_FLAGS ?e OR PTE_P" using q False en[of va] a in_pages_below[OF j less.prems(4)] by simp
            moreover have "pt_entry (mem s) p va = ?e" using pt_entry_page[of va ?a] a aligned_round[OF aa] by simp
            ultimately show ?thesis using child_flags[OF x(2) eP] by simp
          qed
          have a4: "pt_entry (mem t) d va = pt_entry (mem s) d va" if "va < KERNBASE" "\<not> in_pages i (unat sz) va" for va
            using q en[of va] that st[of va] pg[of va] by simp
          show ?thesis using rn kt a1 a2 a3 a4 q by (intro exI[of _ r] exI[of _ t] exI[of _ fl']) simp
        next
          assume q: "r = 0 \<and> free_list t fl' \<and> set fl' = uroom u d fl'' \<and> length fl'' < 2 * npages (i + 4096) (unat sz)"
          moreover have "length fl < 2 * npages i (unat sz)" using q lf n Cons by simp
          ultimately show ?thesis using rn kt ux(3) by (intro exI[of _ r] exI[of _ t] exI[of _ fl']) simp
        qed
      next
        assume c2: "xs = [] \<and> mappages d ?a PGSIZE (V2P x) (PTE_FLAGS ?e) ?s2 = Ok (- 1) u \<and> lent d x s fl u fl''"
        then have "lent d x s fl u fl''" by simp
        note fr = lent_free[OF this]
        obtain t fl3 where t: "freevm d (pushed x u) = Ok () t" "kept s t" "free_list t fl3" "set fl3 = uroom s d fl" "same_off (uroom s d fl) (mem s) (mem t)"
          using give_up[OF fr(2)] by blast
        have "copyuvm_loop p d sz i s = Ok 0 t" using e c2 t(1) fr(1) by (simp add: bnd_def ret_def)
        moreover have "length fl < 2 * npages i (unat sz)" using c2 n Cons by simp
        ultimately show ?thesis using t(2-5) by (intro exI[of _ 0] exI[of _ t] exI[of _ fl3]) simp
      qed
    qed
  qed
qed


lemma space_uvm:
  assumes "space t p" "free_list t fl" "owned (mem t) p \<inter> set fl = {}" "KERNBASE < kend t"
  shows "uvm t p fl"
proof -
  have ok: "pt_ok (kend t) (mem t) p {}" "us_ok (kend t) (mem t) p {}" using assms(1) by (simp_all add: space_def)
  have n: "p \<notin> set fl" "\<And>va. has_tab (mem t) p va \<Longrightarrow> tab (mem t) p va \<notin> set fl"
    "\<And>va. va < KERNBASE \<Longrightarrow> present (mem t) p va \<Longrightarrow> frame_of (mem t) p va \<notin> set fl"
    using assms(3) by (auto simp: owned_def tabs_def frames_def)
  have "pt_ok (kend t) (mem t) p (set fl)" using ok(1) n(1,2) unfolding pt_ok_def by blast
  moreover have "us_ok (kend t) (mem t) p (set fl)" using ok(2) n(3) unfolding us_ok_def by blast
  ultimately show ?thesis using assms(2,4) by (simp add: uvm_def vm_def)
qed

lemma kvm_length:
  assumes "kvm kernel_pdx t d fl" "troom t d fl = set fl0" "distinct fl0"
  shows "length fl0 \<le> length fl + 65"
proof -
  have sub: "{PDX va | va. has_tab (mem t) d va} \<subseteq> kernel_pdx" using assms(1) by (auto simp: kvm_def)
  have "card (tabs (mem t) d) \<le> card {PDX va | va. has_tab (mem t) d va}" unfolding tabs_image
    using finite_subset[OF sub kernel_pdx_card(1)] by (rule card_image_le)
  also have "\<dots> \<le> 64" using card_mono[OF kernel_pdx_card(1) sub] kernel_pdx_card(2) by simp
  finally have c: "card (tabs (mem t) d) \<le> 64" .
  have "length fl0 = card (insert d (tabs (mem t) d \<union> set fl))" using assms(2,3) by (simp add: troom_def distinct_card[symmetric])
  also have "\<dots> \<le> Suc (card (tabs (mem t) d \<union> set fl))" using card_insert_le_m1[of "Suc (card (tabs (mem t) d \<union> set fl))" "tabs (mem t) d \<union> set fl" d] by simp
  also have "\<dots> \<le> Suc (card (tabs (mem t) d) + length fl)" using card_Un_le[of "tabs (mem t) d" "set fl"] card_length[of fl] by linarith
  finally show ?thesis using c by simp
qed

text \<open>
  C3: \<open>copyuvm\<close>, as \<open>fork\<close> calls it on a well-formed address space whose first \<open>sz\<close> bytes are mapped, either
  returns a new well-formed address space that shares no page with the parent's, in which every
  byte below \<open>sz\<close> (to the end of its page) reads as the parent's and has the same
  permissions, nothing else is mapped below \<open>KERNBASE\<close> and the kernel is mapped as usual; or returns
  0 with all pages back on the free list. The parent's memory is unchanged either way. It returns 0
  only if fewer than 66 pages plus two for each page to copy are free.
\<close>
theorem copyuvm_copies:
  assumes "uvm s p fl" "sz \<le> KERNBASE" "\<And>va. in_pages 0 (unat sz) va \<Longrightarrow> present (mem s) p va"
    and "dat mod PGSIZE = 0" "KERNLINK < dat" "dat < P2V PHYSTOP"
  shows "\<exists>r t fl'. copyuvm dat p sz s = Ok r t \<and> (\<forall>va. va < KERNBASE \<longrightarrow> uval (mem t) p va = uval (mem s) p va) \<and>
    (r \<noteq> 0 \<and> uvm t r fl' \<and> uroom t r fl' = set fl \<and> owned (mem t) p \<inter> uroom t r fl' = {} \<and>
       (\<forall>va. va < KERNBASE \<longrightarrow> uval (mem t) r va = (if in_pages 0 (unat sz) va then uval (mem s) p va else None)) \<and>
       (\<forall>va. in_pages 0 (unat sz) va \<longrightarrow> PTE_FLAGS (pt_entry (mem t) r va) = PTE_FLAGS (pt_entry (mem s) p va)) \<and>
       (\<forall>va. KERNBASE \<le> va \<longrightarrow> pt_entry (mem t) r va = kernel_entry dat va) \<or>
     r = 0 \<and> uvm t p fl' \<and> set fl' = set fl \<and> length fl < 66 + 2 * npages 0 (unat sz))"
proof -
  have f: "free_list s fl" and kb: "KERNBASE < kend s" using assms(1) by (simp_all add: uvm_def vm_def)
  note sp = uvm_space[OF assms(1)]
  have dj: "set fl \<inter> owned (mem s) p = {}" using sp(3) by auto
  obtain d u fl1 where u: "setupkvm dat s = Ok d u" "kept s u" "same_off (set fl) (mem s) (mem u)" and
    c: "d \<noteq> 0 \<and> kvm kernel_pdx u d fl1 \<and> troom u d fl1 = set fl \<and> pt_entry (mem u) d = kernel_entry dat \<or>
     d = 0 \<and> free_list u fl1 \<and> set fl1 = set fl \<and> length fl \<le> 65"
    using setupkvm_run[OF f kb assms(4-6)] by blast
  note pu = space_same[OF sp(1) u(2,3) dj]
  have kbu: "KERNBASE < kend u" using kb kept_sel(1)[OF u(2)] by simp
  note run = bnd_step[where m = "setupkvm dat" and s = s, OF u(1)]
  from c show ?thesis
  proof
    assume c: "d = 0 \<and> free_list u fl1 \<and> set fl1 = set fl \<and> length fl \<le> 65"
    have "copyuvm dat p sz s = Ok 0 u" using c by (simp add: copyuvm_def run ret_def)
    moreover have "uvm u p fl1" using space_uvm[OF pu(1)] c pu(3) dj kbu by auto
    ultimately show ?thesis using c pu(4) by (intro exI[of _ 0] exI[of _ u] exI[of _ fl1]) simp
  next
    assume c: "d \<noteq> 0 \<and> kvm kernel_pdx u d fl1 \<and> troom u d fl1 = set fl \<and> pt_entry (mem u) d = kernel_entry dat"
    then have kv: "uvm u d fl1" "uroom u d fl1 = set fl" using kvm_uvm[of kernel_pdx u d fl1] by simp_all
    have nd: "\<not> present (mem u) d va" if "va < KERNBASE" for va using c that by (simp add: present_def kernel_entry_def)
    have l: "length fl \<le> length fl1 + 65" using kvm_length[of u d fl1 fl] c f by (simp add: free_list_def)
    have dj2: "owned (mem u) p \<inter> uroom u d fl1 = {}" using pu(3) dj kv(2) by auto
    have pr: "present (mem u) p va \<and> \<not> present (mem u) d va" if "in_pages 0 (unat sz) va" for va
      using assms(3)[OF that] pu(2)[of va] nd[of va] in_pages_below[OF that assms(2)] by (simp add: present_def)
    obtain r t fl' where t: "copyuvm_loop p d sz 0 u = Ok r t" "kept u t" "same_off (uroom u d fl1) (mem u) (mem t)" and
      q: "r = d \<and> uext d u fl1 t fl' \<and>
         (\<forall>va < KERNBASE. uval (mem t) d va = (if in_pages 0 (unat sz) va then uval (mem u) p va else uval (mem u) d va)) \<and>
         (\<forall>va. in_pages 0 (unat sz) va \<longrightarrow> PTE_FLAGS (pt_entry (mem t) d va) = PTE_FLAGS (pt_entry (mem u) p va)) \<and>
         (\<forall>va < KERNBASE. \<not> in_pages 0 (unat sz) va \<longrightarrow> pt_entry (mem t) d va = pt_entry (mem u) d va) \<or>
       r = 0 \<and> free_list t fl' \<and> set fl' = uroom u d fl1 \<and> length fl1 < 2 * npages 0 (unat sz)"
      using copyuvm_loop_run[OF kv(1) pu(1) dj2 assms(2) mod_0 pr] by blast
    have dj3: "uroom u d fl1 \<inter> owned (mem u) p = {}" using dj2 by auto
    note pt = space_same[OF pu(1) t(2,3) dj3]
    have same: "uval (mem t) p va = uval (mem s) p va" if "va < KERNBASE" for va using pt(4)[OF that] pu(4)[OF that] by simp
    have rn: "copyuvm dat p sz s = Ok r t" using c t(1) by (simp add: copyuvm_def run)
    from q show ?thesis
    proof
      assume q: "r = d \<and> uext d u fl1 t fl' \<and>
         (\<forall>va < KERNBASE. uval (mem t) d va = (if in_pages 0 (unat sz) va then uval (mem u) p va else uval (mem u) d va)) \<and>
         (\<forall>va. in_pages 0 (unat sz) va \<longrightarrow> PTE_FLAGS (pt_entry (mem t) d va) = PTE_FLAGS (pt_entry (mem u) p va)) \<and>
         (\<forall>va < KERNBASE. \<not> in_pages 0 (unat sz) va \<longrightarrow> pt_entry (mem t) d va = pt_entry (mem u) d va)"
      have "uval (mem t) d va = (if in_pages 0 (unat sz) va then uval (mem s) p va else None)" if "va < KERNBASE" for va
        using q that pu(4)[OF that] nd[OF that] by (simp add: uval_def[of "mem u" d])
      moreover have "uvm t d fl'" "uroom t d fl' = set fl" "\<And>va. KERNBASE \<le> va \<Longrightarrow> pt_entry (mem t) d va = kernel_entry dat va"
        using q kv(2) c by (auto simp: uext_def not_less)
      moreover have "owned (mem t) p \<inter> set fl = {}" using pt(3) pu(3) dj by auto
      ultimately show ?thesis using rn same q c pu(2) by (intro exI[of _ r] exI[of _ t] exI[of _ fl']) simp
    next
      assume q: "r = 0 \<and> free_list t fl' \<and> set fl' = uroom u d fl1 \<and> length fl1 < 2 * npages 0 (unat sz)"
      have "KERNBASE < kend t" using kbu kept_sel(1)[OF t(2)] by simp
      then have "uvm t p fl'" using space_uvm[OF pt(1)] q dj3 pt(3) by auto
      then show ?thesis using rn same q kv(2) l by (intro exI[of _ r] exI[of _ t] exI[of _ fl']) simp
    qed
  qed
qed

text \<open>A process of one page made at boot, and its copy.\<close>

lemma boot_process:
  "\<exists>s1 p s2 s3 fl. kinit1 0x80100001 0x80400000 boot_mem = Ok () s1 \<and> setupkvm 0x80108000 s1 = Ok p s2 \<and>
     allocuvm p 0 0x1000 s2 = Ok 0x1000 s3 \<and> uvm s3 p fl \<and> 600 \<le> length fl \<and>
     (\<forall>va. in_pages 0 4096 va \<longrightarrow> uval (mem s3) p va = Some 0)"
proof -
  obtain s1 fl1 where s1: "kinit1 0x80100001 0x80400000 boot_mem = Ok () s1" "free_list s1 fl1" "length fl1 = 767" "KERNBASE < kend s1"
    using boot_pages by blast
  obtain p s2 fl2 where s2: "setupkvm 0x80108000 s1 = Ok p s2" "kvm kernel_pdx s2 p fl2" "troom s2 p fl2 = set fl1" "pt_entry (mem s2) p = kernel_entry 0x80108000"
    using setupkvm_run[OF s1(2,4), of "0x80108000"] s1(3) by (auto simp: P2V_def)
  have l: "767 \<le> length fl2 + 65" using kvm_length[OF s2(2,3)] s1(2,3) by (simp add: free_list_def)
  have r: "PGROUNDUP 0 = 0" "npages 0 4096 = 1" by (simp_all add: PGROUNDUP_def npages_def)
  have b: "va < KERNBASE" if "in_pages 0 4096 va" for va using in_pages_below[of 0 "0x1000" va] that by simp
  have n: "uval (mem s2) p va = None" if "va < KERNBASE" for va using that by (simp add: uval_def present_def s2(4) kernel_entry_def)
  obtain q s3 fl3 where s3: "allocuvm p 0 0x1000 s2 = Ok q s3" "uext p s2 fl2 s3 fl3" and
    c: "q = 0x1000 \<and> length fl2 \<le> length fl3 + 2 \<and> (\<forall>va. va < KERNBASE \<longrightarrow> uval (mem s3) p va = (if in_pages 0 4096 va then Some 0 else uval (mem s2) p va)) \<or>
      q = 0 \<and> length fl2 < 2"
    using allocuvm_run[OF kvm_uvm(1)[OF s2(2)], of 0 "0x1000"] n b by (auto simp: r)
  then have "q = 0x1000" "600 \<le> length fl3" "\<forall>va. in_pages 0 4096 va \<longrightarrow> uval (mem s3) p va = Some 0" using l b by auto
  then show ?thesis using s1(1) s2(1) s3 by (intro exI[of _ s1] exI[of _ p] exI[of _ s2] exI[of _ s3] exI[of _ fl3]) (simp add: uext_def)
qed

theorem copyuvm_copies_witness:
  "\<exists>s1 p s2 s3 d s4. kinit1 0x80100001 0x80400000 boot_mem = Ok () s1 \<and> setupkvm 0x80108000 s1 = Ok p s2 \<and>
     allocuvm p 0 0x1000 s2 = Ok 0x1000 s3 \<and> copyuvm 0x80108000 p 0x1000 s3 = Ok d s4 \<and> d \<noteq> 0 \<and>
     uval (mem s4) d 0x123 = Some 0 \<and> uval (mem s4) p 0x123 = Some 0 \<and> uval (mem s4) d 0x1000 = None \<and> p \<notin> uroom s4 d []"
proof -
  obtain s1 p s2 s3 fl where s: "kinit1 0x80100001 0x80400000 boot_mem = Ok () s1" "setupkvm 0x80108000 s1 = Ok p s2"
    "allocuvm p 0 0x1000 s2 = Ok 0x1000 s3" "uvm s3 p fl" "600 \<le> length fl" and z: "\<forall>va. in_pages 0 4096 va \<longrightarrow> uval (mem s3) p va = Some 0"
    using boot_process by blast
  have i: "in_pages 0 4096 0x123" "\<not> in_pages 0 4096 0x1000" "npages 0 4096 = 1" by (simp_all add: in_pages_def npages_def)
  have pr: "in_pages 0 (unat (0x1000 :: uint)) va \<Longrightarrow> present (mem s3) p va" for va using z by (auto simp: uval_def split: if_splits)
  have c: "(0x1000 :: uint) \<le> KERNBASE" "(0x80108000 :: uint) mod PGSIZE = 0" "KERNLINK < (0x80108000 :: uint)" "0x80108000 < P2V PHYSTOP"
    by (simp_all add: P2V_def)
  obtain d s4 fl' where "copyuvm 0x80108000 p 0x1000 s3 = Ok d s4" "d \<noteq> 0" "\<forall>va. va < KERNBASE \<longrightarrow> uval (mem s4) p va = uval (mem s3) p va"
    "owned (mem s4) p \<inter> uroom s4 d fl' = {}" "\<forall>va. va < KERNBASE \<longrightarrow> uval (mem s4) d va = (if in_pages 0 4096 va then uval (mem s3) p va else None)"
    using copyuvm_copies[OF s(4) c(1) pr c(2-4)] s(5) i(3) by auto
  moreover have "p \<notin> uroom s4 d []" using calculation(4) by (auto simp: owned_def uroom_def troom_def)
  ultimately show ?thesis using s(1-3) z i by (intro exI[of _ s1] exI[of _ p] exI[of _ s2] exI[of _ s3] exI[of _ d] exI[of _ s4]) simp
qed

end
