(* ===== verification/Syscall.thy ===== *)
theory Syscall
  imports Proc Vm
begin

text \<open>
  Access to user memory and the fetching of system call arguments, \<^verbatim>\<open>syscall.c\<close>. The kernel runs
  with the page table of the current process, so it uses user addresses as they are; the
  processor translates each. An address that is not mapped traps inside the kernel, and
  \<^verbatim>\<open>trap\<close> then calls \<^verbatim>\<open>panic("trap")\<close>.
\<close>

definition cur_proc :: "'a kproc_scheme \<Rightarrow> proc" where
  "cur_proc s = ptable s ! the (curproc s)"

definition uload :: "uint \<Rightarrow> ('a kproc_scheme, uchar) kop" where
  "uload va =
     bnd (fetch (\<lambda>s. map_option (mem s) (translate (mem s) (p_pgdir (cur_proc s)) va))) (\<lambda>r.
     case r of None \<Rightarrow> kpanic ''trap'' | Some b \<Rightarrow> ret b)"

definition ustore :: "uint \<Rightarrow> uchar \<Rightarrow> ('a kproc_scheme, unit) kop" where
  "ustore va b =
     bnd (fetch (\<lambda>s. translate (mem s) (p_pgdir (cur_proc s)) va)) (\<lambda>r.
     case r of None \<Rightarrow> kpanic ''trap'' | Some a \<Rightarrow> modify (\<lambda>s. s\<lparr>mem := (mem s)(a := b)\<rparr>))"

fun uread :: "uint \<Rightarrow> nat \<Rightarrow> ('a kproc_scheme, uchar list) kop" where
  "uread va 0 = ret []"
| "uread va (Suc n) = bnd (uload va) (\<lambda>b. bnd (uread (va + 1) n) (\<lambda>bs. ret (b # bs)))"

fun uwrite :: "uint \<Rightarrow> uchar list \<Rightarrow> ('a kproc_scheme, unit) kop" where
  "uwrite va [] = ret ()"
| "uwrite va (b # bs) = seq (ustore va b) (uwrite (va + 1) bs)"

text \<open>The value fetched, or \<open>None\<close> for the result -1.\<close>

definition fetchint :: "uint \<Rightarrow> ('a kproc_scheme, uint option) kop" where
  "fetchint addr =
     bnd (fetch (\<lambda>s. p_sz (cur_proc s))) (\<lambda>sz.
     if addr \<ge> sz \<or> addr + 4 > sz then ret None
     else bnd (uread addr 4) (\<lambda>bs. ret (Some (un32 bs))))"

text \<open>The loop of \<open>fetchstr\<close>: the bytes before the first NUL below \<open>ep\<close>.\<close>

function fetchstr_loop :: "uint \<Rightarrow> uint \<Rightarrow> ('a kproc_scheme, uchar list option) kop" where
  "fetchstr_loop s ep =
     (if s < ep then
        bnd (uload s) (\<lambda>c.
        if c = 0 then ret (Some [])
        else bnd (fetchstr_loop (s + 1) ep) (\<lambda>r. ret (map_option (\<lambda>cs. c # cs) r)))
      else ret None)"
  by pat_completeness auto
termination
proof (relation "measure (\<lambda>(s, ep). unat ep - unat s)", goal_cases)
  case (2 s ep c)
  then have "unat s < unat ep" by (simp add: word_less_nat_alt)
  moreover have "unat ep < 4294967296" by simp
  ultimately have "unat s + 1 < 4294967296" by linarith
  then have "unat (s + 1) = unat s + 1" by (simp add: unat_word_ariths)
  then show ?case using \<open>unat s < unat ep\<close> by simp
qed simp

declare fetchstr_loop.simps [simp del]

text \<open>
  \<open>fetchstr\<close> gives the string itself; the source returns its length and its address. Memory
  is not shared, so the string stays as it is while the system call runs.
\<close>

definition fetchstr :: "uint \<Rightarrow> ('a kproc_scheme, uchar list option) kop" where
  "fetchstr addr =
     bnd (fetch (\<lambda>s. p_sz (cur_proc s))) (\<lambda>sz.
     if addr \<ge> sz then ret None else fetchstr_loop addr sz)"

definition argint :: "nat \<Rightarrow> ('a kproc_scheme, uint option) kop" where
  "argint n = bnd (fetch (\<lambda>s. tf_esp (p_tf (cur_proc s)))) (\<lambda>esp. fetchint (esp + 4 + 4 * of_nat n))"

definition argptr :: "nat \<Rightarrow> int \<Rightarrow> ('a kproc_scheme, uint option) kop" where
  "argptr n sz0 =
     bnd (argint n) (\<lambda>r. case r of
       None \<Rightarrow> ret None
     | Some i \<Rightarrow>
         bnd (fetch (\<lambda>s. p_sz (cur_proc s))) (\<lambda>sz.
         if sz0 < 0 \<or> i \<ge> sz \<or> i + word_of_int sz0 > sz then ret None
         else ret (Some i)))"

definition argstr :: "nat \<Rightarrow> ('a kproc_scheme, uchar list option) kop" where
  "argstr n = bnd (argint n) (\<lambda>r. case r of None \<Rightarrow> ret None | Some addr \<Rightarrow> fetchstr addr)"

text \<open>
  The dispatcher. \<open>table\<close> is the array \<^verbatim>\<open>syscalls\<close>; the message about an unknown system call is
  left out.
\<close>

definition syscall :: "(nat \<Rightarrow> ('a kproc_scheme, int) kop option) \<Rightarrow> ('a kproc_scheme, unit) kop" where
  "syscall table =
     bnd (fetch (\<lambda>s. sint (tf_eax (p_tf (cur_proc s))))) (\<lambda>num.
     bnd (case (if num > 0 \<and> num < 22 then table (nat num) else None) of
            Some f \<Rightarrow> f
          | None \<Rightarrow> ret (- 1)) (\<lambda>r.
     bnd (fetch (\<lambda>s. the (curproc s))) (\<lambda>p.
     upd_proc p (\<lambda>q. q\<lparr>p_tf := (p_tf q)\<lparr>tf_eax := word_of_int r\<rparr>\<rparr>))))"

section \<open>User memory\<close>

text \<open>The byte a process has at an address, if the page is present.\<close>

definition ubyte :: "'a kproc_scheme \<Rightarrow> uint \<Rightarrow> uchar option" where
  "ubyte s va = map_option (mem s) (translate (mem s) (p_pgdir (cur_proc s)) va)"

text \<open>Every address below the size of the process is mapped.\<close>

definition user_mapped :: "'a kproc_scheme \<Rightarrow> bool" where
  "user_mapped s \<longleftrightarrow> (\<forall>va. va < p_sz (cur_proc s) \<longrightarrow> ubyte s va \<noteq> None)"

text \<open>The process has the string \<open>cs\<close>, ended by a NUL, at address \<open>a\<close>, all of it below \<open>ep\<close>.\<close>

definition ustring :: "'a kproc_scheme \<Rightarrow> uint \<Rightarrow> uint \<Rightarrow> uchar list \<Rightarrow> bool" where
  "ustring s a ep cs \<longleftrightarrow> unat a + length cs < unat ep \<and> 0 \<notin> set cs \<and>
     (\<forall>i < length cs. ubyte s (a + of_nat i) = Some (cs ! i)) \<and> ubyte s (a + of_nat (length cs)) = Some 0"

lemma uload_run: "uload va s = (case ubyte s va of None \<Rightarrow> Panic ''trap'' | Some b \<Rightarrow> Ok b s)"
  by (simp add: uload_def ubyte_def run_simps split: option.splits)

lemma run_uload: "ubyte s va = Some b \<Longrightarrow> bnd (uload va) k s = k b s"
  by (rule bnd_step) (simp add: uload_run)

lemma unat_Suc_below: "(a :: uint) < ep \<Longrightarrow> unat (a + 1) = unat a + 1"
proof -
  assume "a < ep"
  then have "unat a < unat ep" by (simp add: word_less_nat_alt)
  then have "unat a + 1 < 4294967296" using unat_uint_less[of ep] by linarith
  then show ?thesis by (simp add: unat_word_ariths)
qed

lemma ustring_Nil: "ubyte s a = Some 0 \<Longrightarrow> a < ep \<Longrightarrow> ustring s a ep []"
  by (simp add: ustring_def word_less_nat_alt)

lemma ustring_Cons:
  assumes "ubyte s a = Some c" "c \<noteq> 0" "a < ep" "ustring s (a + 1) ep cs"
  shows "ustring s a ep (c # cs)"
proof -
  have "ubyte s (a + of_nat i) = Some ((c # cs) ! i)" if "i < length (c # cs)" for i
    using that assms by (cases i) (auto simp: ustring_def add.assoc)
  then show ?thesis using assms unat_Suc_below[OF assms(3)] by (simp add: ustring_def add.assoc)
qed

lemma fetchstr_loop_run:
  assumes "\<forall>va. a \<le> va \<and> va < ep \<longrightarrow> ubyte s va \<noteq> None"
  shows "\<exists>r. fetchstr_loop a ep s = Ok r s \<and>
    (case r of Some cs \<Rightarrow> ustring s a ep cs | None \<Rightarrow> \<forall>va. a \<le> va \<and> va < ep \<longrightarrow> ubyte s va \<noteq> Some 0)"
  using assms
proof (induction a ep rule: fetchstr_loop.induct)
  case (1 a ep)
  show ?case
  proof (cases "a < ep")
    case False
    then show ?thesis by (auto simp: fetchstr_loop.simps[of a] ret_def)
  next
    case True
    then obtain c where c: "ubyte s a = Some c" using "1.prems" by force
    note step = fetchstr_loop.simps[of a] True run_uload[OF c]
    show ?thesis
    proof (cases "c = 0")
      case True
      then show ?thesis using c ustring_Nil[OF _ \<open>a < ep\<close>] by (intro exI[of _ "Some []"]) (simp add: step ret_def)
    next
      case False
      have nxt: "a < va" if "a + 1 \<le> va" for va
        using that unat_Suc_below[OF True] by (simp add: word_le_nat_alt word_less_nat_alt)
      then have "\<forall>va. a + 1 \<le> va \<and> va < ep \<longrightarrow> ubyte s va \<noteq> None" using "1.prems" by (auto simp: less_imp_le)
      from "1.IH"[OF True False this] obtain r where r: "fetchstr_loop (a + 1) ep s = Ok r s"
        "case r of Some cs \<Rightarrow> ustring s (a + 1) ep cs | None \<Rightarrow> \<forall>va. a + 1 \<le> va \<and> va < ep \<longrightarrow> ubyte s va \<noteq> Some 0" by blast
      have e: "fetchstr_loop a ep s = Ok (map_option (\<lambda>cs. c # cs) r) s"
        using False r(1) by (simp add: step bnd_step[where m = "fetchstr_loop (a + 1) ep"] ret_def)
      have "ubyte s va \<noteq> Some 0" if n: "r = None" and v: "a \<le> va" "va < ep" for va
      proof (cases "va = a")
        case True then show ?thesis using c False by simp
      next
        case F: False
        then have "a + 1 \<le> va" using v by (simp add: inc_le)
        then show ?thesis using r(2) n v by simp
      qed
      then show ?thesis using e r(2) ustring_Cons[OF c False True] by (cases r) auto
    qed
  qed
qed

text \<open>Fetching arguments leaves the state alone.\<close>

lemma uread_same: "uread va n s = Ok bs t \<Longrightarrow> t = s"
  by (induction n arbitrary: va bs t) (auto simp: uload_run bnd_Ok ret_def split: option.splits)

lemma argint_same: "argint k s = Ok r t \<Longrightarrow> t = s"
  by (auto simp: argint_def fetchint_def run_simps bnd_Ok ret_def dest: uread_same split: if_splits)

lemma block_below:
  assumes "(i :: uint) < sz" "sz \<le> KERNBASE" "0 \<le> n" "n < 2 ^ 31" "i + word_of_int n \<le> sz"
  shows "unat i + nat n \<le> unat sz"
proof -
  have n: "unat (word_of_int n :: uint) = nat n"
    using assms(3,4) by (simp add: unat_eq_nat_uint uint_word_of_int)
  have "unat i < unat sz" "unat sz \<le> 2147483648" using assms(1,2) by (simp_all add: word_less_nat_alt word_le_nat_alt)
  moreover have "nat n < 2147483648" using assms(3,4) by simp
  ultimately have "unat (i + word_of_int n) = unat i + nat n" by (simp add: unat_word_ariths n)
  then show ?thesis using assms(5) by (simp add: word_le_nat_alt)
qed

section \<open>Properties\<close>

text \<open>
  C15: \<open>argptr\<close> accepts a pointer only when the whole block of \<open>n\<close> bytes lies below the size of
  the process; the 32-bit sum in the test cannot wrap around because the size of a process is at
  most \<open>KERNBASE\<close>. It changes nothing.
\<close>
theorem argptr_bounds:
  assumes "argptr k n s = Ok (Some p) t" "p_sz (cur_proc s) \<le> KERNBASE" "n < 2 ^ 31"
  shows "t = s \<and> 0 \<le> n \<and> unat p + nat n \<le> unat (p_sz (cur_proc s)) \<and> unat p < unat (p_sz (cur_proc s))"
proof -
  obtain r u where "argint k s = Ok r u" using assms(1) by (auto simp: argptr_def bnd_Ok)
  with argint_same[OF this] have r: "argint k s = Ok r s" by simp
  note run = bnd_step[where m = "argint k" and s = s, OF r]
  obtain i where "r = Some i" using assms(1) by (cases r) (simp_all add: argptr_def run ret_def)
  then have "(if n < 0 \<or> i \<ge> p_sz (cur_proc s) \<or> i + word_of_int n > p_sz (cur_proc s) then ret None else ret (Some i)) s = Ok (Some p) t"
    using assms(1) by (simp add: argptr_def run run_simps)
  then have "p = i" "t = s" "0 \<le> n" "i < p_sz (cur_proc s)" "i + word_of_int n \<le> p_sz (cur_proc s)"
    by (auto simp: run_simps split: if_splits)
  then show ?thesis using block_below[of i "p_sz (cur_proc s)" n] assms(2,3) by (simp add: word_less_nat_alt)
qed

text \<open>A process with one page of memory at address 0, with the first system call argument 8 and the string hi at address 8.\<close>

definition demo_user :: kproc where
  "demo_user = \<lparr>held = {}, mem = put_bytes (wr32 (wr32 (\<lambda>_. 0) 0x80200000 0x201007) 0x80201000 0x202007)
       0x80202000 (le32 0 @ le32 8 @ [0x68, 0x69, 0]), freelist = 0, use_lock = True, kend = 0x80100000,
     ptable = [zero_proc\<lparr>p_state := RUNNING, p_pid := 1, p_sz := 4096, p_pgdir := 0x80200000,
       p_tf := zero_tf\<lparr>tf_esp := 0\<rparr>\<rparr>],
     initproc = Some 0, nextpid = 2, curproc = Some 0\<rparr>"

lemma demo_tables: "rd32 (mem demo_user) 0x80200000 = 0x201007" "rd32 (mem demo_user) 0x80201000 = 0x202007"
proof -
  let ?m = "wr32 (wr32 (\<lambda>_. 0) 0x80200000 0x201007) 0x80201000 0x202007"
  have off: "\<not> unat (b + of_nat k - 0x80202000 :: uint) < 11" if "k < 4" "b = 0x80200000 \<or> b = 0x80201000" for k b
  proof -
    have "k = 0 \<or> k = 1 \<or> k = 2 \<or> k = 3" using that(1) by linarith
    then show ?thesis using that(2) by auto
  qed
  have rd: "rd32 (mem demo_user) b = rd32 ?m b" if "b = 0x80200000 \<or> b = 0x80201000" for b
    unfolding demo_user_def by (simp, rule rd32_put_bytes) (use off[OF _ that] in simp)
  show "rd32 (mem demo_user) 0x80200000 = 0x201007" "rd32 (mem demo_user) 0x80201000 = 0x202007"
    by (simp_all add: rd rd32_wr32_other)
qed

lemma demo_translate:
  assumes "va < 4096"
  shows "translate (mem demo_user) 0x80200000 va = Some (0x80202000 + va)"
  using first_page[OF assms]
  by (simp add: translate_def pt_entry_def entry_def demo_tables PTE_ADDR_def P2V_def Let_def)

lemma demo_ubyte:
  "va < 4096 \<Longrightarrow> unat va < 11 \<Longrightarrow> ubyte demo_user va = Some ((le32 0 @ le32 8 @ [0x68, 0x69, 0]) ! unat va)"
  using demo_translate[of va] by (simp add: ubyte_def demo_user_def cur_proc_def put_bytes_def)

lemma demo_bytes:
  "ubyte demo_user 4 = Some 8" "ubyte demo_user 5 = Some 0" "ubyte demo_user 6 = Some 0" "ubyte demo_user 7 = Some 0"
  "ubyte demo_user 8 = Some 0x68" "ubyte demo_user 9 = Some 0x69" "ubyte demo_user 10 = Some 0"
  by (simp_all add: demo_ubyte le32_def)

lemma demo_size [simp]: "p_sz (cur_proc demo_user) = 4096" "tf_esp (p_tf (cur_proc demo_user)) = 0" "p_pgdir (cur_proc demo_user) = 0x80200000"
  by (simp_all add: demo_user_def cur_proc_def)

lemma demo_mapped: "user_mapped demo_user"
  using demo_translate by (auto simp: user_mapped_def ubyte_def)

theorem argptr_bounds_witness:
  "argptr 0 100 demo_user = Ok (Some 8) demo_user \<and> unat (8 :: uint) + nat 100 \<le> unat (p_sz (cur_proc demo_user))"
proof -
  have "uread 4 4 demo_user = Ok [8, 0, 0, 0] demo_user"
    by (simp add: eval_nat_numeral uload_run demo_bytes bnd_def ret_def)
  then have a: "argptr 0 100 demo_user = Ok (Some 8) demo_user"
    by (simp add: argptr_def argint_def fetchint_def run_simps bnd_step[where m = "uread 4 4" and s = demo_user] un32_def)
  then show ?thesis using argptr_bounds[OF a] by simp
qed

text \<open>
  C16: \<open>fetchstr\<close> on mapped memory always returns: the string at the address when there is a NUL
  below the size of the process, and -1 exactly when there is none. It never reads at or
  above the size.
\<close>
theorem fetchstr_spec:
  assumes "user_mapped s"
  shows "\<exists>r. fetchstr a s = Ok r s \<and>
    (case r of Some cs \<Rightarrow> ustring s a (p_sz (cur_proc s)) cs
     | None \<Rightarrow> \<forall>va. a \<le> va \<and> va < p_sz (cur_proc s) \<longrightarrow> ubyte s va \<noteq> Some 0)"
proof (cases "a < p_sz (cur_proc s)")
  case True
  then have "fetchstr a s = fetchstr_loop a (p_sz (cur_proc s)) s" by (simp add: fetchstr_def run_simps not_le[symmetric])
  then show ?thesis using fetchstr_loop_run[of a "p_sz (cur_proc s)" s] assms by (simp add: user_mapped_def)
next
  case False
  then show ?thesis by (auto simp: fetchstr_def run_simps not_less)
qed

theorem fetchstr_spec_witness:
  "\<exists>cs. fetchstr 8 demo_user = Ok (Some cs) demo_user \<and> ustring demo_user 8 4096 cs"
proof -
  obtain r where r: "fetchstr 8 demo_user = Ok r demo_user"
    "case r of Some cs \<Rightarrow> ustring demo_user 8 4096 cs | None \<Rightarrow> \<forall>va. 8 \<le> va \<and> va < 4096 \<longrightarrow> ubyte demo_user va \<noteq> Some 0"
    using fetchstr_spec[OF demo_mapped, of 8] unfolding demo_size by blast
  then show ?thesis using demo_bytes(7) by (cases r) auto
qed

end
