(* ===== verification/Sleeplock.thy ===== *)
theory Sleeplock
  imports Proc
begin

text \<open>
  The sleep locks of \<^verbatim>\<open>sleeplock.c\<close>. They sit inside buffers and inodes, so the routines take a
  reference: how to read and set the lock in the state, the spin lock inside it and the
  channel its waiters sleep on. The locale says what a reference has to satisfy; the buffer
  cache and the inode cache interpret it.
\<close>

record sleeplock =
  sl_locked :: bool
  sl_pid :: int

record 's slref =
  sl_get :: "'s \<Rightarrow> sleeplock"
  sl_set :: "sleeplock \<Rightarrow> 's \<Rightarrow> 's"
  sl_lk :: lockid
  sl_chan :: chan

definition initsleeplock :: "'a kproc_scheme slref \<Rightarrow> ('a kproc_scheme, unit) kop" where
  "initsleeplock r = modify (sl_set r \<lparr>sl_locked = False, sl_pid = 0\<rparr>)"

definition mypid :: "'a kproc_scheme \<Rightarrow> int" where
  "mypid s = p_pid (ptable s ! the (curproc s))"

text \<open>
  \<open>acquiresleep\<close> from the head of its loop on. A process that has to wait leaves through
  \<open>sleep\<close>; when it runs again it finishes \<open>sleep\<close> with \<open>sleep_wake\<close> and is back at the head of
  the loop.
\<close>

definition acquiresleep_loop :: "'a kproc_scheme slref \<Rightarrow> ('a kproc_scheme, unit) kop" where
  "acquiresleep_loop r =
     bnd (fetch (sl_get r)) (\<lambda>l.
     if sl_locked l then sleep (sl_chan r) (sl_lk r)
     else
       seq (modify (\<lambda>s. sl_set r ((sl_get r s)\<lparr>sl_locked := True\<rparr>) s))
       (seq (modify (\<lambda>s. sl_set r ((sl_get r s)\<lparr>sl_pid := mypid s\<rparr>) s))
       (krelease (sl_lk r))))"

definition acquiresleep :: "'a kproc_scheme slref \<Rightarrow> ('a kproc_scheme, unit) kop" where
  "acquiresleep r = seq (kacquire (sl_lk r)) (acquiresleep_loop r)"

definition releasesleep :: "'a kproc_scheme slref \<Rightarrow> ('a kproc_scheme, unit) kop" where
  "releasesleep r =
     seq (kacquire (sl_lk r))
     (seq (modify (\<lambda>s. sl_set r ((sl_get r s)\<lparr>sl_locked := False\<rparr>) s))
     (seq (modify (\<lambda>s. sl_set r ((sl_get r s)\<lparr>sl_pid := 0\<rparr>) s))
     (seq (wakeup (sl_chan r))
     (krelease (sl_lk r)))))"

definition holdingsleep :: "'a kproc_scheme slref \<Rightarrow> ('a kproc_scheme, bool) kop" where
  "holdingsleep r =
     seq (kacquire (sl_lk r))
     (bnd (fetch (\<lambda>s. sl_locked (sl_get r s) \<and> sl_pid (sl_get r s) = mypid s)) (\<lambda>b.
     seq (krelease (sl_lk r))
     (ret b)))"

lemma sleeplock_full: "(l::sleeplock)\<lparr>sl_locked := a, sl_pid := b\<rparr> = \<lparr>sl_locked = a, sl_pid = b\<rparr>"
  by simp

lemma mypid_held [simp]: "mypid (s\<lparr>held := h\<rparr>) = mypid s"
  by (simp add: mypid_def)

section \<open>References to sleep locks\<close>

locale sleep_lock =
  fixes r :: "'a kproc_scheme slref" and ok :: "'a kproc_scheme \<Rightarrow> bool"
  assumes get_set: "ok s \<Longrightarrow> sl_get r (sl_set r l s) = l"
    and set_set: "sl_set r l (sl_set r l' s) = sl_set r l s"
    and set_get: "sl_set r (sl_get r s) s = s"
    and set_held: "sl_set r l (s\<lparr>held := h\<rparr>) = (sl_set r l s)\<lparr>held := h\<rparr>"
    and set_ptable: "sl_set r l (s\<lparr>ptable := pt\<rparr>) = (sl_set r l s)\<lparr>ptable := pt\<rparr>"
    and get_held: "sl_get r (s\<lparr>held := h\<rparr>) = sl_get r s"
    and held_set: "held (sl_set r l s) = held s"
    and ptable_set: "ptable (sl_set r l s) = ptable s"
    and curproc_set: "curproc (sl_set r l s) = curproc s"
    and ok_held: "ok (s\<lparr>held := h\<rparr>) = ok s"
    and lk: "sl_lk r \<noteq> L_ptable"
begin

lemma mypid_set: "mypid (sl_set r l s) = mypid s"
  by (simp add: mypid_def ptable_set curproc_set)

lemma set_held_back: "(sl_set r l s)\<lparr>held := held s\<rparr> = sl_set r l s"
  using set_held[where s = s and h = "held s"] by simp

lemma set_ptable_held_back: "(sl_set r l s)\<lparr>ptable := pt, held := held s\<rparr> = (sl_set r l s)\<lparr>ptable := pt\<rparr>"
  using set_held_back[where s = "s\<lparr>ptable := pt\<rparr>"] by (simp add: set_ptable)

lemmas laws = get_set set_set set_held set_ptable get_held held_set ptable_set curproc_set ok_held mypid_set
  set_held_back set_ptable_held_back sleeplock_full lk lk[symmetric]

lemma set_back: "ok s \<Longrightarrow> sl_get r s = l \<Longrightarrow> sl_set r l s = s"
  using set_get by metis

text \<open>A free lock is taken at once, by the running process.\<close>

lemma acquiresleep_free:
  assumes "ok s" "sl_lk r \<notin> held s" "\<not> sl_locked (sl_get r s)"
  shows "acquiresleep r s = Ok () (sl_set r \<lparr>sl_locked = True, sl_pid = mypid s\<rparr> s)"
  using assms by (simp add: acquiresleep_def acquiresleep_loop_def run_simps laws krelease_def)

text \<open>
  A process that finds the lock taken is asleep on the lock's channel, with both spin locks
  released as the scheduler requires, and the lock is as it was.
\<close>

lemma acquiresleep_waits:
  assumes "held s = {}" "sl_locked (sl_get r s)" "curproc s = Some p" "p < length (ptable s)"
  shows "acquiresleep r s = Swtch (s\<lparr>held := {L_ptable},
    ptable := set_proc p (\<lambda>q. q\<lparr>p_chan := Some (sl_chan r), p_state := SLEEPING\<rparr>) (ptable s)\<rparr>)"
proof -
  have h: "insert L_ptable {sl_lk r} - {sl_lk r} = {L_ptable}" using lk by auto
  have "set_proc p (p_state_update (\<lambda>_. SLEEPING)) (set_proc p (p_chan_update (\<lambda>_. Some (sl_chan r))) (ptable s)) =
      set_proc p (\<lambda>q. q\<lparr>p_chan := Some (sl_chan r), p_state := SLEEPING\<rparr>) (ptable s)"
    using assms(4) by (simp add: set_proc_def)
  then show ?thesis using assms lk
    by (simp add: acquiresleep_def acquiresleep_loop_def sleep_def run_simps get_held h sched_def bnd_def[of sched])
qed

lemma holdingsleep_eq:
  assumes "sl_lk r \<notin> held s"
  shows "holdingsleep r s = Ok (sl_locked (sl_get r s) \<and> sl_pid (sl_get r s) = mypid s) s"
  using assms by (simp add: holdingsleep_def run_simps get_held mypid_def)

lemma releasesleep_eq:
  assumes "ok s" "sl_lk r \<notin> held s" "L_ptable \<notin> held s"
  shows "releasesleep r s = Ok () ((sl_set r \<lparr>sl_locked = False, sl_pid = 0\<rparr> s)
    \<lparr>ptable := wakeup1 (Some (sl_chan r)) (ptable s)\<rparr>)"
  using assms by (simp add: releasesleep_def wakeup_def run_simps laws krelease_def)

end

end
