(* ===== verification/Ring.thy ===== *)
theory Ring
  imports Prelude
begin

text \<open>
  Ring buffers with free-running 32-bit counters, as the pipe of \<^verbatim>\<open>pipe.c\<close> and the console input
  of \<^verbatim>\<open>console.c\<close> have them: the counters are never reduced, an index is a counter modulo the
  size of the buffer, and the counters wrap around at \<open>2 ^ 32\<close>. A size that divides \<open>2 ^ 32\<close>
  makes this correct; the locale has the lemmas, the two buffers interpret it.
\<close>

definition ring_contents :: "nat \<Rightarrow> uchar list \<Rightarrow> uint \<Rightarrow> uint \<Rightarrow> uchar list" where
  "ring_contents N d r w = map (\<lambda>k. d ! (unat (r + of_nat k) mod N)) [0..<unat (w - r)]"

lemma length_ring_contents [simp]: "length (ring_contents N d r w) = unat (w - r)"
  by (simp add: ring_contents_def)

lemma ring_contents_empty [simp]: "ring_contents N d r r = []"
  by (simp add: ring_contents_def)

lemma ring_diff_Suc:
  fixes r w :: uint
  assumes "unat (w - r) < 4294967295"
  shows "unat (w + 1 - r) = Suc (unat (w - r))"
proof -
  have "unat (x + 1) = Suc (unat x)" if "unat x < 4294967295" for x :: uint
    using that by (simp add: unat_word_ariths(1))
  from this[OF assms] show ?thesis by (simp add: diff_add_eq)
qed

lemma ring_diff_pred:
  fixes r w :: uint
  assumes "r \<noteq> w"
  shows "unat (w - r) = Suc (unat (w - (r + 1)))"
proof -
  have "w - r \<noteq> 0" using assms by simp
  then have "unat (w - r) = Suc (unat (w - r - 1))" by (metis Suc_pred' unat_gt_0 unat_minus_one)
  then show ?thesis by (simp add: diff_diff_add)
qed

locale ring =
  fixes N :: nat
  assumes pos: "0 < N" and dv: "N dvd 4294967296"
begin

text \<open>The counters may wrap: indices still step through the buffer.\<close>

lemma idx_add: "unat (x + of_nat k :: uint) mod N = (unat x + k) mod N"
proof -
  have "unat (x + of_nat k :: uint) = (unat x + k) mod 4294967296"
    by (simp add: unat_word_ariths(1) unat_of_nat take_bit_eq_mod mod_simps)
  then show ?thesis using dv by (simp add: mod_mod_cancel)
qed

lemma idx_inj:
  assumes "i < N" "j < N" "(x + i) mod N = (x + j) mod N"
  shows "i = j"
proof -
  have "False" if "a < b" "b < N" "(x + a) mod N = (x + b) mod N" for a b :: nat
  proof -
    have "N dvd (x + b) - (x + a)" using that mod_eq_dvd_iff_nat[of "x + a" "x + b" N] by simp
    then have "N dvd b - a" by simp
    then show False using that by (auto dest: dvd_imp_le)
  qed
  then show ?thesis using assms by (metis linorder_neqE_nat)
qed

lemma idx_less [simp]: "x mod N < N"
  using pos by simp

lemma push:
  assumes "length d = N" "unat (w - r) < N" "N < 4294967296"
  shows "ring_contents N (d[unat w mod N := c]) r (w + 1) = ring_contents N d r w @ [c]"
proof -
  let ?n = "unat (w - r)"
  have w: "w = r + of_nat ?n" by simp
  have n: "unat (w + 1 - r) = Suc ?n" using assms by (intro ring_diff_Suc) simp
  have wi: "unat w mod N = (unat r + ?n) mod N" using idx_add[of r ?n] w by simp
  have "ring_contents N (d[unat w mod N := c]) r (w + 1) =
      map (\<lambda>k. d[unat w mod N := c] ! ((unat r + k) mod N)) [0..<?n] @ [d[unat w mod N := c] ! ((unat r + ?n) mod N)]"
    unfolding ring_contents_def n idx_add by simp
  also have "d[unat w mod N := c] ! ((unat r + ?n) mod N) = c" using assms(1) wi by simp
  also have "map (\<lambda>k. d[unat w mod N := c] ! ((unat r + k) mod N)) [0..<?n] = map (\<lambda>k. d ! ((unat r + k) mod N)) [0..<?n]"
  proof (rule map_cong)
    fix k assume "k \<in> set [0..<?n]"
    then have "(unat r + k) mod N \<noteq> unat w mod N" unfolding wi using idx_inj[of k ?n "unat r"] assms(2) by auto
    then show "d[unat w mod N := c] ! ((unat r + k) mod N) = d ! ((unat r + k) mod N)" by simp
  qed simp
  finally show ?thesis unfolding ring_contents_def idx_add .
qed

lemma pop:
  assumes "r \<noteq> w"
  shows "ring_contents N d r w = d ! (unat r mod N) # ring_contents N d (r + 1) w"
proof -
  have n: "unat (w - r) = Suc (unat (w - (r + 1)))" using assms by (rule ring_diff_pred)
  have r1: "unat (r + 1) mod N = (unat r + 1) mod N" using idx_add[of r 1] by simp
  have "(unat (r + 1) + k) mod N = (unat r + Suc k) mod N" for k
    using r1 by (metis Suc_eq_plus1_left add.assoc mod_add_left_eq)
  then show ?thesis unfolding ring_contents_def n idx_add upt_conv_Cons[OF zero_less_Suc] map_Suc_upt[symmetric]
    by (simp add: comp_def)
qed

text \<open>Taking back the last byte.\<close>

lemma unpush:
  assumes "r \<noteq> w"
  shows "ring_contents N d r (w - 1) = butlast (ring_contents N d r w)"
    "last (ring_contents N d r w) = d ! (unat (w - 1) mod N)"
proof -
  have "w - r \<noteq> 0" using assms by simp
  then have n: "unat (w - r) = Suc (unat (w - 1 - r))"
    by (metis Suc_pred' diff_right_commute unat_gt_0 unat_minus_one)
  have w: "w - 1 = r + of_nat (unat (w - 1 - r))" by simp
  show "ring_contents N d r (w - 1) = butlast (ring_contents N d r w)"
    unfolding ring_contents_def n by simp
  show "last (ring_contents N d r w) = d ! (unat (w - 1) mod N)"
    unfolding ring_contents_def n using w by simp
qed

end

end
