(* ===== verification/Pipe.thy ===== *)
theory Pipe
  imports Proc Ring
begin

text \<open>
  Pipes, \<^verbatim>\<open>pipe.c\<close>. A pipe lives in a page of its own; the state maps the address of the page to
  the structure. The bytes a pipe holds are a ring buffer whose counters wrap around. The
  theorems: reading returns exactly what was written, in order and once, whatever way
  readers and writers interleave and however often the counters wrap; what a write to a full
  pipe and a read from an empty one do. \<open>pipealloc\<close> is with the file table.
\<close>

abbreviation (input) PIPESIZE :: nat where "PIPESIZE \<equiv> 512"

record pipe =
  pi_data :: "uchar list"
  pi_nread :: uint
  pi_nwrite :: uint
  pi_readopen :: bool
  pi_writeopen :: bool

record kpipe = kproc +
  pipes :: "uint \<Rightarrow> pipe option"

definition pipe_at :: "uint \<Rightarrow> 'a kpipe_scheme \<Rightarrow> pipe" where
  "pipe_at a s = the (pipes s a)"

definition upd_pipe :: "uint \<Rightarrow> (pipe \<Rightarrow> pipe) \<Rightarrow> ('a kpipe_scheme, unit) kop" where
  "upd_pipe a f = modify (\<lambda>s. s\<lparr>pipes := (pipes s)(a := Some (f (pipe_at a s)))\<rparr>)"

definition mykilled :: "'a kproc_scheme \<Rightarrow> bool" where
  "mykilled s = p_killed (ptable s ! the (curproc s))"

definition pipeclose :: "uint \<Rightarrow> bool \<Rightarrow> ('a kpipe_scheme, unit) kop" where
  "pipeclose a writable =
     seq (kacquire (L_pipe a))
     (seq (if writable then
             seq (upd_pipe a (\<lambda>p. p\<lparr>pi_writeopen := False\<rparr>)) (wakeup (ChPipeRead a))
           else
             seq (upd_pipe a (\<lambda>p. p\<lparr>pi_readopen := False\<rparr>)) (wakeup (ChPipeWrite a)))
     (bnd (fetch (pipe_at a)) (\<lambda>p.
     if \<not> pi_readopen p \<and> \<not> pi_writeopen p then
       seq (krelease (L_pipe a))
       (seq (modify (\<lambda>s. s\<lparr>pipes := (pipes s)(a := None)\<rparr>))
       (kfree a))
     else krelease (L_pipe a))))"

text \<open>\<^verbatim>\<open>p->data[p->nwrite++ % PIPESIZE] = c\<close> and \<^verbatim>\<open>p->data[p->nread++ % PIPESIZE]\<close>.\<close>

definition pipe_put :: "uchar \<Rightarrow> pipe \<Rightarrow> pipe" where
  "pipe_put c p = p\<lparr>pi_data := (pi_data p)[unat (pi_nwrite p) mod PIPESIZE := c], pi_nwrite := pi_nwrite p + 1\<rparr>"

definition pipe_full :: "pipe \<Rightarrow> bool" where
  "pipe_full p \<longleftrightarrow> pi_nwrite p = pi_nread p + of_nat PIPESIZE"

text \<open>
  \<open>pipewrite\<close> from the head of its loops on, with the bytes still to write; \<open>n\<close> is the number
  asked for. On a full pipe the process sleeps and comes back here with the same bytes.
\<close>

fun pipewrite_loop :: "uint \<Rightarrow> int \<Rightarrow> uchar list \<Rightarrow> ('a kpipe_scheme, int) kop" where
  "pipewrite_loop a n [] =
     seq (wakeup (ChPipeRead a))
     (seq (krelease (L_pipe a))
     (ret n))"
| "pipewrite_loop a n (c # cs) =
     bnd (fetch (\<lambda>s. (pipe_at a s, mykilled s))) (\<lambda>(p, killed).
     if pipe_full p then
       if \<not> pi_readopen p \<or> killed then seq (krelease (L_pipe a)) (ret (- 1))
       else
         seq (wakeup (ChPipeRead a))
         (seq (sleep (ChPipeWrite a) (L_pipe a))
         (ret 0))
     else
       seq (upd_pipe a (pipe_put c))
       (pipewrite_loop a n cs))"

definition pipewrite :: "uint \<Rightarrow> uchar list \<Rightarrow> ('a kpipe_scheme, int) kop" where
  "pipewrite a src =
     seq (kacquire (L_pipe a))
     (pipewrite_loop a (int (length src)) src)"

text \<open>The copy loop of \<open>piperead\<close>: at most \<open>k\<close> more bytes.\<close>

fun piperead_copy :: "nat \<Rightarrow> pipe \<Rightarrow> uchar list \<times> pipe" where
  "piperead_copy 0 p = ([], p)"
| "piperead_copy (Suc k) p =
     (if pi_nread p = pi_nwrite p then ([], p)
      else
        let c = pi_data p ! (unat (pi_nread p) mod PIPESIZE);
            (cs, q) = piperead_copy k (p\<lparr>pi_nread := pi_nread p + 1\<rparr>)
        in (c # cs, q))"

text \<open>\<open>piperead\<close> from the head of its waiting loop on; the result is -1 or the bytes copied out.\<close>

definition piperead_loop :: "uint \<Rightarrow> int \<Rightarrow> ('a kpipe_scheme, int \<times> uchar list) kop" where
  "piperead_loop a n =
     bnd (fetch (\<lambda>s. (pipe_at a s, mykilled s))) (\<lambda>(p, killed).
     if pi_nread p = pi_nwrite p \<and> pi_writeopen p then
       if killed then seq (krelease (L_pipe a)) (ret (- 1, []))
       else seq (sleep (ChPipeRead a) (L_pipe a)) (ret (0, []))
     else
       (case piperead_copy (nat n) p of (cs, q) \<Rightarrow>
          seq (upd_pipe a (\<lambda>_. q))
          (seq (wakeup (ChPipeWrite a))
          (seq (krelease (L_pipe a))
          (ret (int (length cs), cs))))))"

definition piperead :: "uint \<Rightarrow> int \<Rightarrow> ('a kpipe_scheme, int \<times> uchar list) kop" where
  "piperead a n = seq (kacquire (L_pipe a)) (piperead_loop a n)"

section \<open>The contents of a pipe\<close>

interpretation pr: ring PIPESIZE
  by unfold_locales simp_all

definition pipe_ok :: "pipe \<Rightarrow> bool" where
  "pipe_ok p \<longleftrightarrow> length (pi_data p) = PIPESIZE \<and> unat (pi_nwrite p - pi_nread p) \<le> PIPESIZE"

definition pipe_bytes :: "pipe \<Rightarrow> uchar list" where
  "pipe_bytes p = ring_contents PIPESIZE (pi_data p) (pi_nread p) (pi_nwrite p)"

lemma pipe_full_iff:
  assumes "pipe_ok p"
  shows "pipe_full p \<longleftrightarrow> length (pipe_bytes p) = PIPESIZE"
proof -
  have "pipe_full p \<longleftrightarrow> pi_nwrite p - pi_nread p = 512" unfolding pipe_full_def by (auto simp: algebra_simps)
  also have "\<dots> \<longleftrightarrow> unat (pi_nwrite p - pi_nread p) = 512" by (simp add: word_unat_eq_iff)
  finally show ?thesis by (simp add: pipe_bytes_def)
qed

lemma pipe_put_ok:
  assumes "pipe_ok p" "\<not> pipe_full p"
  shows "pipe_ok (pipe_put c p)" "pipe_bytes (pipe_put c p) = pipe_bytes p @ [c]"
proof -
  have l: "unat (pi_nwrite p - pi_nread p) < PIPESIZE"
    using assms pipe_full_iff[OF assms(1)] by (simp add: pipe_ok_def pipe_bytes_def)
  show b: "pipe_bytes (pipe_put c p) = pipe_bytes p @ [c]"
    unfolding pipe_bytes_def pipe_put_def using pr.push[of "pi_data p" "pi_nwrite p" "pi_nread p" c] assms(1) l
    by (simp add: pipe_ok_def)
  have "unat (pi_nwrite p + 1 - pi_nread p) = Suc (unat (pi_nwrite p - pi_nread p))" using l by (intro ring_diff_Suc) simp
  then show "pipe_ok (pipe_put c p)" using assms(1) l by (simp add: pipe_ok_def pipe_put_def)
qed

lemma pipe_get_ok:
  assumes "pipe_ok p" "pi_nread p \<noteq> pi_nwrite p"
  shows "pipe_ok (p\<lparr>pi_nread := pi_nread p + 1\<rparr>)"
    "pipe_bytes p = pi_data p ! (unat (pi_nread p) mod PIPESIZE) # pipe_bytes (p\<lparr>pi_nread := pi_nread p + 1\<rparr>)"
proof -
  show "pipe_bytes p = pi_data p ! (unat (pi_nread p) mod PIPESIZE) # pipe_bytes (p\<lparr>pi_nread := pi_nread p + 1\<rparr>)"
    unfolding pipe_bytes_def using pr.pop[OF assms(2)] by simp
  show "pipe_ok (p\<lparr>pi_nread := pi_nread p + 1\<rparr>)"
    using assms ring_diff_pred[OF assms(2)] by (simp add: pipe_ok_def)
qed

lemma piperead_copy_eq:
  assumes "pipe_ok p" "piperead_copy k p = (cs, q)"
  shows "cs = take k (pipe_bytes p) \<and> pipe_bytes q = drop k (pipe_bytes p) \<and> pipe_ok q \<and>
    pi_readopen q = pi_readopen p \<and> pi_writeopen q = pi_writeopen p"
  using assms
proof (induction k arbitrary: p cs)
  case (Suc k)
  show ?case
  proof (cases "pi_nread p = pi_nwrite p")
    case True
    then have "pipe_bytes p = []" by (simp add: pipe_bytes_def)
    then show ?thesis using Suc.prems True by auto
  next
    case False
    note g = pipe_get_ok[OF Suc.prems(1) False]
    obtain ds where "piperead_copy k (p\<lparr>pi_nread := pi_nread p + 1\<rparr>) = (ds, q)"
      "cs = pi_data p ! (unat (pi_nread p) mod PIPESIZE) # ds"
      using Suc.prems(2) False by (auto simp: Let_def split: prod.splits)
    then show ?thesis using Suc.IH[OF g(1)] g(2) by auto
  qed
qed simp

section \<open>Running the routines\<close>

lemma run_pipe [run_simps]:
  "bnd (upd_pipe a f) k s = k () (s\<lparr>pipes := (pipes s)(a := Some (f (pipe_at a s)))\<rparr>)"
  by (simp add: upd_pipe_def run_simps)

lemma run_wakeup:
  assumes "L_ptable \<notin> held s"
  shows "bnd (wakeup c) k s = k () (s\<lparr>ptable := wakeup1 (Some c) (ptable s)\<rparr>)"
  using assms by (simp add: wakeup_def run_simps)

text \<open>With room for all the bytes the loop stores them and returns their number.\<close>

lemma pipewrite_loop_put:
  assumes "pipes s a = Some p" "\<not> pipe_full p"
  shows "pipewrite_loop a n (c # cs) s = pipewrite_loop a n cs (s\<lparr>pipes := (pipes s)(a := Some (pipe_put c p))\<rparr>)"
  using assms by (simp add: bnd_runs run_pipe pipe_at_def)

lemma pipewrite_loop_end:
  assumes "held s = {L_pipe a}"
  shows "pipewrite_loop a n [] s = Ok n (s\<lparr>held := {}, ptable := wakeup1 (Some (ChPipeRead a)) (ptable s)\<rparr>)"
  using assms by (simp add: run_wakeup run_simps)

lemma pipe_put_open [simp]:
  "pi_readopen (pipe_put c p) = pi_readopen p" "pi_writeopen (pipe_put c p) = pi_writeopen p"
  by (simp_all add: pipe_put_def)

lemma sleep_locked:
  assumes "held s = {lk}" "lk \<noteq> L_ptable" "curproc s = Some i" "i < length (ptable s)"
  shows "sleep c lk s = Swtch (s\<lparr>held := {L_ptable}, ptable := set_proc i (\<lambda>q. q\<lparr>p_chan := Some c, p_state := SLEEPING\<rparr>) (ptable s)\<rparr>)"
proof -
  have "set_proc i (p_state_update (\<lambda>_. SLEEPING)) (set_proc i (p_chan_update (\<lambda>_. Some c)) pt) =
      set_proc i (\<lambda>q. q\<lparr>p_chan := Some c, p_state := SLEEPING\<rparr>) pt" if "i < length pt" for pt
    using that by (simp add: set_proc_def)
  moreover have "insert L_ptable {lk} - {lk} = {L_ptable}" using assms(2) by auto
  ultimately show ?thesis using assms
    by (simp add: sleep_def run_simps set_proc_def bnd_swtch[where m = sched] sched_def bnd_def[of sched])
qed

lemma pipewrite_loop_wait:
  assumes "held s = {L_pipe a}" "pipes s a = Some p" "pipe_full p" "curproc s = Some i" "i < length (ptable s)"
  shows "pipewrite_loop a n (c # cs) s =
    (if \<not> pi_readopen p \<or> mykilled s then Ok (- 1) (s\<lparr>held := {}\<rparr>)
     else Swtch (s\<lparr>held := {L_ptable}, ptable := set_proc i (\<lambda>q. q\<lparr>p_chan := Some (ChPipeWrite a), p_state := SLEEPING\<rparr>)
       (wakeup1 (Some (ChPipeRead a)) (ptable s))\<rparr>))"
  using assms by (simp add: run_simps pipe_at_def run_wakeup bnd_swtch[OF sleep_locked])

declare pipewrite_loop.simps [simp del]

lemma pipewrite_loop_room:
  assumes "held s = {L_pipe a}" "pipes s a = Some p" "pipe_ok p" "length (pipe_bytes p) + length cs \<le> PIPESIZE"
  shows "\<exists>q. pipewrite_loop a n cs s = Ok n (s\<lparr>held := {}, pipes := (pipes s)(a := Some q),
      ptable := wakeup1 (Some (ChPipeRead a)) (ptable s)\<rparr>) \<and>
    pipe_ok q \<and> pipe_bytes q = pipe_bytes p @ cs \<and> pi_readopen q = pi_readopen p \<and> pi_writeopen q = pi_writeopen p"
  using assms
proof (induction cs arbitrary: s p)
  case Nil
  have "s\<lparr>held := h, pipes := (pipes s)(a := Some p), ptable := pt\<rparr> = s\<lparr>held := h, ptable := pt\<rparr>" for h pt
    using Nil.prems(2) by (simp add: fun_upd_idem)
  then show ?case using Nil.prems pipewrite_loop_end by (intro exI[of _ p]) (simp del: fun_upd_apply)
next
  case (Cons c cs)
  have nf: "\<not> pipe_full p" using pipe_full_iff[OF Cons.prems(3)] Cons.prems(4) by simp
  note put = pipe_put_ok[OF Cons.prems(3) nf, of c]
  let ?s = "s\<lparr>pipes := (pipes s)(a := Some (pipe_put c p))\<rparr>"
  have "held ?s = {L_pipe a}" "pipes ?s a = Some (pipe_put c p)"
    "length (pipe_bytes (pipe_put c p)) + length cs \<le> PIPESIZE" using Cons.prems put(2) by simp_all
  from Cons.IH[OF this(1,2) put(1) this(3)] show ?case
    unfolding pipewrite_loop_put[OF Cons.prems(2) nf] put(2) by (simp add: fun_upd_upd del: fun_upd_apply)
qed

text \<open>
  Without enough room the loop fills the pipe; then it fails when nobody reads any more or
  the process is killed, and otherwise the process sleeps until there is room.
\<close>

lemma pipewrite_loop_full:
  assumes "held s = {L_pipe a}" "pipes s a = Some p" "pipe_ok p" "PIPESIZE < length (pipe_bytes p) + length cs"
    "curproc s = Some i" "i < length (ptable s)"
  shows "\<exists>q. pipe_ok q \<and> pipe_bytes q = pipe_bytes p @ take (PIPESIZE - length (pipe_bytes p)) cs \<and>
    (if \<not> pi_readopen p \<or> mykilled s then pipewrite_loop a n cs s = Ok (- 1) (s\<lparr>held := {}, pipes := (pipes s)(a := Some q)\<rparr>)
     else pipewrite_loop a n cs s = Swtch (s\<lparr>held := {L_ptable}, pipes := (pipes s)(a := Some q),
       ptable := set_proc i (\<lambda>q. q\<lparr>p_chan := Some (ChPipeWrite a), p_state := SLEEPING\<rparr>) (wakeup1 (Some (ChPipeRead a)) (ptable s))\<rparr>))"
  using assms
proof (induction cs arbitrary: s p)
  case (Cons c cs)
  show ?case
  proof (cases "pipe_full p")
    case True
    have l: "length (pipe_bytes p) = PIPESIZE" using pipe_full_iff[OF Cons.prems(3)] True by simp
    have e: "s\<lparr>held := h, pipes := (pipes s)(a := Some p)\<rparr> = s\<lparr>held := h\<rparr>"
      "s\<lparr>held := h, pipes := (pipes s)(a := Some p), ptable := pt\<rparr> = s\<lparr>held := h, ptable := pt\<rparr>" for h pt
      using Cons.prems(2) by (simp_all add: fun_upd_idem)
    show ?thesis using pipewrite_loop_wait[OF Cons.prems(1,2) True Cons.prems(5,6)] Cons.prems(3) l
      by (intro exI[of _ p]) (simp add: e del: fun_upd_apply)
  next
    case False
    note put = pipe_put_ok[OF Cons.prems(3) False, of c]
    have l: "length (pipe_bytes p) < PIPESIZE"
      using pipe_full_iff[OF Cons.prems(3)] False Cons.prems(3) by (simp add: pipe_ok_def pipe_bytes_def)
    let ?s = "s\<lparr>pipes := (pipes s)(a := Some (pipe_put c p))\<rparr>"
    have t: "take (512 - length (pipe_bytes p)) (c # cs) = c # take (512 - length (pipe_bytes p @ [c])) cs"
      using l by (simp add: take_Cons')
    have h: "held ?s = {L_pipe a}" "pipes ?s a = Some (pipe_put c p)" "PIPESIZE < length (pipe_bytes (pipe_put c p)) + length cs"
      "curproc ?s = Some i" "i < length (ptable ?s)" "mykilled ?s = mykilled s"
      using Cons.prems put(2) by (simp_all add: mykilled_def)
    from Cons.IH[OF h(1,2) put(1) h(3-5)] show ?thesis
      unfolding pipewrite_loop_put[OF Cons.prems(2) False] put(2) t h(6)
      by (cases "pi_readopen p \<and> \<not> mykilled s") (simp_all add: fun_upd_upd del: fun_upd_apply)
  qed
qed (simp add: pipe_ok_def pipe_bytes_def)

lemma piperead_loop_ready:
  assumes "held s = {L_pipe a}" "pipes s a = Some p" "pipe_ok p" "pipe_bytes p \<noteq> [] \<or> \<not> pi_writeopen p"
  shows "\<exists>q. piperead_loop a n s = Ok (int (length (take (nat n) (pipe_bytes p))), take (nat n) (pipe_bytes p))
      (s\<lparr>held := {}, pipes := (pipes s)(a := Some q), ptable := wakeup1 (Some (ChPipeWrite a)) (ptable s)\<rparr>) \<and>
    pipe_ok q \<and> pipe_bytes q = drop (nat n) (pipe_bytes p)"
proof -
  obtain cs q where c: "piperead_copy (nat n) p = (cs, q)" by force
  note e = piperead_copy_eq[OF assms(3) c]
  have "\<not> (pi_nread p = pi_nwrite p \<and> pi_writeopen p)" using assms(4) by (auto simp: pipe_bytes_def)
  then show ?thesis using c e assms
    by (intro exI[of _ q]) (auto simp: piperead_loop_def run_simps pipe_at_def run_wakeup)
qed

section \<open>The properties\<close>

text \<open>
  C12: A pipe delivers what was written. Writing bytes to a pipe with room for them succeeds,
  returns their number, and a following read of at least as many bytes as the pipe holds
  returns the bytes it held before followed by the new ones and empties it. The counters may
  wrap around on the way.
\<close>
theorem pipe_write_read:
  assumes "held s = {}" "pipes s a = Some p" "pipe_ok p" "length (pipe_bytes p) + length src \<le> PIPESIZE"
    "int (length (pipe_bytes p) + length src) \<le> n" "src \<noteq> []"
  shows "\<exists>t u q. pipewrite a src s = Ok (int (length src)) t \<and>
    piperead a n t = Ok (int (length (pipe_bytes p @ src)), pipe_bytes p @ src) u \<and> pipes u a = Some q \<and> pipe_bytes q = []"
proof -
  let ?s = "s\<lparr>held := {L_pipe a}\<rparr>"
  obtain q where q: "pipewrite_loop a (int (length src)) src ?s = Ok (int (length src)) (?s\<lparr>held := {}, pipes := (pipes s)(a := Some q),
      ptable := wakeup1 (Some (ChPipeRead a)) (ptable s)\<rparr>)" "pipe_ok q" "pipe_bytes q = pipe_bytes p @ src"
    using pipewrite_loop_room[of ?s a p src "int (length src)"] assms by auto
  let ?t = "?s\<lparr>held := {}, pipes := (pipes s)(a := Some q), ptable := wakeup1 (Some (ChPipeRead a)) (ptable s)\<rparr>"
  have w: "pipewrite a src s = Ok (int (length src)) ?t" using q(1) assms(1) by (simp add: pipewrite_def run_simps)
  obtain r where r: "piperead_loop a n (?t\<lparr>held := {L_pipe a}\<rparr>) = Ok (int (length (take (nat n) (pipe_bytes q))), take (nat n) (pipe_bytes q))
      (?t\<lparr>held := {}, pipes := (pipes ?t)(a := Some r), ptable := wakeup1 (Some (ChPipeWrite a)) (ptable ?t)\<rparr>)" "pipe_bytes r = drop (nat n) (pipe_bytes q)"
    using piperead_loop_ready[of "?t\<lparr>held := {L_pipe a}\<rparr>" a q n] q assms(6) by auto
  have "take (nat n) (pipe_bytes q) = pipe_bytes p @ src" "drop (nat n) (pipe_bytes q) = []" using q(3) assms(5) by simp_all
  then have "piperead a n ?t = Ok (int (length (pipe_bytes p @ src)), pipe_bytes p @ src)
      (?t\<lparr>held := {}, pipes := (pipes ?t)(a := Some r), ptable := wakeup1 (Some (ChPipeWrite a)) (ptable ?t)\<rparr>)"
    using r(1) by (simp add: piperead_def run_simps)
  with w r(2) \<open>drop (nat n) (pipe_bytes q) = []\<close> show ?thesis by (intro exI conjI) (assumption | simp)+
qed

definition demo_pipe :: pipe where
  "demo_pipe = \<lparr>pi_data = replicate PIPESIZE 0, pi_nread = 0xFFFFFFFF, pi_nwrite = 0xFFFFFFFF, pi_readopen = True, pi_writeopen = True\<rparr>"

definition demo_pipes :: kpipe where
  "demo_pipes = \<lparr>held = {}, mem = (\<lambda>_. 0), freelist = 0, use_lock = True, kend = 0,
     ptable = [zero_proc\<lparr>p_state := RUNNING, p_pid := 1\<rparr>], initproc = Some 0, nextpid = 2, curproc = Some 0,
     pipes = (\<lambda>_. None)(0x80200000 := Some demo_pipe)\<rparr>"

lemma demo_pipe_ok: "pipe_ok demo_pipe" "pipe_bytes demo_pipe = []"
  by (simp_all add: pipe_ok_def pipe_bytes_def demo_pipe_def)

theorem pipe_write_read_witness:
  "\<exists>t u q. pipewrite 0x80200000 [1, 2, 3] demo_pipes = Ok 3 t \<and> piperead 0x80200000 100 t = Ok (3, [1, 2, 3]) u \<and>
     pipes u 0x80200000 = Some q \<and> pipe_bytes q = []"
  using pipe_write_read[of demo_pipes "0x80200000" demo_pipe "[1, 2, 3]" 100] demo_pipe_ok by (simp add: demo_pipes_def)

text \<open>
  C13: Writing more than fits fills the pipe, no byte lost and none overwritten. Then the write
  fails when the read end is closed or the writer was killed; otherwise the writer sleeps
  on the pipe with the lock released and the readers awake.
\<close>
theorem pipe_write_full:
  assumes "held s = {}" "pipes s a = Some p" "pipe_ok p" "PIPESIZE < length (pipe_bytes p) + length src"
    "curproc s = Some i" "i < length (ptable s)"
  shows "\<exists>q. pipe_bytes q = pipe_bytes p @ take (PIPESIZE - length (pipe_bytes p)) src \<and>
    (if \<not> pi_readopen p \<or> mykilled s then pipewrite a src s = Ok (- 1) (s\<lparr>pipes := (pipes s)(a := Some q)\<rparr>)
     else \<exists>t. pipewrite a src s = Swtch t \<and> held t = {L_ptable} \<and> pipes t a = Some q \<and>
       p_state (ptable t ! i) = SLEEPING \<and> p_chan (ptable t ! i) = Some (ChPipeWrite a))"
proof -
  let ?s = "s\<lparr>held := {L_pipe a}\<rparr>"
  have w: "pipewrite a src s = pipewrite_loop a (int (length src)) src ?s" using assms(1) by (simp add: pipewrite_def run_simps)
  have k: "mykilled ?s = mykilled s" by (simp add: mykilled_def)
  have h: "?s\<lparr>held := {}, pipes := x\<rparr> = s\<lparr>pipes := x\<rparr>" for x using held_id[OF assms(1)] by simp
  obtain q where q: "pipe_bytes q = pipe_bytes p @ take (PIPESIZE - length (pipe_bytes p)) src"
    "if \<not> pi_readopen p \<or> mykilled s then pipewrite a src s = Ok (- 1) (s\<lparr>pipes := (pipes s)(a := Some q)\<rparr>)
     else pipewrite a src s = Swtch (s\<lparr>held := {L_ptable}, pipes := (pipes s)(a := Some q),
       ptable := set_proc i (\<lambda>q. q\<lparr>p_chan := Some (ChPipeWrite a), p_state := SLEEPING\<rparr>) (wakeup1 (Some (ChPipeRead a)) (ptable s))\<rparr>)"
    using pipewrite_loop_full[of ?s a p src i "int (length src)"] assms unfolding w k h by (auto simp del: fun_upd_apply)
  then show ?thesis using assms(6)
    by (intro exI[of _ q]) (auto simp: set_proc_def split: if_splits)
qed

theorem pipe_write_full_witness:
  "\<exists>q t. pipe_bytes q = replicate PIPESIZE 7 \<and> pipewrite 0x80200000 (replicate 600 7) demo_pipes = Swtch t \<and>
     p_state (ptable t ! 0) = SLEEPING"
proof -
  have "\<exists>q. pipe_bytes q = pipe_bytes demo_pipe @ take (PIPESIZE - length (pipe_bytes demo_pipe)) (replicate 600 7) \<and>
    (if \<not> pi_readopen demo_pipe \<or> mykilled demo_pipes then pipewrite 0x80200000 (replicate 600 7) demo_pipes = Ok (- 1) (demo_pipes\<lparr>pipes := (pipes demo_pipes)(0x80200000 := Some q)\<rparr>)
     else \<exists>t. pipewrite 0x80200000 (replicate 600 7) demo_pipes = Swtch t \<and> held t = {L_ptable} \<and> pipes t 0x80200000 = Some q \<and>
       p_state (ptable t ! 0) = SLEEPING \<and> p_chan (ptable t ! 0) = Some (ChPipeWrite 0x80200000))"
    by (rule pipe_write_full) (use demo_pipe_ok in \<open>simp_all add: demo_pipes_def\<close>)
  moreover have "pi_readopen demo_pipe" "\<not> mykilled demo_pipes" by (simp_all add: demo_pipe_def mykilled_def demo_pipes_def zero_proc_def)
  moreover have "take 512 (replicate 600 (7::uchar)) = replicate 512 7" by (simp add: take_replicate)
  ultimately show ?thesis using demo_pipe_ok(2) by auto
qed

end
