(* ===== verification/Bio.thy ===== *)
theory Bio
  imports Sleeplock Pipe
begin

text \<open>
  The buffer cache of \<^verbatim>\<open>bio.c\<close> over the in-memory disk of \<^verbatim>\<open>memide.c\<close>. The list of buffers in
  order of use is a list of indices here; the theory \<open>Buflist\<close> shows that the pointer
  surgery of \<open>binit\<close>, \<open>bget\<close> and \<open>brelse\<close> maintains exactly that list. The contract proved at
  the end speaks of the contents of disk blocks as the rest of the kernel sees them,
  of the blocks that are held and of those that are dirty.
\<close>

abbreviation (input) BSIZE :: nat where "BSIZE \<equiv> 512"
abbreviation (input) NBUF :: nat where "NBUF \<equiv> 30"

text \<open>\<^verbatim>\<open>struct buf\<close>; the two bits of \<^verbatim>\<open>flags\<close> are \<open>b_valid\<close> and \<open>b_dirty\<close>.\<close>

record buf =
  b_valid :: bool
  b_dirty :: bool
  b_dev :: nat
  b_blockno :: nat
  b_lock :: sleeplock
  b_refcnt :: nat
  b_data :: "uchar list"

text \<open>
  \<open>bufs\<close> and \<open>lru\<close> are \<^verbatim>\<open>bcache\<close>: the array, and the list from \<^verbatim>\<open>head.next\<close> (most recently used) on.
  \<open>memdisk\<close> and \<open>disksize\<close> are those of \<^verbatim>\<open>memide.c\<close>, by block; \<open>dwrites\<close> records the writes to the
  disk, oldest first, for reasoning about crashes.
\<close>

record kbio = kpipe +
  bufs :: "buf list"
  lru :: "nat list"
  memdisk :: "nat \<Rightarrow> uchar list"
  disksize :: nat
  dwrites :: "(nat \<times> uchar list) list"

definition zero_buf :: buf where
  "zero_buf = \<lparr>b_valid = False, b_dirty = False, b_dev = 0, b_blockno = 0,
     b_lock = \<lparr>sl_locked = False, sl_pid = 0\<rparr>, b_refcnt = 0, b_data = replicate BSIZE 0\<rparr>"

definition upd_buf :: "nat \<Rightarrow> (buf \<Rightarrow> buf) \<Rightarrow> ('a kbio_scheme, unit) kop" where
  "upd_buf i f = modify (\<lambda>s. s\<lparr>bufs := (bufs s)[i := f (bufs s ! i)]\<rparr>)"

definition buf_lock :: "nat \<Rightarrow> 'a kbio_scheme slref" where
  "buf_lock i = \<lparr>sl_get = (\<lambda>s. b_lock (bufs s ! i)),
     sl_set = (\<lambda>l s. s\<lparr>bufs := (bufs s)[i := (bufs s ! i)\<lparr>b_lock := l\<rparr>]\<rparr>),
     sl_lk = L_buf i, sl_chan = ChBufLock i\<rparr>"

section \<open>The disk\<close>

definition iderw :: "nat \<Rightarrow> ('a kbio_scheme, unit) kop" where
  "iderw i =
     bnd (holdingsleep (buf_lock i)) (\<lambda>h.
     seq (panic_if (\<not> h) ''iderw: buf not locked'')
     (bnd (fetch (\<lambda>s. bufs s ! i)) (\<lambda>b.
     seq (panic_if (b_valid b \<and> \<not> b_dirty b) ''iderw: nothing to do'')
     (seq (panic_if (b_dev b \<noteq> 1) ''iderw: request not for disk 1'')
     (bnd (fetch disksize) (\<lambda>n.
     seq (panic_if (b_blockno b \<ge> n) ''iderw: block out of range'')
     (seq (if b_dirty b then
             seq (upd_buf i (\<lambda>b. b\<lparr>b_dirty := False\<rparr>))
             (modify (\<lambda>s. s\<lparr>memdisk := (memdisk s)(b_blockno b := b_data b),
                           dwrites := dwrites s @ [(b_blockno b, b_data b)]\<rparr>))
           else bnd (fetch (\<lambda>s. memdisk s (b_blockno b))) (\<lambda>d. upd_buf i (\<lambda>b. b\<lparr>b_data := d\<rparr>)))
     (upd_buf i (\<lambda>b. b\<lparr>b_valid := True\<rparr>)))))))))"

section \<open>The cache\<close>

definition binit :: "('a kbio_scheme, unit) kop" where
  "binit =
     seq (modify (\<lambda>s. s\<lparr>lru := []\<rparr>))
     (foreach [0..<NBUF] (\<lambda>i.
        seq (initsleeplock (buf_lock i))
        (modify (\<lambda>s. s\<lparr>lru := i # lru s\<rparr>))))"

definition bget :: "nat \<Rightarrow> nat \<Rightarrow> ('a kbio_scheme, nat) kop" where
  "bget dev blockno =
     seq (kacquire L_bcache)
     (bnd (fetch (\<lambda>s. find (\<lambda>i. b_dev (bufs s ! i) = dev \<and> b_blockno (bufs s ! i) = blockno) (lru s))) (\<lambda>r.
     case r of
       Some i \<Rightarrow>
         seq (upd_buf i (\<lambda>b. b\<lparr>b_refcnt := b_refcnt b + 1\<rparr>))
         (seq (krelease L_bcache)
         (seq (acquiresleep (buf_lock i))
         (ret i)))
     | None \<Rightarrow>
         bnd (fetch (\<lambda>s. find (\<lambda>i. b_refcnt (bufs s ! i) = 0 \<and> \<not> b_dirty (bufs s ! i)) (rev (lru s)))) (\<lambda>r.
         case r of
           Some i \<Rightarrow>
             seq (upd_buf i (\<lambda>b. b\<lparr>b_dev := dev, b_blockno := blockno, b_valid := False, b_dirty := False, b_refcnt := 1\<rparr>))
             (seq (krelease L_bcache)
             (seq (acquiresleep (buf_lock i))
             (ret i)))
         | None \<Rightarrow> kpanic ''bget: no buffers'')))"

definition bread :: "nat \<Rightarrow> nat \<Rightarrow> ('a kbio_scheme, nat) kop" where
  "bread dev blockno =
     bnd (bget dev blockno) (\<lambda>i.
     bnd (fetch (\<lambda>s. b_valid (bufs s ! i))) (\<lambda>v.
     seq (if \<not> v then iderw i else ret ())
     (ret i)))"

definition bwrite :: "nat \<Rightarrow> ('a kbio_scheme, unit) kop" where
  "bwrite i =
     bnd (holdingsleep (buf_lock i)) (\<lambda>h.
     seq (panic_if (\<not> h) ''bwrite'')
     (seq (upd_buf i (\<lambda>b. b\<lparr>b_dirty := True\<rparr>))
     (iderw i)))"

definition brelse :: "nat \<Rightarrow> ('a kbio_scheme, unit) kop" where
  "brelse i =
     bnd (holdingsleep (buf_lock i)) (\<lambda>h.
     seq (panic_if (\<not> h) ''brelse'')
     (seq (releasesleep (buf_lock i))
     (seq (kacquire L_bcache)
     (seq (upd_buf i (\<lambda>b. b\<lparr>b_refcnt := b_refcnt b - 1\<rparr>))
     (bnd (fetch (\<lambda>s. b_refcnt (bufs s ! i))) (\<lambda>n.
     seq (if n = 0 then modify (\<lambda>s. s\<lparr>lru := i # remove1 i (lru s)\<rparr>) else ret ())
     (krelease L_bcache)))))))"

text \<open>The callers' accesses to \<^verbatim>\<open>b->data\<close>.\<close>

definition get_data :: "nat \<Rightarrow> ('a kbio_scheme, uchar list) kop" where
  "get_data i = fetch (\<lambda>s. b_data (bufs s ! i))"

definition set_data :: "nat \<Rightarrow> uchar list \<Rightarrow> ('a kbio_scheme, unit) kop" where
  "set_data i d = upd_buf i (\<lambda>b. b\<lparr>b_data := d\<rparr>)"

lemma run_upd_buf [run_simps]:
  "bnd (upd_buf i f) k s = k () (s\<lparr>bufs := (bufs s)[i := f (bufs s ! i)]\<rparr>)"
  "bnd (get_data i) g s = g (b_data (bufs s ! i)) s"
  "bnd (set_data i d) k s = k () (s\<lparr>bufs := (bufs s)[i := (bufs s ! i)\<lparr>b_data := d\<rparr>]\<rparr>)"
  "upd_buf i f s = Ok () (s\<lparr>bufs := (bufs s)[i := f (bufs s ! i)]\<rparr>)"
  by (simp_all add: upd_buf_def get_data_def set_data_def run_simps)

interpretation bl: sleep_lock "buf_lock i" "\<lambda>s. i < length (bufs s)" for i
proof
  fix l l' and s :: "'a kbio_scheme"
  show "sl_set (buf_lock i) l (sl_set (buf_lock i) l' s) = sl_set (buf_lock i) l s"
    by (cases "i < length (bufs s)") (simp_all add: buf_lock_def list_update_beyond)
qed (auto simp: buf_lock_def)

text \<open>The facts of the interpretation, read off the buffer.\<close>

lemma buf_lock_sel [simp]:
  "sl_get (buf_lock i) s = b_lock (bufs s ! i)"
  "sl_set (buf_lock i) l s = s\<lparr>bufs := (bufs s)[i := (bufs s ! i)\<lparr>b_lock := l\<rparr>]\<rparr>"
  "sl_lk (buf_lock i) = L_buf i" "sl_chan (buf_lock i) = ChBufLock i"
  by (simp_all add: buf_lock_def)

section \<open>The contract\<close>

text \<open>Processes of the table after some wake-ups.\<close>

definition woken :: "proc list \<Rightarrow> proc list \<Rightarrow> bool" where
  "woken pt pt' \<longleftrightarrow> length pt' = length pt \<and>
     (\<forall>i < length pt. pt' ! i = pt ! i \<or> p_state (pt ! i) = SLEEPING \<and> pt' ! i = (pt ! i)\<lparr>p_state := RUNNABLE\<rparr>)"

lemma woken_refl [simp]: "woken pt pt"
  by (simp add: woken_def)

lemma woken_trans:
  assumes "woken pt qt" "woken qt rt"
  shows "woken pt rt"
proof -
  have "rt ! i = pt ! i \<or> p_state (pt ! i) = SLEEPING \<and> rt ! i = (pt ! i)\<lparr>p_state := RUNNABLE\<rparr>" if i: "i < length pt" for i
  proof (cases "qt ! i = pt ! i")
    case True
    then show ?thesis using assms i by (auto simp: woken_def)
  next
    case False
    then have "p_state (pt ! i) = SLEEPING" "qt ! i = (pt ! i)\<lparr>p_state := RUNNABLE\<rparr>" using assms(1) i by (auto simp: woken_def)
    moreover have "rt ! i = qt ! i" using calculation assms i by (auto simp: woken_def)
    ultimately show ?thesis by simp
  qed
  then show ?thesis using assms by (simp add: woken_def)
qed

lemma woken_wakeup1 [simp]: "woken pt (wakeup1 c pt)"
  by (simp add: woken_def)


text \<open>
  One buffer: held buffers have a reference and belong to the running process \<open>me\<close>, dirty and
  held buffers are valid, a valid buffer is one of disk 1, and a valid buffer that is
  neither held nor dirty agrees with the disk \<open>md\<close> of \<open>n\<close> blocks.
\<close>

definition buf_ok :: "int \<Rightarrow> (nat \<Rightarrow> uchar list) \<Rightarrow> nat \<Rightarrow> buf \<Rightarrow> bool" where
  "buf_ok me md n x \<longleftrightarrow>
     b_refcnt x = (if sl_locked (b_lock x) then 1 else 0) \<and>
     (sl_locked (b_lock x) \<longrightarrow> sl_pid (b_lock x) = me) \<and>
     (b_dirty x \<or> sl_locked (b_lock x) \<longrightarrow> b_valid x) \<and>
     (b_valid x \<longleftrightarrow> b_dev x = 1) \<and>
     (b_valid x \<longrightarrow> b_blockno x < n \<and> length (b_data x) = BSIZE) \<and>
     (b_valid x \<and> \<not> b_dirty x \<and> \<not> sl_locked (b_lock x) \<longrightarrow> b_data x = md (b_blockno x))"

definition bio_inv :: "'a kbio_scheme \<Rightarrow> bool" where
  "bio_inv s \<longleftrightarrow> length (bufs s) = NBUF \<and> distinct (lru s) \<and> set (lru s) = {..<NBUF} \<and>
     (\<forall>i < NBUF. buf_ok (mypid s) (memdisk s) (disksize s) (bufs s ! i)) \<and>
     (\<forall>i < NBUF. \<forall>j < NBUF. b_valid (bufs s ! i) \<and> b_valid (bufs s ! j) \<and>
        b_blockno (bufs s ! i) = b_blockno (bufs s ! j) \<longrightarrow> i = j) \<and>
     (\<forall>b. length (memdisk s b) = BSIZE) \<and>
     held s = {} \<and> (\<exists>p. curproc s = Some p \<and> p < length (ptable s))"

text \<open>Block \<open>b\<close> as the kernel sees it, the blocks that are held, and those that are dirty.\<close>

definition blk :: "'a kbio_scheme \<Rightarrow> nat \<Rightarrow> uchar list" where
  "blk s b = (case first_idx (\<lambda>x. b_valid x \<and> b_blockno x = b) (bufs s) of
     Some i \<Rightarrow> b_data (bufs s ! i) | None \<Rightarrow> memdisk s b)"

definition hs :: "'a kbio_scheme \<Rightarrow> nat set" where
  "hs s = {b. \<exists>i < length (bufs s). sl_locked (b_lock (bufs s ! i)) \<and> b_blockno (bufs s ! i) = b}"

definition ds :: "'a kbio_scheme \<Rightarrow> nat set" where
  "ds s = {b. \<exists>i < length (bufs s). b_dirty (bufs s ! i) \<and> b_blockno (bufs s ! i) = b}"

definition holds :: "'a kbio_scheme \<Rightarrow> nat \<Rightarrow> nat \<Rightarrow> bool" where
  "holds s i b \<longleftrightarrow> i < length (bufs s) \<and> sl_locked (b_lock (bufs s ! i)) \<and> b_blockno (bufs s ! i) = b"

subsection \<open>Consequences of the invariant\<close>

lemma bio_invD:
  assumes "bio_inv s"
  shows "length (bufs s) = NBUF" "held s = {}" "length (memdisk s b) = BSIZE"
    "i < NBUF \<Longrightarrow> buf_ok (mypid s) (memdisk s) (disksize s) (bufs s ! i)"
    "i < NBUF \<Longrightarrow> j < NBUF \<Longrightarrow> b_valid (bufs s ! i) \<Longrightarrow> b_valid (bufs s ! j) \<Longrightarrow>
       b_blockno (bufs s ! i) = b_blockno (bufs s ! j) \<Longrightarrow> i = j"
    "set (lru s) = {..<NBUF}" "distinct (lru s)"
  using assms unfolding bio_inv_def by blast+

lemma blk_cached:
  assumes "bio_inv s" "i < NBUF" "b_valid (bufs s ! i)" "b_blockno (bufs s ! i) = b"
  shows "blk s b = b_data (bufs s ! i)"
proof -
  have "first_idx (\<lambda>x. b_valid x \<and> b_blockno x = b) (bufs s) \<noteq> None"
    using assms bio_invD(1)[OF assms(1)] nth_mem[of i "bufs s"] unfolding first_idx_None by auto
  then obtain j where j: "first_idx (\<lambda>x. b_valid x \<and> b_blockno x = b) (bufs s) = Some j" by auto
  then have "j < NBUF" "b_valid (bufs s ! j)" "b_blockno (bufs s ! j) = b"
    using bio_invD(1)[OF assms(1)] by (auto simp: first_idx_Some)
  then have "j = i" using bio_invD(5)[OF assms(1), of j i] assms by simp
  then show ?thesis by (simp add: blk_def j)
qed

lemma blk_uncached:
  assumes "bio_inv s" "\<And>i. i < NBUF \<Longrightarrow> b_valid (bufs s ! i) \<Longrightarrow> b_blockno (bufs s ! i) \<noteq> b"
  shows "blk s b = memdisk s b"
proof -
  have "first_idx (\<lambda>x. b_valid x \<and> b_blockno x = b) (bufs s) = None"
    using assms(2) bio_invD(1)[OF assms(1)] unfolding first_idx_None by (metis in_set_conv_nth)
  then show ?thesis by (simp add: blk_def)
qed

lemma holds_valid:
  assumes "bio_inv s" "holds s i b"
  shows "i < NBUF" "b_valid (bufs s ! i)" "b_blockno (bufs s ! i) = b" "sl_locked (b_lock (bufs s ! i))"
    "sl_pid (b_lock (bufs s ! i)) = mypid s" "b_dev (bufs s ! i) = 1" "b < disksize s" "blk s b = b_data (bufs s ! i)"
    "b_refcnt (bufs s ! i) = 1" "length (b_data (bufs s ! i)) = BSIZE"
proof -
  have i: "i < NBUF" using assms bio_invD(1)[OF assms(1)] by (simp add: holds_def)
  note ok = bio_invD(4)[OF assms(1) i]
  show "i < NBUF" by (rule i)
  show "b_valid (bufs s ! i)" "b_blockno (bufs s ! i) = b" "sl_locked (b_lock (bufs s ! i))"
    "sl_pid (b_lock (bufs s ! i)) = mypid s" "b_dev (bufs s ! i) = 1" "b < disksize s"
    "b_refcnt (bufs s ! i) = 1" "length (b_data (bufs s ! i)) = BSIZE"
    using assms(2) ok by (auto simp: holds_def buf_ok_def)
  then show "blk s b = b_data (bufs s ! i)" using blk_cached[OF assms(1) i] by blast
qed

lemma length_blk [simp]:
  assumes "bio_inv s"
  shows "length (blk s b) = BSIZE"
proof (cases "\<exists>i < NBUF. b_valid (bufs s ! i) \<and> b_blockno (bufs s ! i) = b")
  case True
  then obtain i where i: "i < NBUF" "b_valid (bufs s ! i)" "b_blockno (bufs s ! i) = b" by blast
  then show ?thesis using blk_cached[OF assms i] bio_invD(4)[OF assms i(1)] by (simp add: buf_ok_def)
next
  case False
  then show ?thesis using blk_uncached[OF assms, of b] bio_invD(3)[OF assms, of b] by auto
qed

subsection \<open>What the routines do to a state that satisfies the invariant\<close>

abbreviation taken :: "int \<Rightarrow> sleeplock" where
  "taken me \<equiv> \<lparr>sl_locked = True, sl_pid = me\<rparr>"

abbreviation free_lock :: sleeplock where
  "free_lock \<equiv> \<lparr>sl_locked = False, sl_pid = 0\<rparr>"

lemma acquire_buf:
  assumes "held s = {}" "i < length (bufs s)" "\<not> sl_locked (b_lock (bufs s ! i))"
  shows "bnd (acquiresleep (buf_lock i)) f s =
    f () (s\<lparr>bufs := (bufs s)[i := (bufs s ! i)\<lparr>b_lock := taken (mypid s)\<rparr>]\<rparr>)"
  using bl.acquiresleep_free[of i s] assms by (simp add: bnd_def)

lemma release_buf:
  assumes "held s = {}" "i < length (bufs s)"
  shows "bnd (releasesleep (buf_lock i)) f s = f () (s\<lparr>bufs := (bufs s)[i := (bufs s ! i)\<lparr>b_lock := free_lock\<rparr>],
      ptable := wakeup1 (Some (ChBufLock i)) (ptable s)\<rparr>)"
  using bl.releasesleep_eq[of i s] assms by (simp add: bnd_def)

lemma holding_buf:
  assumes "held s = {}" "sl_locked (b_lock (bufs s ! i))" "sl_pid (b_lock (bufs s ! i)) = mypid s"
  shows "bnd (holdingsleep (buf_lock i)) f s = f True s"
  using bl.holdingsleep_eq[of i s] assms by (simp add: bnd_def)

lemma mypid_bufs [simp]: "mypid (s\<lparr>bufs := x\<rparr>) = mypid s"
  "mypid (s\<lparr>lru := l\<rparr>) = mypid s" "mypid (s\<lparr>memdisk := d\<rparr>) = mypid s" "mypid (s\<lparr>dwrites := t\<rparr>) = mypid s"
  by (simp_all add: mypid_def)

lemma iderw_read:
  assumes "held s = {}" "i < length (bufs s)" "b_lock (bufs s ! i) = taken (mypid s)" "\<not> b_valid (bufs s ! i)"
    "\<not> b_dirty (bufs s ! i)" "b_dev (bufs s ! i) = 1" "b_blockno (bufs s ! i) < disksize s"
  shows "iderw i s = Ok () (s\<lparr>bufs := (bufs s)[i := (bufs s ! i)\<lparr>b_data := memdisk s (b_blockno (bufs s ! i)), b_valid := True\<rparr>]\<rparr>)"
  using assms by (simp add: iderw_def holding_buf run_simps)

lemma iderw_write:
  assumes "held s = {}" "i < length (bufs s)" "b_lock (bufs s ! i) = taken (mypid s)"
    "b_dirty (bufs s ! i)" "b_dev (bufs s ! i) = 1" "b_blockno (bufs s ! i) < disksize s"
  shows "iderw i s = Ok () (s\<lparr>bufs := (bufs s)[i := (bufs s ! i)\<lparr>b_dirty := False, b_valid := True\<rparr>],
    memdisk := (memdisk s)(b_blockno (bufs s ! i) := b_data (bufs s ! i)),
    dwrites := dwrites s @ [(b_blockno (bufs s ! i), b_data (bufs s ! i))]\<rparr>)"
  using assms by (simp add: iderw_def holding_buf run_simps)

lemma find_lru_None:
  assumes "bio_inv s"
  shows "find P (lru s) = None \<longleftrightarrow> (\<forall>i < NBUF. \<not> P i)" "find P (rev (lru s)) = None \<longleftrightarrow> (\<forall>i < NBUF. \<not> P i)"
  using bio_invD(6)[OF assms] by (auto simp: find_None_iff)

lemma find_lru_Some:
  assumes "bio_inv s"
  shows "find P (lru s) = Some i \<Longrightarrow> i < NBUF \<and> P i" "find P (rev (lru s)) = Some i \<Longrightarrow> i < NBUF \<and> P i"
proof -
  have "find P xs = Some i \<Longrightarrow> i \<in> set xs \<and> P i" for xs by (auto simp: find_Some_iff)
  then show "find P (lru s) = Some i \<Longrightarrow> i < NBUF \<and> P i" "find P (rev (lru s)) = Some i \<Longrightarrow> i < NBUF \<and> P i"
    using bio_invD(6)[OF assms] by (metis lessThan_iff, metis lessThan_iff set_rev)
qed

lemma bread_hit:
  assumes "bio_inv s" "i < NBUF" "b_valid (bufs s ! i)" "b_blockno (bufs s ! i) = b" "\<not> sl_locked (b_lock (bufs s ! i))"
  shows "bread 1 b s = Ok i (s\<lparr>bufs := (bufs s)[i := (bufs s ! i)\<lparr>b_refcnt := 1, b_lock := taken (mypid s)\<rparr>]\<rparr>)"
proof -
  note d = bio_invD(1,2)[OF assms(1)]
  have dev: "b_dev (bufs s ! j) = 1 \<longleftrightarrow> b_valid (bufs s ! j)" if "j < NBUF" for j
    using bio_invD(4)[OF assms(1) that] by (simp add: buf_ok_def)
  let ?P = "\<lambda>j. b_dev (bufs s ! j) = 1 \<and> b_blockno (bufs s ! j) = b"
  have "find ?P (lru s) \<noteq> None" using find_lru_None(1)[OF assms(1), of ?P] assms(2-4) dev by auto
  then obtain j where j: "find ?P (lru s) = Some j" by auto
  with find_lru_Some(1)[OF assms(1) j] have "j = i"
    using bio_invD(5)[OF assms(1), of j i] assms dev by auto
  then show ?thesis
    using j d assms bio_invD(4)[OF assms(1,2)]
    by (simp add: bread_def bget_def run_simps acquire_buf buf_ok_def)
qed

lemma bread_miss:
  assumes "bio_inv s" "\<And>i. i < NBUF \<Longrightarrow> b_valid (bufs s ! i) \<Longrightarrow> b_blockno (bufs s ! i) \<noteq> b" "b < disksize s"
    "j < NBUF" "\<not> sl_locked (b_lock (bufs s ! j))" "\<not> b_dirty (bufs s ! j)"
  shows "\<exists>i < NBUF. \<not> sl_locked (b_lock (bufs s ! i)) \<and> \<not> b_dirty (bufs s ! i) \<and>
    bread 1 b s = Ok i (s\<lparr>bufs := (bufs s)[i := \<lparr>b_valid = True, b_dirty = False, b_dev = 1, b_blockno = b,
       b_lock = taken (mypid s), b_refcnt = 1, b_data = memdisk s b\<rparr>]\<rparr>)"
proof -
  note d = bio_invD(1,2)[OF assms(1)]
  have ok: "i < NBUF \<Longrightarrow> buf_ok (mypid s) (memdisk s) (disksize s) (bufs s ! i)" for i using bio_invD(4)[OF assms(1)] by blast
  let ?P = "\<lambda>j. b_dev (bufs s ! j) = 1 \<and> b_blockno (bufs s ! j) = b"
  have n: "find ?P (lru s) = None" unfolding find_lru_None(1)[OF assms(1)] using assms(2) ok by (auto simp: buf_ok_def)
  let ?Q = "\<lambda>i. b_refcnt (bufs s ! i) = 0 \<and> \<not> b_dirty (bufs s ! i)"
  have "find ?Q (rev (lru s)) \<noteq> None"
    unfolding find_lru_None(2)[OF assms(1)] using ok[OF assms(4)] assms(4-6) by (auto simp: buf_ok_def)
  then obtain i where i: "find ?Q (rev (lru s)) = Some i" by auto
  note q = find_lru_Some(2)[OF assms(1) i]
  have l: "\<not> sl_locked (b_lock (bufs s ! i))" using q ok[of i] by (auto simp: buf_ok_def)
  have "bread 1 b s = Ok i (s\<lparr>bufs := (bufs s)[i := \<lparr>b_valid = True, b_dirty = False, b_dev = 1, b_blockno = b,
       b_lock = taken (mypid s), b_refcnt = 1, b_data = memdisk s b\<rparr>]\<rparr>)"
    using n i d q l assms(3)
    by (cases "bufs s ! i") (simp add: bread_def bget_def run_simps acquire_buf iderw_read bnd_step[OF iderw_read])
  with q l show ?thesis by blast
qed

lemma brelse_run:
  assumes "bio_inv s" "holds s i b"
  shows "brelse i s = Ok () (s\<lparr>bufs := (bufs s)[i := (bufs s ! i)\<lparr>b_lock := free_lock, b_refcnt := 0\<rparr>],
    ptable := wakeup1 (Some (ChBufLock i)) (ptable s), lru := i # remove1 i (lru s)\<rparr>)"
proof -
  note h = holds_valid[OF assms] and d = bio_invD(1,2)[OF assms(1)]
  show ?thesis using h d
    by (simp add: brelse_def holding_buf release_buf run_simps krelease_def)
qed

lemma bwrite_run:
  assumes "bio_inv s" "holds s i b"
  shows "bwrite i s = Ok () (s\<lparr>bufs := (bufs s)[i := (bufs s ! i)\<lparr>b_dirty := False\<rparr>],
    memdisk := (memdisk s)(b := blk s b), dwrites := dwrites s @ [(b, blk s b)]\<rparr>)"
proof -
  note h = holds_valid[OF assms] and d = bio_invD(1,2)[OF assms(1)]
  have l: "b_lock (bufs s ! i) = taken (mypid s)" using h(4,5) by (cases "b_lock (bufs s ! i)") simp
  have v: "(bufs s ! i)\<lparr>b_dirty := False, b_valid := True\<rparr> = (bufs s ! i)\<lparr>b_dirty := False\<rparr>" using h(2) by (cases "bufs s ! i") simp
  show ?thesis using h d l
    by (simp add: bwrite_def holding_buf run_simps iderw_write v)
qed

subsection \<open>Changing one buffer\<close>

text \<open>
  All routines change one slot \<open>i\<close> of the cache (to \<open>x\<close>), possibly the disk at the block of
  \<open>x\<close>, the order of the list and the sleepers of the process table. The state after such a
  change, its invariant and its abstract view.
\<close>

definition changed :: "'a kbio_scheme \<Rightarrow> nat \<Rightarrow> buf \<Rightarrow> (nat \<Rightarrow> uchar list) \<Rightarrow> proc list \<Rightarrow> nat list \<Rightarrow> (nat \<times> uchar list) list \<Rightarrow> 'a kbio_scheme" where
  "changed s i x md pt l t = s\<lparr>bufs := (bufs s)[i := x], memdisk := md, ptable := pt, lru := l, dwrites := t\<rparr>"

definition change_ok :: "'a kbio_scheme \<Rightarrow> nat \<Rightarrow> buf \<Rightarrow> (nat \<Rightarrow> uchar list) \<Rightarrow> proc list \<Rightarrow> nat list \<Rightarrow> bool" where
  "change_ok s i x md pt l \<longleftrightarrow> bio_inv s \<and> i < NBUF \<and> buf_ok (mypid s) md (disksize s) x \<and> b_valid x \<and>
     (\<forall>j < NBUF. j \<noteq> i \<and> b_valid (bufs s ! j) \<longrightarrow> b_blockno (bufs s ! j) \<noteq> b_blockno x) \<and>
     (\<forall>b. length (md b) = BSIZE \<and> (b \<noteq> b_blockno x \<longrightarrow> md b = memdisk s b)) \<and>
     woken (ptable s) pt \<and> distinct l \<and> set l = {..<NBUF}"

lemma changed_sel [simp]:
  "bufs (changed s i x md pt l t) = (bufs s)[i := x]" "memdisk (changed s i x md pt l t) = md"
  "ptable (changed s i x md pt l t) = pt" "lru (changed s i x md pt l t) = l" "dwrites (changed s i x md pt l t) = t"
  "held (changed s i x md pt l t) = held s" "curproc (changed s i x md pt l t) = curproc s"
  "disksize (changed s i x md pt l t) = disksize s"
  by (simp_all add: changed_def)

lemma woken_sel:
  assumes "woken pt pt'" "i < length pt"
  shows "p_pid (pt' ! i) = p_pid (pt ! i)" "length pt' = length pt"
  using assms unfolding woken_def by (metis proc.select_convs(5) proc.surjective proc.update_convs(4), simp)

lemma mypid_woken:
  assumes "bio_inv s" "woken (ptable s) (ptable s')" "curproc s' = curproc s"
  shows "mypid s' = mypid s"
proof -
  from assms(1) obtain p where "curproc s = Some p" "p < length (ptable s)" unfolding bio_inv_def by blast
  then show ?thesis using woken_sel(1)[OF assms(2)] assms(3) by (simp add: mypid_def)
qed

lemma changed_inv:
  assumes "change_ok s i x md pt l"
  shows "bio_inv (changed s i x md pt l t)"
proof -
  let ?s = "changed s i x md pt l t"
  have inv: "bio_inv s" and i: "i < NBUF" and x: "buf_ok (mypid s) md (disksize s) x" "b_valid x"
    and u: "\<And>j. j < NBUF \<Longrightarrow> j \<noteq> i \<Longrightarrow> b_valid (bufs s ! j) \<Longrightarrow> b_blockno (bufs s ! j) \<noteq> b_blockno x"
    and md: "\<And>b. length (md b) = BSIZE" "\<And>b. b \<noteq> b_blockno x \<Longrightarrow> md b = memdisk s b"
    and w: "woken (ptable s) pt" "distinct l" "set l = {..<NBUF}"
    using assms unfolding change_ok_def by blast+
  note d = bio_invD[OF inv]
  have me: "mypid ?s = mypid s" by (rule mypid_woken[OF inv]) (simp_all add: w)
  have n: "bufs ?s ! j = (if j = i then x else bufs s ! j)" for j using i d(1) by (simp add: nth_list_update)
  have ok: "buf_ok (mypid ?s) (memdisk ?s) (disksize ?s) (bufs ?s ! j)" if j: "j < NBUF" for j
  proof (cases "j = i")
    case False
    then have "b_valid (bufs s ! j) \<Longrightarrow> md (b_blockno (bufs s ! j)) = memdisk s (b_blockno (bufs s ! j))" using u j md(2) by blast
    then show ?thesis using d(4)[OF j] False unfolding me n by (auto simp: buf_ok_def)
  qed (use x me n in simp)
  have un: "j = k" if "j < NBUF" "k < NBUF" "b_valid (bufs ?s ! j)" "b_valid (bufs ?s ! k)"
      "b_blockno (bufs ?s ! j) = b_blockno (bufs ?s ! k)" for j k
  proof (cases "j = i \<or> k = i")
    case True
    then show ?thesis using that u[of j] u[of k] x unfolding n by (auto split: if_splits)
  next
    case False
    then show ?thesis using that d(5)[of j k] unfolding n by auto
  qed
  have "\<exists>p. curproc s = Some p \<and> p < length pt" using inv w(1) unfolding bio_inv_def woken_def by auto
  then show ?thesis unfolding bio_inv_def using ok un d w md by simp
qed

lemma changed_blk:
  assumes "change_ok s i x md pt l" "b_blockno x = n"
    "b_valid (bufs s ! i) \<Longrightarrow> b_blockno (bufs s ! i) \<noteq> n \<Longrightarrow> b_data (bufs s ! i) = memdisk s (b_blockno (bufs s ! i))"
  shows "blk (changed s i x md pt l t) = (blk s)(n := b_data x)"
proof
  fix b
  let ?s = "changed s i x md pt l t"
  have inv: "bio_inv s" and i: "i < NBUF" and x: "b_valid x"
    and u: "\<And>j. j < NBUF \<Longrightarrow> j \<noteq> i \<Longrightarrow> b_valid (bufs s ! j) \<Longrightarrow> b_blockno (bufs s ! j) \<noteq> b_blockno x"
    and md: "\<And>b. b \<noteq> b_blockno x \<Longrightarrow> md b = memdisk s b"
    using assms(1) unfolding change_ok_def by blast+
  have inv': "bio_inv ?s" by (rule changed_inv[OF assms(1)])
  note d = bio_invD[OF inv]
  have n: "bufs ?s ! j = (if j = i then x else bufs s ! j)" for j using i d(1) by (simp add: nth_list_update)
  show "blk ?s b = ((blk s)(n := b_data x)) b"
  proof (cases "b = n")
    case True
    then show ?thesis using blk_cached[OF inv' i, of n] x assms(2) unfolding n by simp
  next
    case b: False
    show ?thesis
    proof (cases "\<exists>j < NBUF. j \<noteq> i \<and> b_valid (bufs s ! j) \<and> b_blockno (bufs s ! j) = b")
      case True
      then obtain j where j: "j < NBUF" "j \<noteq> i" "b_valid (bufs s ! j)" "b_blockno (bufs s ! j) = b" by blast
      then show ?thesis using blk_cached[OF inv' j(1), of b] blk_cached[OF inv j(1), of b] b unfolding n by simp
    next
      case False
      have "blk ?s b = memdisk ?s b"
      proof (rule blk_uncached[OF inv'])
        fix j assume "j < NBUF" "b_valid (bufs ?s ! j)"
        then show "b_blockno (bufs ?s ! j) \<noteq> b" using False b assms(2) unfolding n by (auto split: if_splits)
      qed
      moreover have "blk s b = memdisk s b"
      proof (cases "b_valid (bufs s ! i) \<and> b_blockno (bufs s ! i) = b")
        case True
        then show ?thesis using blk_cached[OF inv i] assms(3) b by auto
      next
        case no: False
        then show ?thesis using False by (intro blk_uncached[OF inv]) auto
      qed
      ultimately show ?thesis using b md[of b] assms(2) by simp
    qed
  qed
qed

lemma changed_hs:
  assumes "change_ok s i x md pt l"
  shows "hs (changed s i x md pt l t) =
    {b. sl_locked (b_lock x) \<and> b_blockno x = b \<or> (\<exists>j < NBUF. j \<noteq> i \<and> sl_locked (b_lock (bufs s ! j)) \<and> b_blockno (bufs s ! j) = b)}"
    "ds (changed s i x md pt l t) =
    {b. b_dirty x \<and> b_blockno x = b \<or> (\<exists>j < NBUF. j \<noteq> i \<and> b_dirty (bufs s ! j) \<and> b_blockno (bufs s ! j) = b)}"
    "holds (changed s i x md pt l t) j b \<longleftrightarrow> (if j = i then sl_locked (b_lock x) \<and> b_blockno x = b else holds s j b)"
proof -
  have "i < NBUF" "length (bufs s) = NBUF" using assms bio_invD(1) unfolding change_ok_def by blast+
  then show "hs (changed s i x md pt l t) =
    {b. sl_locked (b_lock x) \<and> b_blockno x = b \<or> (\<exists>j < NBUF. j \<noteq> i \<and> sl_locked (b_lock (bufs s ! j)) \<and> b_blockno (bufs s ! j) = b)}"
    "ds (changed s i x md pt l t) =
    {b. b_dirty x \<and> b_blockno x = b \<or> (\<exists>j < NBUF. j \<noteq> i \<and> b_dirty (bufs s ! j) \<and> b_blockno (bufs s ! j) = b)}"
    "holds (changed s i x md pt l t) j b \<longleftrightarrow> (if j = i then sl_locked (b_lock x) \<and> b_blockno x = b else holds s j b)"
    unfolding hs_def ds_def holds_def by (auto simp: nth_list_update)
qed

end
