(* ===== verification/Bcache.thy ===== *)
theory Bcache
  imports Bio
begin

text \<open>
  The contract of the buffer cache, for the log and the file system: what \<open>bread\<close>, \<open>bwrite\<close>,
  \<open>brelse\<close> and accesses to the data of a held buffer do to the contents of blocks as the
  kernel sees them (\<open>blk\<close>), to the blocks held (\<open>hs\<close>), to the dirty blocks (\<open>ds\<close>) and to the
  disk; then a locale of these laws with the lemmas the clients share.
\<close>

section \<open>The laws\<close>

text \<open>The fields a routine of the cache leaves alone, apart from the disk.\<close>

definition bframe :: "'a kbio_scheme \<Rightarrow> 'a kbio_scheme \<Rightarrow> bool" where
  "bframe s s' \<longleftrightarrow> (\<exists>bf md pt l t. s' = s\<lparr>bufs := bf, memdisk := md, ptable := pt, lru := l, dwrites := t\<rparr> \<and> woken (ptable s) pt)"

lemma bframe_refl [simp]: "bframe s s"
  unfolding bframe_def by (intro exI[of _ "bufs s"] exI[of _ "memdisk s"] exI[of _ "ptable s"] exI[of _ "lru s"] exI[of _ "dwrites s"]) simp

lemma bframe_trans:
  assumes "bframe s t" "bframe t u"
  shows "bframe s u"
proof -
  obtain bf md pt l tr where t: "t = s\<lparr>bufs := bf, memdisk := md, ptable := pt, lru := l, dwrites := tr\<rparr>" "woken (ptable s) pt"
    using assms(1) unfolding bframe_def by blast
  obtain bf' md' pt' l' tr' where "u = t\<lparr>bufs := bf', memdisk := md', ptable := pt', lru := l', dwrites := tr'\<rparr>" "woken (ptable t) pt'"
    using assms(2) unfolding bframe_def by blast
  then have "u = s\<lparr>bufs := bf', memdisk := md', ptable := pt', lru := l', dwrites := tr'\<rparr>" "woken (ptable s) pt'"
    using t woken_trans[OF t(2), of pt'] by simp_all
  then show ?thesis unfolding bframe_def by blast
qed

lemma changed_frame: "woken (ptable s) pt \<Longrightarrow> bframe s (changed s i x md pt l t)"
  unfolding bframe_def changed_def by blast

lemma bframe_sel:
  assumes "bframe s s'"
  shows "disksize s' = disksize s" "curproc s' = curproc s" "held s' = held s" "mem s' = mem s"
  using assms unfolding bframe_def by auto

lemma holds_hs: "b \<in> hs s \<longleftrightarrow> (\<exists>i. holds s i b)"
  by (auto simp: hs_def holds_def)

text \<open>The buffers other than \<open>i\<close> hold another block than buffer \<open>i\<close> does.\<close>

lemma others_differ:
  assumes "bio_inv s" "i < NBUF" "b_valid (bufs s ! i)" "j < NBUF" "j \<noteq> i" "b_valid (bufs s ! j)"
  shows "b_blockno (bufs s ! j) \<noteq> b_blockno (bufs s ! i)"
  using bio_invD(5)[OF assms(1), of j i] assms by auto

lemma held_valid:
  assumes "bio_inv s" "j < NBUF" "sl_locked (b_lock (bufs s ! j)) \<or> b_dirty (bufs s ! j)"
  shows "b_valid (bufs s ! j)"
  using bio_invD(4)[OF assms(1,2)] assms(3) by (auto simp: buf_ok_def)

lemma ds_cached:
  assumes "bio_inv s" "i < NBUF" "b_valid (bufs s ! i)" "b_blockno (bufs s ! i) = b"
  shows "b \<in> ds s \<longleftrightarrow> b_dirty (bufs s ! i)"
proof
  assume "b \<in> ds s"
  then obtain k where k: "k < NBUF" "b_dirty (bufs s ! k)" "b_blockno (bufs s ! k) = b"
    using bio_invD(1)[OF assms(1)] by (auto simp: ds_def)
  then have "k = i" using bio_invD(5)[OF assms(1), of k i] held_valid[OF assms(1), of k] assms by simp
  with k show "b_dirty (bufs s ! i)" by simp
next
  assume "b_dirty (bufs s ! i)"
  then show "b \<in> ds s" using assms bio_invD(1)[OF assms(1)] by (auto simp: ds_def)
qed

lemma bread_law:
  assumes inv: "bio_inv s" and b: "b < disksize s" "b \<notin> hs s" and room: "b \<in> ds s \<or> card (hs s \<union> ds s) < NBUF"
  shows "\<exists>i s'. bread 1 b s = Ok i s' \<and> bio_inv s' \<and> holds s' i b \<and> blk s' = blk s \<and> hs s' = insert b (hs s) \<and>
    ds s' = ds s \<and> memdisk s' = memdisk s \<and> dwrites s' = dwrites s \<and> bframe s s' \<and> (\<forall>j c. holds s j c \<longrightarrow> holds s' j c)"
proof -
  note d = bio_invD[OF inv]
  have go: ?thesis if i: "i < NBUF" "\<not> sl_locked (b_lock (bufs s ! i))" and x: "b_blockno x = b" "b_valid x"
      "b_lock x = taken (mypid s)" "b_dirty x \<longleftrightarrow> b_dirty (bufs s ! i)" "b_dirty x \<Longrightarrow> b_blockno (bufs s ! i) = b"
    and ok: "buf_ok (mypid s) (memdisk s) (disksize s) x" "b_data x = blk s b"
    and old: "b_valid (bufs s ! i) \<Longrightarrow> b_blockno (bufs s ! i) \<noteq> b \<Longrightarrow> \<not> b_dirty (bufs s ! i)"
    and u: "\<forall>j < NBUF. j \<noteq> i \<and> b_valid (bufs s ! j) \<longrightarrow> b_blockno (bufs s ! j) \<noteq> b"
    and run: "bread 1 b s = Ok i (s\<lparr>bufs := (bufs s)[i := x]\<rparr>)" for i x
  proof -
    let ?s = "changed s i x (memdisk s) (ptable s) (lru s) (dwrites s)"
    have s: "s\<lparr>bufs := (bufs s)[i := x]\<rparr> = ?s" by (simp add: changed_def)
    have c: "change_ok s i x (memdisk s) (ptable s) (lru s)"
      unfolding change_ok_def using inv i x ok u d(3,6,7) by simp
    have "blk ?s = (blk s)(b := b_data x)"
      using old d(4)[OF i(1)] i(2) by (intro changed_blk[OF c x(1)]) (auto simp: buf_ok_def)
    then have bl: "blk ?s = blk s" using ok(2) by simp
    have h: "hs ?s = insert b (hs s)" unfolding changed_hs(1)[OF c] using x i d(1) by (auto simp: hs_def)
    have dd: "ds ?s = ds s" unfolding changed_hs(2)[OF c] using x i d(1) by (auto simp: ds_def)
    have hd: "holds ?s i b" "\<forall>j c. holds s j c \<longrightarrow> holds ?s j c"
      unfolding changed_hs(3)[OF c] using x i by (auto simp: holds_def)
    show ?thesis unfolding run s using changed_inv[OF c] bl h dd hd changed_frame[of s] by auto
  qed
  show ?thesis
  proof (cases "\<exists>i < NBUF. b_valid (bufs s ! i) \<and> b_blockno (bufs s ! i) = b")
    case True
    then obtain i where i: "i < NBUF" "b_valid (bufs s ! i)" "b_blockno (bufs s ! i) = b" by blast
    have l: "\<not> sl_locked (b_lock (bufs s ! i))" using b(2) i d(1) by (auto simp: hs_def)
    show ?thesis
      by (rule go[OF i(1) l _ _ _ _ _ _ _ _ _ bread_hit[OF inv i l]])
        (use i l d(4)[OF i(1)] blk_cached[OF inv i] others_differ[OF inv i(1,2)] in \<open>auto simp: buf_ok_def\<close>)
  next
    case False
    have "\<exists>j < NBUF. \<not> sl_locked (b_lock (bufs s ! j)) \<and> \<not> b_dirty (bufs s ! j)"
    proof (rule ccontr)
      assume "\<not> ?thesis"
      then have all: "j < NBUF \<Longrightarrow> sl_locked (b_lock (bufs s ! j)) \<or> b_dirty (bufs s ! j)" for j by blast
      let ?f = "\<lambda>j. b_blockno (bufs s ! j)"
      have "inj_on ?f {..<NBUF}" using all held_valid[OF inv] d(5) by (auto simp: inj_on_def)
      then have "card (?f ` {..<NBUF}) = NBUF" by (simp add: card_image)
      moreover have "?f ` {..<NBUF} \<subseteq> hs s \<union> ds s" using all d(1) by (auto simp: hs_def ds_def)
      moreover have "finite (hs s \<union> ds s)" unfolding hs_def ds_def by auto
      ultimately have "NBUF \<le> card (hs s \<union> ds s)" by (metis card_mono)
      moreover have "b \<notin> ds s" using False held_valid[OF inv] d(1) by (auto simp: ds_def)
      ultimately show False using room by simp
    qed
    then obtain j where j: "j < NBUF" "\<not> sl_locked (b_lock (bufs s ! j))" "\<not> b_dirty (bufs s ! j)" by blast
    obtain i where i: "i < NBUF" "\<not> sl_locked (b_lock (bufs s ! i))" "\<not> b_dirty (bufs s ! i)" and
      run: "bread 1 b s = Ok i (s\<lparr>bufs := (bufs s)[i := \<lparr>b_valid = True, b_dirty = False, b_dev = 1, b_blockno = b,
       b_lock = taken (mypid s), b_refcnt = 1, b_data = memdisk s b\<rparr>]\<rparr>)"
      using bread_miss[OF inv _ b(1) j] False by blast
    have m: "blk s b = memdisk s b" using False by (intro blk_uncached[OF inv]) auto
    show ?thesis
      by (rule go[OF i(1,2) _ _ _ _ _ _ _ _ _ run]) (use i False m b d(3) in \<open>auto simp: buf_ok_def\<close>)
  qed
qed

text \<open>Changes of a held buffer that keep it held.\<close>

lemma held_change:
  assumes inv: "bio_inv s" and h: "holds s i b" and x: "b_lock x = b_lock (bufs s ! i)" "b_blockno x = b" "b_valid x"
    "b_refcnt x = 1" "b_dev x = 1" "length (b_data x) = BSIZE"
    and md: "\<forall>c. length (md c) = BSIZE \<and> (c \<noteq> b \<longrightarrow> md c = memdisk s c)"
    and s': "s' = s\<lparr>bufs := (bufs s)[i := x], memdisk := md, dwrites := t\<rparr>"
  shows "bio_inv s'" "blk s' = (blk s)(b := b_data x)" "hs s' = hs s"
    "ds s' = (if b_dirty x then insert b (ds s) else ds s - {b})" "bframe s s'" "holds s' j c \<longleftrightarrow> holds s j c"
proof -
  note v = holds_valid[OF inv h] and d = bio_invD[OF inv]
  have eq: "s' = changed s i x md (ptable s) (lru s) t" by (simp add: s' changed_def)
  have c: "change_ok s i x md (ptable s) (lru s)"
    unfolding change_ok_def using inv v x md d others_differ[OF inv v(1,2)] by (auto simp: buf_ok_def)
  show "bio_inv s'" unfolding eq by (rule changed_inv[OF c])
  show "blk s' = (blk s)(b := b_data x)" unfolding eq by (rule changed_blk[OF c x(2)]) (use v in auto)
  show "hs s' = hs s" unfolding eq changed_hs(1)[OF c] using x v d(1) by (auto simp: hs_def)
  have "b_dirty (bufs s ! j) \<Longrightarrow> j < NBUF \<Longrightarrow> j \<noteq> i \<Longrightarrow> b_blockno (bufs s ! j) \<noteq> b" for j
    using others_differ[OF inv v(1,2), of j] held_valid[OF inv, of j] v(3) by auto
  then show "ds s' = (if b_dirty x then insert b (ds s) else ds s - {b})"
    unfolding eq changed_hs(2)[OF c] using x v(1,3) d(1) by (auto simp: ds_def)
  show "bframe s s'" unfolding eq by (rule changed_frame) simp
  show "holds s' j c \<longleftrightarrow> holds s j c" unfolding eq changed_hs(3)[OF c] using x h by (auto simp: holds_def)
qed

lemma set_data_law:
  assumes "bio_inv s" "holds s i b" "length v = BSIZE"
  shows "\<exists>s'. set_data i v s = Ok () s' \<and> bio_inv s' \<and> blk s' = (blk s)(b := v) \<and> hs s' = hs s \<and> ds s' = ds s \<and>
    memdisk s' = memdisk s \<and> dwrites s' = dwrites s \<and> bframe s s' \<and> (\<forall>j c. holds s' j c \<longleftrightarrow> holds s j c)"
proof -
  note h = holds_valid[OF assms(1,2)] and d = bio_invD[OF assms(1)]
  let ?x = "(bufs s ! i)\<lparr>b_data := v\<rparr>"
  let ?s = "s\<lparr>bufs := (bufs s)[i := ?x]\<rparr>"
  have eq: "?s = s\<lparr>bufs := (bufs s)[i := ?x], memdisk := memdisk s, dwrites := dwrites s\<rparr>" by simp
  have x: "b_lock ?x = b_lock (bufs s ! i)" "b_blockno ?x = b" "b_valid ?x" "b_refcnt ?x = 1" "b_dev ?x = 1" "length (b_data ?x) = BSIZE"
    "\<forall>c. length (memdisk s c) = BSIZE \<and> (c \<noteq> b \<longrightarrow> memdisk s c = memdisk s c)" using h d(3) assms by simp_all
  note l = held_change[OF assms(1,2) x eq]
  have run: "set_data i v s = Ok () ?s" by (simp add: set_data_def run_simps)
  have "ds ?s = ds s" using l(4) ds_cached[OF assms(1) h(1-3)] by auto
  then show ?thesis unfolding run using l(1-3,5,6) by simp
qed

lemma bwrite_law:
  assumes "bio_inv s" "holds s i b"
  shows "\<exists>s'. bwrite i s = Ok () s' \<and> bio_inv s' \<and> blk s' = blk s \<and> hs s' = hs s \<and> ds s' = ds s - {b} \<and>
    memdisk s' = (memdisk s)(b := blk s b) \<and> dwrites s' = dwrites s @ [(b, blk s b)] \<and> bframe s s' \<and>
    (\<forall>j c. holds s' j c \<longleftrightarrow> holds s j c)"
proof -
  note h = holds_valid[OF assms] and d = bio_invD[OF assms(1)]
  let ?x = "(bufs s ! i)\<lparr>b_dirty := False\<rparr>"
  let ?s = "s\<lparr>bufs := (bufs s)[i := ?x], memdisk := (memdisk s)(b := blk s b), dwrites := dwrites s @ [(b, blk s b)]\<rparr>"
  have x: "b_lock ?x = b_lock (bufs s ! i)" "b_blockno ?x = b" "b_valid ?x" "b_refcnt ?x = 1" "b_dev ?x = 1" "length (b_data ?x) = BSIZE"
    "\<forall>c. length (((memdisk s)(b := blk s b)) c) = BSIZE \<and> (c \<noteq> b \<longrightarrow> ((memdisk s)(b := blk s b)) c = memdisk s c)" using h d(3) assms by simp_all
  note l = held_change[where md = "(memdisk s)(b := blk s b)" and t = "dwrites s @ [(b, blk s b)]", OF assms x refl]
  have "b_data ?x = blk s b" using h(8) by simp
  then have "blk ?s = blk s" using l(2) by (simp add: fun_upd_idem)
  then show ?thesis unfolding bwrite_run[OF assms] using l(1,3-6) by simp
qed

text \<open>The mark \<^verbatim>\<open>b->flags |= B_DIRTY\<close> of \<open>log_write\<close>.\<close>

definition mark_dirty :: "nat \<Rightarrow> ('a kbio_scheme, unit) kop" where
  "mark_dirty i = upd_buf i (\<lambda>b. b\<lparr>b_dirty := True\<rparr>)"

lemma mark_dirty_law:
  assumes "bio_inv s" "holds s i b"
  shows "\<exists>s'. mark_dirty i s = Ok () s' \<and> bio_inv s' \<and> blk s' = blk s \<and> hs s' = hs s \<and> ds s' = insert b (ds s) \<and>
    memdisk s' = memdisk s \<and> dwrites s' = dwrites s \<and> bframe s s' \<and> (\<forall>j c. holds s' j c \<longleftrightarrow> holds s j c)"
proof -
  note h = holds_valid[OF assms] and d = bio_invD[OF assms(1)]
  let ?x = "(bufs s ! i)\<lparr>b_dirty := True\<rparr>"
  have eq: "s\<lparr>bufs := (bufs s)[i := ?x]\<rparr> = s\<lparr>bufs := (bufs s)[i := ?x], memdisk := memdisk s, dwrites := dwrites s\<rparr>" by simp
  have x: "b_lock ?x = b_lock (bufs s ! i)" "b_blockno ?x = b" "b_valid ?x" "b_refcnt ?x = 1" "b_dev ?x = 1" "length (b_data ?x) = BSIZE"
    "\<forall>c. length (memdisk s c) = BSIZE \<and> (c \<noteq> b \<longrightarrow> memdisk s c = memdisk s c)" using h d(3) assms by simp_all
  note l = held_change[OF assms x eq]
  have "b_data ?x = blk s b" using h(8) by simp
  then have bl: "blk (s\<lparr>bufs := (bufs s)[i := ?x]\<rparr>) = blk s" using l(2) by (simp add: fun_upd_idem)
  have run: "mark_dirty i s = Ok () (s\<lparr>bufs := (bufs s)[i := ?x]\<rparr>)" by (simp add: mark_dirty_def run_simps)
  show ?thesis unfolding run using l(1,3-6) bl by simp
qed

lemma brelse_law:
  assumes "bio_inv s" "holds s i b" and clean: "b \<in> ds s \<or> blk s b = memdisk s b"
  shows "\<exists>s'. brelse i s = Ok () s' \<and> bio_inv s' \<and> blk s' = blk s \<and> hs s' = hs s - {b} \<and> ds s' = ds s \<and>
    memdisk s' = memdisk s \<and> dwrites s' = dwrites s \<and> bframe s s' \<and> (\<forall>j c. c \<noteq> b \<and> holds s j c \<longrightarrow> holds s' j c)"
proof -
  note h = holds_valid[OF assms(1,2)] and d = bio_invD[OF assms(1)]
  let ?x = "(bufs s ! i)\<lparr>b_lock := free_lock, b_refcnt := 0\<rparr>"
  let ?pt = "wakeup1 (Some (ChBufLock i)) (ptable s)"
  let ?l = "i # remove1 i (lru s)"
  let ?s = "changed s i ?x (memdisk s) ?pt ?l (dwrites s)"
  have run: "brelse i s = Ok () ?s" unfolding brelse_run[OF assms(1,2)] by (simp add: changed_def)
  have dirty: "b_dirty (bufs s ! i)" if "b \<in> ds s" using that ds_cached[OF assms(1) h(1-3)] by blast
  have ok: "buf_ok (mypid s) (memdisk s) (disksize s) ?x"
    using d(4)[OF h(1)] h clean dirty by (auto simp: buf_ok_def)
  have lr: "distinct ?l" "set ?l = {..<NBUF}" using d(6,7) h(1) by auto
  have c: "change_ok s i ?x (memdisk s) ?pt ?l"
    unfolding change_ok_def using assms(1) h ok d(3) lr others_differ[OF assms(1) h(1,2)] by simp
  have bl: "blk ?s = blk s" using changed_blk[OF c, of b] h by (simp add: fun_upd_idem)
  have u: "sl_locked (b_lock (bufs s ! j)) \<Longrightarrow> j < NBUF \<Longrightarrow> j \<noteq> i \<Longrightarrow> b_blockno (bufs s ! j) \<noteq> b" for j
    using others_differ[OF assms(1) h(1,2), of j] held_valid[OF assms(1), of j] h(3) by auto
  have "hs ?s = hs s - {b}" unfolding changed_hs(1)[OF c] using u h(1,3) d(1) by (auto simp: hs_def)
  moreover have "ds ?s = ds s" unfolding changed_hs(2)[OF c] using h(1,3) d(1) by (auto simp: ds_def)
  moreover have "\<forall>j c. c \<noteq> b \<and> holds s j c \<longrightarrow> holds ?s j c" unfolding changed_hs(3)[OF c] using h(3) by (auto simp: holds_def)
  ultimately show ?thesis unfolding run using changed_inv[OF c] bl changed_frame[of s ?pt] by auto
qed

lemma unheld_clean:
  assumes "bio_inv s" "b \<notin> hs s"
  shows "b \<in> ds s \<or> blk s b = memdisk s b"
proof (cases "\<exists>i < NBUF. b_valid (bufs s ! i) \<and> b_blockno (bufs s ! i) = b")
  case True
  then obtain i where i: "i < NBUF" "b_valid (bufs s ! i)" "b_blockno (bufs s ! i) = b" by blast
  have "\<not> sl_locked (b_lock (bufs s ! i))" using assms(2) i bio_invD(1)[OF assms(1)] by (auto simp: hs_def)
  then show ?thesis
    using bio_invD(4)[OF assms(1) i(1)] i ds_cached[OF assms(1) i] blk_cached[OF assms(1) i] by (auto simp: buf_ok_def)
next
  case False
  then show ?thesis using blk_uncached[OF assms(1), of b] by auto
qed

section \<open>The contract as a locale\<close>

lemma card_insert_le_Suc: "card (insert a X) \<le> Suc (card X)"
  by (cases "finite X") (simp_all add: card_insert_if)

text \<open>What the clients of the cache see of the state.\<close>

record bview =
  v_blk :: "nat \<Rightarrow> uchar list"
  v_hs :: "nat set"
  v_ds :: "nat set"
  v_dsk :: "nat \<Rightarrow> uchar list"
  v_writes :: "(nat \<times> uchar list) list"
  v_size :: nat

definition bview_of :: "'a kbio_scheme \<Rightarrow> bview" where
  "bview_of s = \<lparr>v_blk = blk s, v_hs = hs s, v_ds = ds s, v_dsk = memdisk s, v_writes = dwrites s, v_size = disksize s\<rparr>"

locale block_cache =
  fixes bread :: "nat \<Rightarrow> nat \<Rightarrow> ('s, nat) kop" and bwrite brelse :: "nat \<Rightarrow> ('s, unit) kop"
    and getd :: "nat \<Rightarrow> ('s, uchar list) kop" and setd :: "nat \<Rightarrow> uchar list \<Rightarrow> ('s, unit) kop"
    and inv :: "'s \<Rightarrow> bool" and view :: "'s \<Rightarrow> bview" and holds :: "'s \<Rightarrow> nat \<Rightarrow> nat \<Rightarrow> bool"
    and frame :: "'s \<Rightarrow> 's \<Rightarrow> bool"
  assumes bread: "\<lbrakk>inv s; b < v_size (view s); b \<notin> v_hs (view s);
      b \<in> v_ds (view s) \<or> card (v_hs (view s) \<union> v_ds (view s)) < NBUF\<rbrakk> \<Longrightarrow>
      \<exists>i s'. bread 1 b s = Ok i s' \<and> inv s' \<and> holds s' i b \<and> frame s s' \<and>
        view s' = (view s)\<lparr>v_hs := insert b (v_hs (view s))\<rparr> \<and> (\<forall>j c. holds s j c \<longrightarrow> holds s' j c)"
    and getd: "\<lbrakk>inv s; holds s i b\<rbrakk> \<Longrightarrow> getd i s = Ok (v_blk (view s) b) s"
    and setd: "\<lbrakk>inv s; holds s i b; length d = BSIZE\<rbrakk> \<Longrightarrow>
      \<exists>s'. setd i d s = Ok () s' \<and> inv s' \<and> frame s s' \<and>
        view s' = (view s)\<lparr>v_blk := (v_blk (view s))(b := d)\<rparr> \<and> (\<forall>j c. holds s j c \<longrightarrow> holds s' j c)"
    and bwrite: "\<lbrakk>inv s; holds s i b\<rbrakk> \<Longrightarrow>
      \<exists>s'. bwrite i s = Ok () s' \<and> inv s' \<and> frame s s' \<and>
        view s' = (view s)\<lparr>v_ds := v_ds (view s) - {b}, v_dsk := (v_dsk (view s))(b := v_blk (view s) b),
          v_writes := v_writes (view s) @ [(b, v_blk (view s) b)]\<rparr> \<and> (\<forall>j c. holds s j c \<longrightarrow> holds s' j c)"
    and brelse: "\<lbrakk>inv s; holds s i b; b \<in> v_ds (view s) \<or> v_blk (view s) b = v_dsk (view s) b\<rbrakk> \<Longrightarrow>
      \<exists>s'. brelse i s = Ok () s' \<and> inv s' \<and> frame s s' \<and>
        view s' = (view s)\<lparr>v_hs := v_hs (view s) - {b}\<rparr> \<and> (\<forall>j c. c \<noteq> b \<and> holds s j c \<longrightarrow> holds s' j c)"
    and clean: "\<lbrakk>inv s; b \<notin> v_hs (view s)\<rbrakk> \<Longrightarrow> b \<in> v_ds (view s) \<or> v_blk (view s) b = v_dsk (view s) b"
    and len: "inv s \<Longrightarrow> length (v_blk (view s) b) = BSIZE"
    and fin: "inv s \<Longrightarrow> finite (v_hs (view s) \<union> v_ds (view s))"
    and frame_refl: "frame s s"
    and frame_trans: "frame s t \<Longrightarrow> frame t u \<Longrightarrow> frame s u"
begin

text \<open>Reading a block that nobody holds changes nothing the clients see.\<close>

lemma read_block:
  assumes "inv s" "b < v_size (view s)" "b \<notin> v_hs (view s)"
    "b \<in> v_ds (view s) \<or> card (v_hs (view s) \<union> v_ds (view s)) < NBUF"
  shows "\<exists>s'. bnd (bread 1 b) (\<lambda>i. bnd (getd i) (\<lambda>d. bnd (brelse i) (\<lambda>_. k d))) s = k (v_blk (view s) b) s' \<and>
    inv s' \<and> view s' = view s \<and> frame s s' \<and> (\<forall>j c. c \<noteq> b \<and> holds s j c \<longrightarrow> holds s' j c)"
proof -
  obtain i s1 where s1: "bread 1 b s = Ok i s1" "inv s1" "holds s1 i b" "frame s s1"
    "view s1 = (view s)\<lparr>v_hs := insert b (v_hs (view s))\<rparr>" "\<forall>j c. holds s j c \<longrightarrow> holds s1 j c"
    using bread[OF assms] by blast
  have "b \<in> v_ds (view s1) \<or> v_blk (view s1) b = v_dsk (view s1) b" using clean[OF assms(1,3)] by (simp add: s1)
  then obtain s2 where s2: "brelse i s1 = Ok () s2" "inv s2" "frame s1 s2"
    "view s2 = (view s1)\<lparr>v_hs := v_hs (view s1) - {b}\<rparr>" "\<forall>j c. c \<noteq> b \<and> holds s1 j c \<longrightarrow> holds s2 j c"
    using brelse[OF s1(2,3)] by blast
  have "view s2 = view s" unfolding s2(4) s1(5) using assms(3) by simp
  then show ?thesis
    using s1 s2 frame_trans[OF s1(4) s2(3)] getd[OF s1(2,3)]
    by (intro exI[of _ s2]) (simp add: bnd_step)
qed

text \<open>Rewriting a block in place, straight to the disk.\<close>

lemma rewrite_block:
  assumes "inv s" "b < v_size (view s)" "b \<notin> v_hs (view s)"
    "b \<in> v_ds (view s) \<or> card (v_hs (view s) \<union> v_ds (view s)) < NBUF"
    "length (f (v_blk (view s) b)) = BSIZE"
  shows "\<exists>s'. bnd (bread 1 b) (\<lambda>i. bnd (getd i) (\<lambda>d. seq (setd i (f d)) (seq (bwrite i) (brelse i)))) s = Ok () s' \<and>
    inv s' \<and> frame s s' \<and> (let d = f (v_blk (view s) b) in
    view s' = (view s)\<lparr>v_blk := (v_blk (view s))(b := d), v_ds := v_ds (view s) - {b}, v_dsk := (v_dsk (view s))(b := d),
      v_writes := v_writes (view s) @ [(b, d)]\<rparr>)"
proof -
  let ?d = "f (v_blk (view s) b)"
  obtain i s1 where s1: "bread 1 b s = Ok i s1" "inv s1" "holds s1 i b" "frame s s1"
    "view s1 = (view s)\<lparr>v_hs := insert b (v_hs (view s))\<rparr>"
    using bread[OF assms(1-4)] by blast
  have g: "getd i s1 = Ok (v_blk (view s) b) s1" using getd[OF s1(2,3)] s1(5) by simp
  obtain s2 where s2: "setd i ?d s1 = Ok () s2" "inv s2" "frame s1 s2"
    "view s2 = (view s1)\<lparr>v_blk := (v_blk (view s1))(b := ?d)\<rparr>" "holds s2 i b"
    using setd[OF s1(2,3) assms(5)] s1(3) by blast
  obtain s3 where s3: "bwrite i s2 = Ok () s3" "inv s3" "frame s2 s3"
    "view s3 = (view s2)\<lparr>v_ds := v_ds (view s2) - {b}, v_dsk := (v_dsk (view s2))(b := v_blk (view s2) b),
      v_writes := v_writes (view s2) @ [(b, v_blk (view s2) b)]\<rparr>" "holds s3 i b"
    using bwrite[OF s2(2,5)] s2(5) by blast
  have "v_blk (view s3) b = v_dsk (view s3) b" by (simp add: s3(4))
  then obtain s4 where s4: "brelse i s3 = Ok () s4" "inv s4" "frame s3 s4"
    "view s4 = (view s3)\<lparr>v_hs := v_hs (view s3) - {b}\<rparr>" using brelse[OF s3(2,5)] by blast
  have "view s4 = (view s)\<lparr>v_blk := (v_blk (view s))(b := ?d), v_ds := v_ds (view s) - {b}, v_dsk := (v_dsk (view s))(b := ?d),
      v_writes := v_writes (view s) @ [(b, ?d)]\<rparr>"
    unfolding s4(4) s3(4) s2(4) s1(5) using assms(3) by simp
  moreover have "frame s s4" using s1(4) s2(3) s3(3) s4(3) frame_trans by blast
  ultimately show ?thesis using s1 s2 s3 s4 g by (intro exI[of _ s4]) (simp add: bnd_step Let_def)
qed

text \<open>
  Copying block \<open>src\<close> over block \<open>dst\<close> on the disk, with both buffers held. The two blocks are
  read in either order; the source is released first.
\<close>

lemma copy_tail:
  assumes "inv s" "holds s l src" "holds s d dst" "src \<noteq> dst" "src \<in> v_ds (view s) \<or> v_blk (view s) src = v_dsk (view s) src"
  shows "\<exists>s'. bnd (getd l) (\<lambda>x. seq (setd d x) (seq (bwrite d) (seq (brelse l) (brelse d)))) s = Ok () s' \<and>
    inv s' \<and> frame s s' \<and> view s' = (view s)\<lparr>v_blk := (v_blk (view s))(dst := v_blk (view s) src), v_hs := v_hs (view s) - {src} - {dst},
      v_ds := v_ds (view s) - {dst}, v_dsk := (v_dsk (view s))(dst := v_blk (view s) src),
      v_writes := v_writes (view s) @ [(dst, v_blk (view s) src)]\<rparr>"
proof -
  let ?x = "v_blk (view s) src"
  obtain s2 where s2: "setd d ?x s = Ok () s2" "inv s2" "frame s s2"
    "view s2 = (view s)\<lparr>v_blk := (v_blk (view s))(dst := ?x)\<rparr>" "holds s2 d dst" "holds s2 l src"
    using setd[OF assms(1,3) len[OF assms(1)]] assms(2,3) by blast
  obtain s3 where s3: "bwrite d s2 = Ok () s3" "inv s3" "frame s2 s3"
    "view s3 = (view s2)\<lparr>v_ds := v_ds (view s2) - {dst}, v_dsk := (v_dsk (view s2))(dst := v_blk (view s2) dst),
      v_writes := v_writes (view s2) @ [(dst, v_blk (view s2) dst)]\<rparr>" "holds s3 d dst" "holds s3 l src"
    using bwrite[OF s2(2,5)] s2(5,6) by blast
  have "src \<in> v_ds (view s3) \<or> v_blk (view s3) src = v_dsk (view s3) src"
    using assms(4,5) by (simp add: s3(4) s2(4))
  then obtain s4 where s4: "brelse l s3 = Ok () s4" "inv s4" "frame s3 s4"
    "view s4 = (view s3)\<lparr>v_hs := v_hs (view s3) - {src}\<rparr>" "holds s4 d dst"
    using brelse[OF s3(2,6)] s3(5) assms(4)[symmetric] by blast
  have "v_blk (view s4) dst = v_dsk (view s4) dst" by (simp add: s4(4) s3(4))
  then obtain s5 where s5: "brelse d s4 = Ok () s5" "inv s5" "frame s4 s5"
    "view s5 = (view s4)\<lparr>v_hs := v_hs (view s4) - {dst}\<rparr>" using brelse[OF s4(2,5)] by blast
  have "frame s s5" using s2(3) s3(3) s4(3) s5(3) frame_trans by blast
  moreover have "view s5 = (view s)\<lparr>v_blk := (v_blk (view s))(dst := ?x), v_hs := v_hs (view s) - {src} - {dst},
      v_ds := v_ds (view s) - {dst}, v_dsk := (v_dsk (view s))(dst := ?x), v_writes := v_writes (view s) @ [(dst, ?x)]\<rparr>"
    unfolding s5(4) s4(4) s3(4) s2(4) by simp
  ultimately show ?thesis using s2 s3 s4 s5 getd[OF assms(1,2)] by (intro exI[of _ s5]) (simp add: bnd_step)
qed

lemma bread2:
  assumes "inv s" "a < v_size (view s)" "b < v_size (view s)" "a \<notin> v_hs (view s)" "b \<notin> v_hs (view s)" "a \<noteq> b"
    "a \<in> v_ds (view s) \<or> card (v_hs (view s) \<union> v_ds (view s)) < NBUF"
    "b \<in> v_ds (view s) \<or> Suc (card (v_hs (view s) \<union> v_ds (view s))) < NBUF"
  shows "\<exists>i j s'. bnd (bread 1 a) (\<lambda>x. bnd (bread 1 b) (\<lambda>y. k x y)) s = k i j s' \<and> inv s' \<and> frame s s' \<and> holds s' i a \<and> holds s' j b \<and>
    view s' = (view s)\<lparr>v_hs := insert b (insert a (v_hs (view s)))\<rparr>"
proof -
  obtain i s1 where s1: "bread 1 a s = Ok i s1" "inv s1" "holds s1 i a" "frame s s1"
    "view s1 = (view s)\<lparr>v_hs := insert a (v_hs (view s))\<rparr>"
    using bread[OF assms(1,2,4,7)] by blast
  have "card (v_hs (view s1) \<union> v_ds (view s1)) \<le> Suc (card (v_hs (view s) \<union> v_ds (view s)))"
    unfolding s1(5) by (simp add: card_insert_le_Suc)
  then have "b \<in> v_ds (view s1) \<or> card (v_hs (view s1) \<union> v_ds (view s1)) < NBUF" using assms(8) s1(5) by auto
  moreover have "b \<notin> v_hs (view s1)" "b < v_size (view s1)" using assms(3,5,6) s1(5) by auto
  ultimately obtain j s2 where s2: "bread 1 b s1 = Ok j s2" "inv s2" "holds s2 j b" "frame s1 s2"
    "view s2 = (view s1)\<lparr>v_hs := insert b (v_hs (view s1))\<rparr>" "holds s2 i a"
    using bread[OF s1(2)] s1(3) by blast
  show ?thesis using s1 s2 frame_trans[OF s1(4) s2(4)]
    by (intro exI[of _ i] exI[of _ j] exI[of _ s2]) (simp add: bnd_step)
qed

lemma copy_block:
  assumes "inv s" "src < v_size (view s)" "dst < v_size (view s)" "src \<notin> v_hs (view s)" "dst \<notin> v_hs (view s)" "src \<noteq> dst"
    and room: "card (v_hs (view s) \<union> v_ds (view s)) < NBUF"
  shows "dst \<in> v_ds (view s) \<or> Suc (card (v_hs (view s) \<union> v_ds (view s))) < NBUF \<Longrightarrow>
      \<exists>s'. bnd (bread 1 src) (\<lambda>l. bnd (bread 1 dst) (\<lambda>d. bnd (getd l) (\<lambda>x. seq (setd d x) (seq (bwrite d) (seq (brelse l) (brelse d)))))) s = Ok () s' \<and>
      inv s' \<and> frame s s' \<and> view s' = (view s)\<lparr>v_blk := (v_blk (view s))(dst := v_blk (view s) src),
      v_ds := v_ds (view s) - {dst}, v_dsk := (v_dsk (view s))(dst := v_blk (view s) src),
      v_writes := v_writes (view s) @ [(dst, v_blk (view s) src)]\<rparr>"
    and "src \<in> v_ds (view s) \<or> Suc (card (v_hs (view s) \<union> v_ds (view s))) < NBUF \<Longrightarrow>
      \<exists>s'. bnd (bread 1 dst) (\<lambda>d. bnd (bread 1 src) (\<lambda>l. bnd (getd l) (\<lambda>x. seq (setd d x) (seq (bwrite d) (seq (brelse l) (brelse d)))))) s = Ok () s' \<and>
      inv s' \<and> frame s s' \<and> view s' = (view s)\<lparr>v_blk := (v_blk (view s))(dst := v_blk (view s) src),
      v_ds := v_ds (view s) - {dst}, v_dsk := (v_dsk (view s))(dst := v_blk (view s) src),
      v_writes := v_writes (view s) @ [(dst, v_blk (view s) src)]\<rparr>"
proof -
  let ?new = "(view s)\<lparr>v_blk := (v_blk (view s))(dst := v_blk (view s) src),
      v_ds := v_ds (view s) - {dst}, v_dsk := (v_dsk (view s))(dst := v_blk (view s) src),
      v_writes := v_writes (view s) @ [(dst, v_blk (view s) src)]\<rparr>"
  let ?k = "\<lambda>l d. bnd (getd l) (\<lambda>x. seq (setd d x) (seq (bwrite d) (seq (brelse l) (brelse d))))"
  have both: "\<exists>s'. ?k l d s1 = Ok () s' \<and> inv s' \<and> frame s s' \<and> view s' = ?new"
    if a: "inv s1" "frame s s1" "holds s1 l src" "holds s1 d dst" "view s1 = (view s)\<lparr>v_hs := insert dst (insert src (v_hs (view s)))\<rparr>" for s1 l d
  proof -
    have "src \<in> v_ds (view s1) \<or> v_blk (view s1) src = v_dsk (view s1) src" using clean[OF assms(1,4)] a(5) by simp
    then obtain s2 where s2: "?k l d s1 = Ok () s2" "inv s2" "frame s1 s2"
      "view s2 = (view s1)\<lparr>v_blk := (v_blk (view s1))(dst := v_blk (view s1) src), v_hs := v_hs (view s1) - {src} - {dst},
      v_ds := v_ds (view s1) - {dst}, v_dsk := (v_dsk (view s1))(dst := v_blk (view s1) src),
      v_writes := v_writes (view s1) @ [(dst, v_blk (view s1) src)]\<rparr>"
      using copy_tail[OF a(1,3,4) assms(6)] by blast
    have "insert dst (insert src (v_hs (view s))) - {src} - {dst} = v_hs (view s)" using assms(4,5,6) by auto
    then have "view s2 = ?new" unfolding s2(4) a(5) by simp
    then show ?thesis using s2 frame_trans[OF a(2) s2(3)] by blast
  qed
  show "\<exists>s'. bnd (bread 1 src) (\<lambda>l. bnd (bread 1 dst) (\<lambda>d. ?k l d)) s = Ok () s' \<and> inv s' \<and> frame s s' \<and> view s' = ?new"
    if r: "dst \<in> v_ds (view s) \<or> Suc (card (v_hs (view s) \<union> v_ds (view s))) < NBUF"
  proof -
    obtain i j s1 where s1: "bnd (bread 1 src) (\<lambda>l. bnd (bread 1 dst) (\<lambda>d. ?k l d)) s = ?k i j s1" "inv s1" "frame s s1" "holds s1 i src" "holds s1 j dst"
      "view s1 = (view s)\<lparr>v_hs := insert dst (insert src (v_hs (view s)))\<rparr>"
      using bread2[where k = ?k, OF assms(1-6) _ r] room by blast
    show ?thesis unfolding s1(1) by (rule both[OF s1(2-6)])
  qed
  show "\<exists>s'. bnd (bread 1 dst) (\<lambda>d. bnd (bread 1 src) (\<lambda>l. ?k l d)) s = Ok () s' \<and> inv s' \<and> frame s s' \<and> view s' = ?new"
    if r: "src \<in> v_ds (view s) \<or> Suc (card (v_hs (view s) \<union> v_ds (view s))) < NBUF"
  proof -
    obtain i j s1 where s1: "bnd (bread 1 dst) (\<lambda>d. bnd (bread 1 src) (\<lambda>l. ?k l d)) s = ?k j i s1" "inv s1" "frame s s1" "holds s1 i dst" "holds s1 j src"
      "view s1 = (view s)\<lparr>v_hs := insert src (insert dst (v_hs (view s)))\<rparr>"
      using bread2[where k = "\<lambda>d l. ?k l d", OF assms(1,3,2,5,4) assms(6)[symmetric] _ r] room by blast
    show ?thesis unfolding s1(1) by (rule both[OF s1(2,3,5,4)]) (simp add: s1(6) insert_commute)
  qed
qed

end

text \<open>The cache of \<^verbatim>\<open>bio.c\<close> keeps the contract.\<close>

lemma bview_sel [simp]:
  "v_blk (bview_of s) = blk s" "v_hs (bview_of s) = hs s" "v_ds (bview_of s) = ds s" "v_dsk (bview_of s) = memdisk s"
  "v_writes (bview_of s) = dwrites s" "v_size (bview_of s) = disksize s"
  by (simp_all add: bview_of_def)

interpretation bc: block_cache bread bwrite brelse get_data set_data bio_inv bview_of holds bframe
proof (unfold_locales, unfold bview_sel)
  fix s :: "'a kbio_scheme" and b
  assume a: "bio_inv s" "b < disksize s" "b \<notin> hs s" "b \<in> ds s \<or> card (hs s \<union> ds s) < NBUF"
  from bread_law[OF a] obtain i s' where "bread 1 b s = Ok i s'" "bio_inv s'" "holds s' i b" "bframe s s'"
    "blk s' = blk s" "hs s' = insert b (hs s)" "ds s' = ds s" "memdisk s' = memdisk s" "dwrites s' = dwrites s" "\<forall>j c. holds s j c \<longrightarrow> holds s' j c"
    by blast
  then show "\<exists>i s'. bread 1 b s = Ok i s' \<and> bio_inv s' \<and> holds s' i b \<and> bframe s s' \<and>
      bview_of s' = (bview_of s)\<lparr>v_hs := insert b (hs s)\<rparr> \<and> (\<forall>j c. holds s j c \<longrightarrow> holds s' j c)"
    by (intro exI[of _ i] exI[of _ s']) (simp add: bview_of_def bframe_sel(1))
next
  fix s :: "'a kbio_scheme" and b i
  assume a: "bio_inv s" "holds s i b"
  show "get_data i s = Ok (blk s b) s" using holds_valid(8)[OF a] by (simp add: get_data_def fetch_def)
next
  fix s :: "'a kbio_scheme" and b i and d :: "uchar list"
  assume a: "bio_inv s" "holds s i b" "length d = BSIZE"
  from set_data_law[OF a] obtain s' where "set_data i d s = Ok () s'" "bio_inv s'" "bframe s s'"
    "blk s' = (blk s)(b := d)" "hs s' = hs s" "ds s' = ds s" "memdisk s' = memdisk s" "dwrites s' = dwrites s" "\<forall>j c. holds s' j c \<longleftrightarrow> holds s j c"
    by blast
  then show "\<exists>s'. set_data i d s = Ok () s' \<and> bio_inv s' \<and> bframe s s' \<and>
      bview_of s' = (bview_of s)\<lparr>v_blk := (blk s)(b := d)\<rparr> \<and> (\<forall>j c. holds s j c \<longrightarrow> holds s' j c)"
    by (intro exI[of _ s']) (simp add: bview_of_def bframe_sel(1))
next
  fix s :: "'a kbio_scheme" and b i
  assume a: "bio_inv s" "holds s i b"
  from bwrite_law[OF a] obtain s' where "bwrite i s = Ok () s'" "bio_inv s'" "bframe s s'"
    "blk s' = blk s" "hs s' = hs s" "ds s' = ds s - {b}" "memdisk s' = (memdisk s)(b := blk s b)"
    "dwrites s' = dwrites s @ [(b, blk s b)]" "\<forall>j c. holds s' j c \<longleftrightarrow> holds s j c"
    by blast
  then show "\<exists>s'. bwrite i s = Ok () s' \<and> bio_inv s' \<and> bframe s s' \<and>
      bview_of s' = (bview_of s)\<lparr>v_ds := ds s - {b}, v_dsk := (memdisk s)(b := blk s b), v_writes := dwrites s @ [(b, blk s b)]\<rparr> \<and>
      (\<forall>j c. holds s j c \<longrightarrow> holds s' j c)"
    by (intro exI[of _ s']) (simp add: bview_of_def bframe_sel(1))
next
  fix s :: "'a kbio_scheme" and b i
  assume a: "bio_inv s" "holds s i b" "b \<in> ds s \<or> blk s b = memdisk s b"
  from brelse_law[OF a] obtain s' where "brelse i s = Ok () s'" "bio_inv s'" "bframe s s'"
    "blk s' = blk s" "hs s' = hs s - {b}" "ds s' = ds s" "memdisk s' = memdisk s" "dwrites s' = dwrites s"
    "\<forall>j c. c \<noteq> b \<and> holds s j c \<longrightarrow> holds s' j c"
    by blast
  then show "\<exists>s'. brelse i s = Ok () s' \<and> bio_inv s' \<and> bframe s s' \<and>
      bview_of s' = (bview_of s)\<lparr>v_hs := hs s - {b}\<rparr> \<and> (\<forall>j c. c \<noteq> b \<and> holds s j c \<longrightarrow> holds s' j c)"
    by (intro exI[of _ s']) (simp add: bview_of_def bframe_sel(1))
next
  fix s :: "'a kbio_scheme" and b
  show "bio_inv s \<Longrightarrow> b \<notin> hs s \<Longrightarrow> b \<in> ds s \<or> blk s b = memdisk s b" by (rule unheld_clean)
  show "finite (hs s \<union> ds s)" by (simp add: hs_def ds_def)
  show "bio_inv s \<Longrightarrow> length (blk s b) = BSIZE" by simp
qed (auto intro: bframe_trans)

end
