(* ===== verification/Log.thy ===== *)
theory Log
  imports Bcache
begin

text \<open>
  The write-ahead log of \<^verbatim>\<open>log.c\<close>. A transaction collects the numbers of the blocks it changed;
  \<open>commit\<close> copies them to the log, then writes the header, then installs them and clears the
  header. The theorems: what \<open>log_write\<close>, \<open>commit\<close> and recovery do to the blocks and to the
  disk, and that a crash after any prefix of the writes of a commit, or of a later recovery,
  leaves a disk on which recovery restores either all blocks as they were or all new ones.
\<close>

abbreviation (input) MAXOPBLOCKS :: nat where "MAXOPBLOCKS \<equiv> 10"
abbreviation (input) LOGSIZE :: nat where "LOGSIZE \<equiv> 30"

text \<open>\<^verbatim>\<open>struct superblock\<close>, and its image on the disk.\<close>

record superblock =
  sb_size :: nat
  sb_nblocks :: nat
  sb_ninodes :: nat
  sb_nlog :: nat
  sb_logstart :: nat
  sb_inodestart :: nat
  sb_bmapstart :: nat

definition dec_sb :: "uchar list \<Rightarrow> superblock" where
  "dec_sb d = \<lparr>sb_size = unat (get32 d 0), sb_nblocks = unat (get32 d 4), sb_ninodes = unat (get32 d 8),
     sb_nlog = unat (get32 d 12), sb_logstart = unat (get32 d 16), sb_inodestart = unat (get32 d 20),
     sb_bmapstart = unat (get32 d 24)\<rparr>"

text \<open>\<^verbatim>\<open>struct log\<close>; \<open>lh\<close> is the array \<^verbatim>\<open>lh.block\<close> up to \<^verbatim>\<open>lh.n\<close>.\<close>

record klog = kbio +
  lstart :: nat
  lsize :: nat
  outstanding :: int
  committing :: bool
  ldev :: nat
  lh :: "nat list"

definition readsb :: "nat \<Rightarrow> ('a kbio_scheme, superblock) kop" where
  "readsb dev =
     bnd (bread dev 1) (\<lambda>bp.
     bnd (get_data bp) (\<lambda>d.
     seq (brelse bp)
     (ret (dec_sb d))))"

text \<open>
  The log header in a block: the count, then the block numbers. Reading takes as many numbers
  as the (signed) count says; writing leaves the rest of the block alone.
\<close>

definition dec_head :: "uchar list \<Rightarrow> nat list" where
  "dec_head d = map (\<lambda>i. unat (get32 d (4 + 4 * i))) [0..<nat (sint (get32 d 0))]"

fun enc_blocks :: "uchar list \<Rightarrow> nat \<Rightarrow> nat list \<Rightarrow> uchar list" where
  "enc_blocks d i [] = d"
| "enc_blocks d i (b # bs) = enc_blocks (put32 d (4 + 4 * i) (of_nat b)) (Suc i) bs"

definition enc_head :: "uchar list \<Rightarrow> nat list \<Rightarrow> uchar list" where
  "enc_head d bs = enc_blocks (put32 d 0 (of_nat (length bs))) 0 bs"

definition install_one :: "nat \<Rightarrow> ('a klog_scheme, unit) kop" where
  "install_one tail =
       bnd (fetch (\<lambda>s. (ldev s, lstart s + tail + 1, lh s ! tail))) (\<lambda>(dev, lb, db).
       bnd (bread dev lb) (\<lambda>lbuf.
       bnd (bread dev db) (\<lambda>dbuf.
       bnd (get_data lbuf) (\<lambda>d.
       seq (set_data dbuf d)
       (seq (bwrite dbuf)
       (seq (brelse lbuf)
       (brelse dbuf)))))))"

definition install_trans :: "('a klog_scheme, unit) kop" where
  "install_trans = bnd (fetch (\<lambda>s. length (lh s))) (\<lambda>n. foreach [0..<n] install_one)"

definition read_head :: "('a klog_scheme, unit) kop" where
  "read_head =
     bnd (fetch (\<lambda>s. (ldev s, lstart s))) (\<lambda>(dev, st).
     bnd (bread dev st) (\<lambda>buf.
     bnd (get_data buf) (\<lambda>d.
     seq (modify (\<lambda>s. s\<lparr>lh := dec_head d\<rparr>))
     (brelse buf))))"

definition write_head :: "('a klog_scheme, unit) kop" where
  "write_head =
     bnd (fetch (\<lambda>s. (ldev s, lstart s, lh s))) (\<lambda>(dev, st, bs).
     bnd (bread dev st) (\<lambda>buf.
     bnd (get_data buf) (\<lambda>d.
     seq (set_data buf (enc_head d bs))
     (seq (bwrite buf)
     (brelse buf)))))"

definition recover_from_log :: "('a klog_scheme, unit) kop" where
  "recover_from_log =
     seq read_head
     (seq install_trans
     (seq (modify (\<lambda>s. s\<lparr>lh := []\<rparr>))
     write_head))"

definition initlog :: "nat \<Rightarrow> ('a klog_scheme, unit) kop" where
  "initlog dev =
     seq (panic_if (124 \<ge> BSIZE) ''initlog: too big logheader'')
     (bnd (readsb dev) (\<lambda>sb.
     seq (modify (\<lambda>s. s\<lparr>lstart := sb_logstart sb, lsize := sb_nlog sb, ldev := dev\<rparr>))
     recover_from_log))"

text \<open>
  \<open>begin_op\<close> from the head of its loop on; a process that has to wait leaves through \<open>sleep\<close> and
  comes back to the head of the loop.
\<close>

definition begin_op_loop :: "('a klog_scheme, unit) kop" where
  "begin_op_loop =
     bnd (fetch (\<lambda>s. (committing s, int (length (lh s)) + (outstanding s + 1) * int MAXOPBLOCKS > int LOGSIZE))) (\<lambda>(c, full).
     if c then sleep ChLog L_log
     else if full then sleep ChLog L_log
     else
       seq (modify (\<lambda>s. s\<lparr>outstanding := outstanding s + 1\<rparr>))
       (krelease L_log))"

definition begin_op :: "('a klog_scheme, unit) kop" where
  "begin_op = seq (kacquire L_log) begin_op_loop"

definition log_one :: "nat \<Rightarrow> ('a klog_scheme, unit) kop" where
  "log_one tail =
       bnd (fetch (\<lambda>s. (ldev s, lstart s + tail + 1, lh s ! tail))) (\<lambda>(dev, lb, db).
       bnd (bread dev lb) (\<lambda>to.
       bnd (bread dev db) (\<lambda>from.
       bnd (get_data from) (\<lambda>d.
       seq (set_data to d)
       (seq (bwrite to)
       (seq (brelse from)
       (brelse to)))))))"

definition write_log :: "('a klog_scheme, unit) kop" where
  "write_log = bnd (fetch (\<lambda>s. length (lh s))) (\<lambda>n. foreach [0..<n] log_one)"

definition commit :: "('a klog_scheme, unit) kop" where
  "commit =
     bnd (fetch (\<lambda>s. length (lh s))) (\<lambda>n.
     if n > 0 then
       seq write_log
       (seq write_head
       (seq install_trans
       (seq (modify (\<lambda>s. s\<lparr>lh := []\<rparr>))
       write_head)))
     else ret ())"

definition end_op :: "('a klog_scheme, unit) kop" where
  "end_op =
     seq (kacquire L_log)
     (seq (modify (\<lambda>s. s\<lparr>outstanding := outstanding s - 1\<rparr>))
     (bnd (fetch committing) (\<lambda>c.
     seq (panic_if c ''log.committing'')
     (bnd (fetch outstanding) (\<lambda>n.
     if n = 0 then
       seq (modify (\<lambda>s. s\<lparr>committing := True\<rparr>))
       (seq (krelease L_log)
       (seq commit
       (seq (kacquire L_log)
       (seq (modify (\<lambda>s. s\<lparr>committing := False\<rparr>))
       (seq (wakeup ChLog)
       (krelease L_log))))))
     else
       seq (wakeup ChLog)
       (krelease L_log))))))"

definition log_write :: "nat \<Rightarrow> ('a klog_scheme, unit) kop" where
  "log_write i =
     bnd (fetch (\<lambda>s. (length (lh s), lsize s, outstanding s))) (\<lambda>(n, sz, out).
     seq (panic_if (n \<ge> LOGSIZE \<or> int n \<ge> int sz - 1) ''too big a transaction'')
     (seq (panic_if (out < 1) ''log_write outside of trans'')
     (seq (kacquire L_log)
     (bnd (fetch (\<lambda>s. b_blockno (bufs s ! i))) (\<lambda>b.
     seq (modify (\<lambda>s. s\<lparr>lh := (if b \<in> set (lh s) then lh s else lh s @ [b])\<rparr>))
     (seq (mark_dirty i)
     (krelease L_log)))))))"

section \<open>The header\<close>

lemma enc_blocks_length [simp]: "4 + 4 * (i + length bs) \<le> length d \<Longrightarrow> length (enc_blocks d i bs) = length d"
  by (induction bs arbitrary: d i) auto

lemma enc_blocks_before:
  "off + 4 \<le> 4 + 4 * i \<Longrightarrow> 4 + 4 * (i + length bs) \<le> length d \<Longrightarrow> get32 (enc_blocks d i bs) off = get32 d off"
  by (induction bs arbitrary: d i) (auto simp: get32_put32_other)

lemma enc_blocks_nth:
  "j < length bs \<Longrightarrow> 4 + 4 * (i + length bs) \<le> length d \<Longrightarrow> get32 (enc_blocks d i bs) (4 + 4 * (i + j)) = of_nat (bs ! j)"
proof (induction bs arbitrary: d i j)
  case (Cons b bs)
  show ?case
  proof (cases j)
    case 0
    then show ?thesis using Cons.prems by (simp add: enc_blocks_before)
  next
    case (Suc k)
    then show ?thesis using Cons.IH[of k "Suc i" "put32 d (4 + 4 * i) (of_nat b)"] Cons.prems by simp
  qed
qed simp

lemma length_enc_head [simp]: "4 + 4 * length bs \<le> length d \<Longrightarrow> length (enc_head d bs) = length d"
  by (simp add: enc_head_def)

lemma dec_enc_head:
  assumes "length bs \<le> LOGSIZE" "length d = BSIZE" "\<forall>b \<in> set bs. b < 4294967296"
  shows "dec_head (enc_head d bs) = bs"
proof -
  have "get32 (enc_head d bs) 0 = of_nat (length bs)"
    using assms by (simp add: enc_head_def enc_blocks_before)
  moreover have "sint (of_nat (length bs) :: uint) = int (length bs)"
    using assms(1) by (simp add: signed_of_nat signed_take_bit_int_eq_self)
  ultimately have "nat (sint (get32 (enc_head d bs) 0)) = length bs" by simp
  moreover have "unat (get32 (enc_head d bs) (4 + 4 * i)) = bs ! i" if "i < length bs" for i
    using enc_blocks_nth[of i bs 0 "put32 d 0 (of_nat (length bs))"] assms that
    by (simp add: enc_head_def unat_of_nat_small)
  ultimately show ?thesis by (intro nth_equalityI) (simp_all add: dec_head_def)
qed

lemma image_nth: "(\<lambda>i. xs ! i) ` {0..<length xs} = set xs"
  by (metis list.set_map map_nth set_upt)

section \<open>Sequences of disk writes\<close>

definition disk_writes :: "(nat \<times> uchar list) list \<Rightarrow> (nat \<Rightarrow> uchar list) \<Rightarrow> nat \<Rightarrow> uchar list" where
  "disk_writes ws m = fold (\<lambda>(b, d) m. m(b := d)) ws m"

lemma disk_writes_simps [simp]:
  "disk_writes [] m = m"
  "disk_writes ((b, d) # ws) m = disk_writes ws (m(b := d))"
  "disk_writes (ws @ vs) m = disk_writes vs (disk_writes ws m)"
  by (simp_all add: disk_writes_def)

lemma disk_writes_other: "b \<notin> fst ` set ws \<Longrightarrow> disk_writes ws m b = m b"
  by (induction ws arbitrary: m) auto

lemma disk_writes_map:
  assumes "distinct (map f is)" "i \<in> set is"
  shows "disk_writes (map (\<lambda>i. (f i, g i)) is) m (f i) = g i"
  using assms
proof (induction "is" arbitrary: m)
  case (Cons j "is")
  show ?case
  proof (cases "i = j")
    case True
    then have "f i \<notin> fst ` set (map (\<lambda>i. (f i, g i)) is)" using Cons.prems by (auto simp: image_iff)
    then show ?thesis using True by (simp add: disk_writes_other)
  next
    case False
    then show ?thesis using Cons by simp
  qed
qed simp

text \<open>The view after writing the blocks \<open>ws\<close> through the cache.\<close>

definition logged :: "bview \<Rightarrow> (nat \<times> uchar list) list \<Rightarrow> bview" where
  "logged v ws = v\<lparr>v_blk := disk_writes ws (v_blk v), v_ds := v_ds v - fst ` set ws,
     v_dsk := disk_writes ws (v_dsk v), v_writes := v_writes v @ ws\<rparr>"

lemma logged_simps [simp]:
  "logged v [] = v" "logged (logged v ws) vs = logged v (ws @ vs)"
  "v_blk (logged v ws) = disk_writes ws (v_blk v)" "v_hs (logged v ws) = v_hs v" "v_ds (logged v ws) = v_ds v - fst ` set ws"
  "v_dsk (logged v ws) = disk_writes ws (v_dsk v)" "v_writes (logged v ws) = v_writes v @ ws" "v_size (logged v ws) = v_size v"
  by (simp_all add: logged_def image_Un Diff_Un Diff_eq Int_assoc Compl_Un)

lemma logged_one: "logged v [(b, d)] = v\<lparr>v_blk := (v_blk v)(b := d), v_ds := v_ds v - {b},
    v_dsk := (v_dsk v)(b := d), v_writes := v_writes v @ [(b, d)]\<rparr>"
  by (simp add: logged_def)

section \<open>The layout of the log\<close>

definition log_geom :: "'a klog_scheme \<Rightarrow> bool" where
  "log_geom s \<longleftrightarrow> bio_inv s \<and> ldev s = 1 \<and> 1 \<le> lsize s \<and> lsize s \<le> LOGSIZE \<and> lstart s + lsize s \<le> disksize s \<and>
     disksize s < 4294967296"

definition in_log :: "'a klog_scheme \<Rightarrow> nat \<Rightarrow> bool" where
  "in_log s b \<longleftrightarrow> lstart s \<le> b \<and> b < lstart s + lsize s"

definition heads_ok :: "'a klog_scheme \<Rightarrow> nat list \<Rightarrow> bool" where
  "heads_ok s bs \<longleftrightarrow> distinct bs \<and> length bs < lsize s \<and> (\<forall>b \<in> set bs. b < disksize s \<and> \<not> in_log s b)"

lemma bframe_log:
  assumes "bframe s s'"
  shows "lstart s' = lstart s" "lsize s' = lsize s" "ldev s' = ldev s" "lh s' = lh s" "outstanding s' = outstanding s"
    "committing s' = committing s" "in_log s' = in_log s"
  using assms unfolding bframe_def in_log_def by auto

lemma log_geom_frame:
  assumes "log_geom s" "bframe s s'" "bio_inv s'"
  shows "log_geom s'"
  using assms(1,3) bframe_log[OF assms(2)] bframe_sel[OF assms(2)] by (simp add: log_geom_def)

lemma heads_ok_frame: "bframe s s' \<Longrightarrow> heads_ok s' bs = heads_ok s bs"
  using bframe_log[of s s'] bframe_sel[of s s'] by (simp add: heads_ok_def)

text \<open>The fields of the log are no part of the buffer cache.\<close>

lemma bio_upd_lh [simp]:
  "bio_inv (s\<lparr>lh := l\<rparr>) = bio_inv s" "blk (s\<lparr>lh := l\<rparr>) = blk s" "hs (s\<lparr>lh := l\<rparr>) = hs s" "ds (s\<lparr>lh := l\<rparr>) = ds s" "holds (s\<lparr>lh := l\<rparr>) = holds s"
  "bview_of (s\<lparr>lh := l\<rparr>) = bview_of s" "log_geom (s\<lparr>lh := l\<rparr>) = log_geom s" "in_log (s\<lparr>lh := l\<rparr>) = in_log s" "heads_ok (s\<lparr>lh := l\<rparr>) = heads_ok s"
  by (simp_all add: bio_inv_def blk_def hs_def ds_def holds_def bview_of_def mypid_def log_geom_def in_log_def heads_ok_def fun_eq_iff
      cong: option.case_cong)

lemma bio_upd_outstanding [simp]:
  "bio_inv (s\<lparr>outstanding := n\<rparr>) = bio_inv s" "blk (s\<lparr>outstanding := n\<rparr>) = blk s" "hs (s\<lparr>outstanding := n\<rparr>) = hs s" "ds (s\<lparr>outstanding := n\<rparr>) = ds s" "holds (s\<lparr>outstanding := n\<rparr>) = holds s"
  "bview_of (s\<lparr>outstanding := n\<rparr>) = bview_of s" "log_geom (s\<lparr>outstanding := n\<rparr>) = log_geom s" "in_log (s\<lparr>outstanding := n\<rparr>) = in_log s" "heads_ok (s\<lparr>outstanding := n\<rparr>) = heads_ok s"
  by (simp_all add: bio_inv_def blk_def hs_def ds_def holds_def bview_of_def mypid_def log_geom_def in_log_def heads_ok_def fun_eq_iff
      cong: option.case_cong)

lemma bio_upd_committing [simp]:
  "bio_inv (s\<lparr>committing := c\<rparr>) = bio_inv s" "blk (s\<lparr>committing := c\<rparr>) = blk s" "hs (s\<lparr>committing := c\<rparr>) = hs s" "ds (s\<lparr>committing := c\<rparr>) = ds s" "holds (s\<lparr>committing := c\<rparr>) = holds s"
  "bview_of (s\<lparr>committing := c\<rparr>) = bview_of s" "log_geom (s\<lparr>committing := c\<rparr>) = log_geom s" "in_log (s\<lparr>committing := c\<rparr>) = in_log s" "heads_ok (s\<lparr>committing := c\<rparr>) = heads_ok s"
  by (simp_all add: bio_inv_def blk_def hs_def ds_def holds_def bview_of_def mypid_def log_geom_def in_log_def heads_ok_def fun_eq_iff
      cong: option.case_cong)

lemma bframe_lh:
  assumes "bframe (s\<lparr>lh := l\<rparr>) t"
  shows "bframe s (t\<lparr>lh := lh s\<rparr>)"
proof -
  obtain bf md pt lr tr where t: "t = s\<lparr>lh := l, bufs := bf, memdisk := md, ptable := pt, lru := lr, dwrites := tr\<rparr>" "woken (ptable s) pt"
    using assms unfolding bframe_def by auto
  have "t\<lparr>lh := lh s\<rparr> = s\<lparr>bufs := bf, memdisk := md, ptable := pt, lru := lr, dwrites := tr\<rparr>" unfolding t(1) by simp
  with t(2) show ?thesis unfolding bframe_def by blast
qed

subsection \<open>Writing the header\<close>

lemma write_head_run:
  assumes "log_geom s" "hs s = {}" "card (ds s) < NBUF" "heads_ok s (lh s)"
  shows "\<exists>s'. write_head s = Ok () s' \<and> bio_inv s' \<and> bframe s s' \<and>
    bview_of s' = logged (bview_of s) [(lstart s, enc_head (blk s (lstart s)) (lh s))]"
proof -
  have g: "bio_inv s" "ldev s = 1" "lstart s < disksize s" "length (lh s) \<le> LOGSIZE"
    using assms(1,4) by (auto simp: log_geom_def heads_ok_def)
  have len: "length (enc_head (blk s (lstart s)) (lh s)) = BSIZE" using g by simp
  have "\<exists>s'. bnd (bread 1 (lstart s)) (\<lambda>i. bnd (get_data i) (\<lambda>d. seq (set_data i (enc_head d (lh s))) (seq (bwrite i) (brelse i)))) s = Ok () s' \<and>
     bio_inv s' \<and> bframe s s' \<and> (let d = enc_head (v_blk (bview_of s) (lstart s)) (lh s) in
     bview_of s' = (bview_of s)\<lparr>v_blk := (v_blk (bview_of s))(lstart s := d), v_ds := v_ds (bview_of s) - {lstart s},
       v_dsk := (v_dsk (bview_of s))(lstart s := d), v_writes := v_writes (bview_of s) @ [(lstart s, d)]\<rparr>)"
    by (rule bc.rewrite_block) (use g assms len in simp_all)
  then show ?thesis using g(2) by (simp add: write_head_def run_simps logged_one Let_def)
qed

subsection \<open>Copying between the log and the home locations\<close>

definition slot_of :: "'a klog_scheme \<Rightarrow> nat \<Rightarrow> nat" where
  "slot_of s i = lstart s + i + 1"

definition log_writes :: "'a klog_scheme \<Rightarrow> nat list \<Rightarrow> (nat \<times> uchar list) list" where
  "log_writes s is = map (\<lambda>i. (slot_of s i, blk s (lh s ! i))) is"

definition home_writes :: "'a klog_scheme \<Rightarrow> nat list \<Rightarrow> (nat \<times> uchar list) list" where
  "home_writes s is = map (\<lambda>i. (lh s ! i, blk s (slot_of s i))) is"

lemma slot_in_log:
  assumes "heads_ok s (lh s)" "i < length (lh s)"
  shows "in_log s (slot_of s i)" "\<not> in_log s (lh s ! i)" "lh s ! i < disksize s"
  using assms by (auto simp: heads_ok_def in_log_def slot_of_def)

lemma slot_not_home:
  assumes "heads_ok s (lh s)" "i < length (lh s)" "j < length (lh s)"
  shows "lh s ! j \<noteq> slot_of s i" "slot_of s i \<noteq> lh s ! j"
  using slot_in_log(1)[OF assms(1,2)] slot_in_log(2)[OF assms(1,3)] by metis+

lemma in_log_size: "log_geom s \<Longrightarrow> in_log s b \<Longrightarrow> b < disksize s"
  by (auto simp: log_geom_def in_log_def)

lemma slot_of_frame: "bframe s s' \<Longrightarrow> slot_of s' = slot_of s"
  using bframe_log(1)[of s s'] by (simp add: slot_of_def fun_eq_iff)

lemma write_log_loop:
  assumes "log_geom s" "hs s = {}" "card (ds s) < NBUF" "heads_ok s (lh s)" "set (lh s) \<subseteq> ds s"
    "set is \<subseteq> {..<length (lh s)}"
  shows "\<exists>s'. foreach is log_one s = Ok () s' \<and>
     bio_inv s' \<and> bframe s s' \<and> bview_of s' = logged (bview_of s) (log_writes s is)"
  using assms
proof (induction "is" arbitrary: s)
  case Nil
  then show ?case by (simp add: log_writes_def ret_def log_geom_def)
next
  case (Cons i "is")
  have i: "i < length (lh s)" using Cons.prems(6) by simp
  note sl = slot_in_log[OF Cons.prems(4) i]
  have g: "bio_inv s" "ldev s = 1" using Cons.prems(1) by (simp_all add: log_geom_def)
  have src: "lh s ! i \<in> ds s" using Cons.prems(5) i by auto
  have "slot_of s i < disksize s" using in_log_size[OF Cons.prems(1) sl(1)] .
  moreover have "lh s ! i \<noteq> slot_of s i" using slot_not_home[OF Cons.prems(4) i i] by blast
  ultimately obtain s1 where s1: "bnd (bread 1 (slot_of s i)) (\<lambda>d. bnd (bread 1 (lh s ! i)) (\<lambda>l. bnd (get_data l) (\<lambda>x.
       seq (set_data d x) (seq (bwrite d) (seq (brelse l) (brelse d)))))) s = Ok () s1" "bio_inv s1" "bframe s s1"
    "bview_of s1 = logged (bview_of s) [(slot_of s i, blk s (lh s ! i))]"
    using bc.copy_block(2)[OF g(1), of "lh s ! i" "slot_of s i"] sl(3) Cons.prems(2,3) src by (auto simp: logged_one)
  have one: "log_one i s = Ok () s1" using s1(1) g(2) unfolding log_one_def bnd_runs(2) slot_of_def by simp
  note f = bframe_log[OF s1(3)] and so = slot_of_frame[OF s1(3)]
  have v: "blk s1 = (blk s)(slot_of s i := blk s (lh s ! i))" "hs s1 = hs s" "ds s1 = ds s - {slot_of s i}"
    using arg_cong[OF s1(4), of v_blk] arg_cong[OF s1(4), of v_hs] arg_cong[OF s1(4), of v_ds] by simp_all
  have "finite (ds s)" by (simp add: ds_def)
  then have c: "card (ds s1) < NBUF" using v(3) Cons.prems(3) card_mono[of "ds s" "ds s1"] by auto
  have "slot_of s i \<notin> set (lh s)" using slot_not_home[OF Cons.prems(4) i] by (metis in_set_conv_nth)
  then have sub: "set (lh s1) \<subseteq> ds s1" using Cons.prems(5) v(3) f(4) by auto
  have lw: "log_writes s1 is = log_writes s is"
    unfolding log_writes_def so f(4) v(1)
    using Cons.prems(6) slot_not_home(1)[OF Cons.prems(4) i] by (intro map_cong refl) auto
  obtain s2 where s2: "foreach is log_one s1 = Ok () s2"
     "bio_inv s2" "bframe s1 s2" "bview_of s2 = logged (bview_of s1) (log_writes s1 is)"
    using Cons.IH[OF log_geom_frame[OF Cons.prems(1) s1(3,2)] _ c _ sub] v(2) Cons.prems(2,4,6) heads_ok_frame[OF s1(3)] f(4) by auto
  have "bview_of s2 = logged (bview_of s) (log_writes s (i # is))"
    unfolding s2(4) lw s1(4) logged_simps(2) by (simp add: log_writes_def)
  then show ?case
    using s2 bframe_trans[OF s1(3) s2(3)] by (simp add: bnd_step[where m = "log_one i" and s = s, OF one])
qed

lemma install_loop:
  assumes "log_geom s" "hs s = {}" "card (ds s) < NBUF" "heads_ok s (lh s)" "(\<forall>i \<in> set is. lh s ! i \<in> ds s) \<or> Suc (card (ds s)) < NBUF"
    "set is \<subseteq> {..<length (lh s)}" "distinct is"
  shows "\<exists>s'. foreach is install_one s = Ok () s' \<and>
     bio_inv s' \<and> bframe s s' \<and> bview_of s' = logged (bview_of s) (home_writes s is)"
  using assms
proof (induction "is" arbitrary: s)
  case Nil
  then show ?case by (simp add: home_writes_def ret_def log_geom_def)
next
  case (Cons i "is")
  have i: "i < length (lh s)" using Cons.prems(6) by simp
  note sl = slot_in_log[OF Cons.prems(4) i]
  have g: "bio_inv s" "ldev s = 1" using Cons.prems(1) by (simp_all add: log_geom_def)
  have "slot_of s i < disksize s" using in_log_size[OF Cons.prems(1) sl(1)] .
  moreover have "slot_of s i \<noteq> lh s ! i" using slot_not_home[OF Cons.prems(4) i i] by blast
  ultimately obtain s1 where s1: "bnd (bread 1 (slot_of s i)) (\<lambda>l. bnd (bread 1 (lh s ! i)) (\<lambda>d. bnd (get_data l) (\<lambda>x.
       seq (set_data d x) (seq (bwrite d) (seq (brelse l) (brelse d)))))) s = Ok () s1" "bio_inv s1" "bframe s s1"
    "bview_of s1 = logged (bview_of s) [(lh s ! i, blk s (slot_of s i))]"
    using bc.copy_block(1)[OF g(1), of "slot_of s i" "lh s ! i"] sl(3) Cons.prems(2,3,5) by (auto simp: logged_one)
  have one: "install_one i s = Ok () s1" using s1(1) g(2) unfolding install_one_def bnd_runs(2) slot_of_def by simp
  note f = bframe_log[OF s1(3)] and so = slot_of_frame[OF s1(3)]
  have v: "blk s1 = (blk s)(lh s ! i := blk s (slot_of s i))" "hs s1 = hs s" "ds s1 = ds s - {lh s ! i}"
    using arg_cong[OF s1(4), of v_blk] arg_cong[OF s1(4), of v_hs] arg_cong[OF s1(4), of v_ds] by simp_all
  have fin: "finite (ds s)" by (simp add: ds_def)
  then have c: "card (ds s1) \<le> card (ds s)" using v(3) card_mono[of "ds s" "ds s1"] by auto
  have dist: "j \<in> set is \<Longrightarrow> lh s ! j \<noteq> lh s ! i" for j
    using Cons.prems(4,6,7) i by (auto simp: heads_ok_def nth_eq_iff_index_eq)
  then have sub: "(\<forall>j \<in> set is. lh s1 ! j \<in> ds s1) \<or> Suc (card (ds s1)) < NBUF"
    using Cons.prems(5) v(3) f(4) c by auto
  have hw: "home_writes s1 is = home_writes s is"
    unfolding home_writes_def so f(4) v(1)
    using Cons.prems(6) i slot_not_home(2)[OF Cons.prems(4)] by (intro map_cong refl) auto
  obtain s2 where s2: "foreach is install_one s1 = Ok () s2"
     "bio_inv s2" "bframe s1 s2" "bview_of s2 = logged (bview_of s1) (home_writes s1 is)"
    using Cons.IH[OF log_geom_frame[OF Cons.prems(1) s1(3,2)] _ _ _ sub] v(2) Cons.prems(2,3,4,6,7) heads_ok_frame[OF s1(3)] f(4) c by auto
  have "bview_of s2 = logged (bview_of s) (home_writes s (i # is))"
    unfolding s2(4) hw s1(4) logged_simps(2) by (simp add: home_writes_def)
  then show ?case
    using s2 bframe_trans[OF s1(3) s2(3)] by (simp add: bnd_step[where m = "install_one i" and s = s, OF one])
qed

lemma write_log_run:
  assumes "log_geom s" "hs s = {}" "card (ds s) < NBUF" "heads_ok s (lh s)" "set (lh s) \<subseteq> ds s"
  shows "\<exists>s'. write_log s = Ok () s' \<and> bio_inv s' \<and> bframe s s' \<and>
    bview_of s' = logged (bview_of s) (log_writes s [0..<length (lh s)])"
  using write_log_loop[OF assms, of "[0..<length (lh s)]"] by (simp add: write_log_def run_simps atLeast0LessThan)

lemma install_trans_run:
  assumes "log_geom s" "hs s = {}" "card (ds s) < NBUF" "heads_ok s (lh s)" "set (lh s) \<subseteq> ds s \<or> Suc (card (ds s)) < NBUF"
  shows "\<exists>s'. install_trans s = Ok () s' \<and> bio_inv s' \<and> bframe s s' \<and>
    bview_of s' = logged (bview_of s) (home_writes s [0..<length (lh s)])"
proof -
  have "(\<forall>i \<in> set [0..<length (lh s)]. lh s ! i \<in> ds s) \<or> Suc (card (ds s)) < NBUF" using assms(5) by auto
  then show ?thesis
    using install_loop[OF assms(1-4), of "[0..<length (lh s)]"] by (simp add: install_trans_def run_simps atLeast0LessThan)
qed

section \<open>Commit\<close>

text \<open>The writes of a commit, in order.\<close>

definition commit_writes :: "'a klog_scheme \<Rightarrow> (nat \<times> uchar list) list" where
  "commit_writes s = (let n = length (lh s); h = enc_head (blk s (lstart s)) (lh s) in
     map (\<lambda>i. (slot_of s i, blk s (lh s ! i))) [0..<n] @ [(lstart s, h)] @
     map (\<lambda>i. (lh s ! i, blk s (lh s ! i))) [0..<n] @ [(lstart s, enc_head h [])])"

text \<open>A state in the middle of no operation, as \<open>end_op\<close> finds it before it commits.\<close>

definition log_inv :: "'a klog_scheme \<Rightarrow> bool" where
  "log_inv s \<longleftrightarrow> log_geom s \<and> heads_ok s (lh s) \<and> ds s = set (lh s) \<and>
     dec_head (memdisk s (lstart s)) = []"

lemma log_inv_card: "log_inv s \<Longrightarrow> card (ds s) < NBUF"
  using distinct_card[of "lh s"] by (auto simp: log_inv_def heads_ok_def log_geom_def)

lemma logged_view:
  assumes "bview_of s' = logged (bview_of s) ws"
  shows "blk s' = disk_writes ws (blk s)" "hs s' = hs s" "ds s' = ds s - fst ` set ws" "memdisk s' = disk_writes ws (memdisk s)"
    "dwrites s' = dwrites s @ ws"
  using arg_cong[OF assms, of v_blk] arg_cong[OF assms, of v_hs] arg_cong[OF assms, of v_ds] arg_cong[OF assms, of v_dsk]
    arg_cong[OF assms, of v_writes] by simp_all

lemma heads_start:
  assumes "log_geom s" "heads_ok s (lh s)"
  shows "lstart s \<notin> set (lh s)" "lstart s \<noteq> slot_of s i"
  using assms by (auto simp: heads_ok_def in_log_def log_geom_def slot_of_def)

lemma commit_run:
  assumes inv: "log_inv s" and h: "hs s = {}" and n: "lh s \<noteq> []"
  shows "\<exists>s'. commit s = Ok () s' \<and> log_inv s' \<and> hs s' = {} \<and> lh s' = [] \<and> (\<exists>t. bframe s t \<and> s' = t\<lparr>lh := []\<rparr>) \<and>
    bview_of s' = logged (bview_of s) (commit_writes s)"
proof -
  let ?n = "length (lh s)"
  have g: "log_geom s" "heads_ok s (lh s)" "ds s = set (lh s)" using inv by (simp_all add: log_inv_def)
  note c = log_inv_card[OF inv]
  note st = heads_start[OF g(1,2)]
  obtain s1 where s1: "write_log s = Ok () s1" "bio_inv s1" "bframe s s1" "bview_of s1 = logged (bview_of s) (log_writes s [0..<?n])"
    using write_log_run[OF g(1) h c g(2)] g(3) by auto
  note f1 = bframe_log[OF s1(3)] and v1 = logged_view[OF s1(4)]
  have g1: "log_geom s1" "heads_ok s1 (lh s1)" using log_geom_frame[OF g(1) s1(3,2)] g(2) heads_ok_frame[OF s1(3)] f1(4) by auto
  have "fst ` set (log_writes s [0..<?n]) \<inter> set (lh s) = {}"
    using slot_not_home[OF g(2)] by (auto simp: log_writes_def in_set_conv_nth)
  then have d1: "ds s1 = set (lh s)" using v1(3) g(3) by auto
  have b1: "blk s1 (lstart s) = blk s (lstart s)" unfolding v1(1)
    by (intro disk_writes_other) (auto simp: log_writes_def st(2))
  obtain s2 where s2: "write_head s1 = Ok () s2" "bio_inv s2" "bframe s1 s2"
    "bview_of s2 = logged (bview_of s1) [(lstart s, enc_head (blk s (lstart s)) (lh s))]"
    using write_head_run[OF g1(1) _ _ g1(2)] v1(2) h d1 c g(3) f1 b1 by auto
  note f2 = bframe_log[OF s2(3)] and v2 = logged_view[OF s2(4)]
  have g2: "log_geom s2" "heads_ok s2 (lh s2)" using log_geom_frame[OF g1(1) s2(3,2)] g1(2) heads_ok_frame[OF s2(3)] f2(4) by auto
  have d2: "ds s2 = set (lh s)" using v2(3) d1 st(1) by auto
  have slots: "blk s2 (slot_of s i) = blk s (lh s ! i)" if "i < ?n" for i
  proof -
    have "blk s2 (slot_of s i) = blk s1 (slot_of s i)" using v2(1) st(2)[of i] by simp
    also have "\<dots> = blk s (lh s ! i)" unfolding v1(1) log_writes_def
      using that by (intro disk_writes_map) (auto simp: distinct_map inj_on_def slot_of_def)
    finally show ?thesis .
  qed
  obtain s3 where s3: "install_trans s2 = Ok () s3" "bio_inv s3" "bframe s2 s3" "bview_of s3 = logged (bview_of s2) (home_writes s2 [0..<?n])"
    using install_trans_run[OF g2(1) _ _ g2(2)] v2(2) v1(2) h d2 c g(3) f1 f2 by auto
  have hw: "home_writes s2 [0..<?n] = map (\<lambda>i. (lh s ! i, blk s (lh s ! i))) [0..<?n]"
    unfolding home_writes_def using f1(4) f2(4) slot_of_frame[OF s1(3)] slot_of_frame[OF s2(3)] slots by simp
  note f3 = bframe_log[OF s3(3)] and v3 = logged_view[OF s3(4)]
  have g3: "log_geom s3" using log_geom_frame[OF g2(1) s3(3,2)] .
  let ?s3 = "s3\<lparr>lh := []\<rparr>"
  have upd: "bio_inv ?s3 = bio_inv s3" "bview_of ?s3 = bview_of s3" "hs ?s3 = hs s3" "ds ?s3 = ds s3" "blk ?s3 = blk s3"
    by simp_all
  have "fst ` set (home_writes s2 [0..<?n]) = set (lh s)"
    by (simp add: hw image_image image_nth)
  then have d3: "ds s3 = {}" using v3(3) d2 by auto
  have "log_geom ?s3" "heads_ok ?s3 (lh ?s3)" using g3 upd(1) by (simp_all add: log_geom_def heads_ok_def)
  then obtain s4 where s4: "write_head ?s3 = Ok () s4" "bio_inv s4" "bframe ?s3 s4"
    "bview_of s4 = logged (bview_of s3) [(lstart s, enc_head (blk s3 (lstart s)) [])]"
    using write_head_run[of ?s3] upd v3(2) v2(2) v1(2) h d3 f1 f2 f3 by auto
  have "blk s3 (lstart s) = enc_head (blk s (lstart s)) (lh s)"
    unfolding v3(1) using st(1) v2(1) by (subst disk_writes_other) (auto simp: hw)
  then have view: "bview_of s4 = logged (bview_of s) (commit_writes s)"
    unfolding s4(4) s3(4) s2(4) s1(4) hw by (simp add: commit_writes_def Let_def log_writes_def)
  have len: "length (blk s (lstart s)) = BSIZE" "length (lh s) \<le> LOGSIZE" using g(1,2) by (auto simp: log_geom_def heads_ok_def)
  have "memdisk s4 (lstart s4) = enc_head (enc_head (blk s (lstart s)) (lh s)) []"
    using logged_view(4)[OF view] f1(1) f2(1) f3(1) bframe_log(1)[OF s4(3)] by (simp add: commit_writes_def Let_def)
  then have "dec_head (memdisk s4 (lstart s4)) = []" using len by (simp add: dec_enc_head)
  then have "log_inv s4" using log_geom_frame[OF \<open>log_geom ?s3\<close> s4(3,2)] bframe_log(4)[OF s4(3)] heads_ok_frame[OF s4(3)] \<open>heads_ok ?s3 (lh ?s3)\<close>
      logged_view(3)[OF s4(4)] d3 by (simp add: log_inv_def)
  moreover have "lh s4 = []" using bframe_log(4)[OF s4(3)] by simp
  moreover have "hs s4 = {}" using logged_view(2)[OF view] h by simp
  moreover have "\<exists>t. bframe s t \<and> s4 = t\<lparr>lh := []\<rparr>"
  proof (intro exI conjI)
    show "s4 = (s4\<lparr>lh := lh s\<rparr>)\<lparr>lh := []\<rparr>" using \<open>lh s4 = []\<close> by simp
    have "bframe s s3" using s1(3) s2(3) s3(3) bframe_trans by blast
    moreover have "bframe s3 (s4\<lparr>lh := lh s\<rparr>)"
      using bframe_lh[OF s4(3)] f1(4) f2(4) f3(4) by simp
    ultimately show "bframe s (s4\<lparr>lh := lh s\<rparr>)" by (rule bframe_trans)
  qed
  moreover have "commit s = Ok () s4"
    using n s1(1) s2(1) s3(1) s4(1) by (simp add: commit_def run_simps bnd_step)
  ultimately show ?thesis using view by blast
qed

section \<open>Recovery\<close>

text \<open>The writes of a recovery from the disk \<open>md\<close> with the log at \<open>st\<close>.\<close>

definition recovery_writes :: "nat \<Rightarrow> (nat \<Rightarrow> uchar list) \<Rightarrow> (nat \<times> uchar list) list" where
  "recovery_writes st md = (let bs = dec_head (md st) in
     map (\<lambda>i. (bs ! i, md (st + i + 1))) [0..<length bs] @ [(st, enc_head (md st) [])])"

definition recovered :: "nat \<Rightarrow> (nat \<Rightarrow> uchar list) \<Rightarrow> nat \<Rightarrow> uchar list" where
  "recovered st md = disk_writes (recovery_writes st md) md"

lemma read_head_run:
  assumes "log_geom s" "hs s = {}" "ds s = {}"
  shows "\<exists>s'. read_head s = Ok () (s'\<lparr>lh := dec_head (memdisk s (lstart s))\<rparr>) \<and> bio_inv s' \<and> bframe s s' \<and> bview_of s' = bview_of s"
proof -
  have g: "bio_inv s" "ldev s = 1" "lstart s < disksize s" using assms(1) by (auto simp: log_geom_def)
  obtain i s1 where s1: "bread 1 (lstart s) s = Ok i s1" "bio_inv s1" "holds s1 i (lstart s)" "bframe s s1"
    "bview_of s1 = (bview_of s)\<lparr>v_hs := insert (lstart s) (v_hs (bview_of s))\<rparr>"
    using bc.bread[OF g(1), of "lstart s"] g assms by auto
  have m: "blk s (lstart s) = memdisk s (lstart s)" using bc.clean[OF g(1)] assms by simp
  have v: "blk s1 = blk s" "hs s1 = {lstart s}" "ds s1 = ds s" "memdisk s1 = memdisk s"
    using arg_cong[OF s1(5), of v_blk] arg_cong[OF s1(5), of v_hs] arg_cong[OF s1(5), of v_ds] arg_cong[OF s1(5), of v_dsk] assms(2) by simp_all
  have gd: "get_data i s1 = Ok (memdisk s (lstart s)) s1" using bc.getd[OF s1(2,3)] v m by simp
  let ?l = "dec_head (memdisk s (lstart s))"
  let ?s1 = "s1\<lparr>lh := ?l\<rparr>"
  have "bio_inv ?s1" "holds ?s1 i (lstart s)" "v_blk (bview_of ?s1) (lstart s) = v_dsk (bview_of ?s1) (lstart s)"
    using s1 v m by simp_all
  then obtain s2 where s2: "brelse i ?s1 = Ok () s2" "bio_inv s2" "bframe ?s1 s2" "bview_of s2 = (bview_of ?s1)\<lparr>v_hs := v_hs (bview_of ?s1) - {lstart s}\<rparr>"
    using bc.brelse[of ?s1 i "lstart s"] by blast
  let ?s2 = "s2\<lparr>lh := lh s\<rparr>"
  have "?s2\<lparr>lh := ?l\<rparr> = s2" using bframe_log(4)[OF s2(3)] by simp
  moreover have "bview_of ?s2 = bview_of s" using s2(4) s1(5) assms(2) by simp
  moreover have "bframe s ?s2"
  proof (rule bframe_trans[OF s1(4)])
    show "bframe s1 ?s2" using bframe_lh[OF s2(3)] bframe_log(4)[OF s1(4)] by simp
  qed
  moreover have "read_head s = Ok () s2"
    using g(2) s1(1) gd s2(1) by (simp add: read_head_def run_simps bnd_step get_data_def)
  ultimately show ?thesis using s2(2) by (intro exI[of _ ?s2]) simp
qed

lemma recover_run:
  assumes g: "log_geom s" and h: "hs s = {}" "ds s = {}" and hd: "heads_ok s (dec_head (memdisk s (lstart s)))"
  shows "\<exists>s'. recover_from_log s = Ok () s' \<and> log_inv s' \<and> hs s' = {} \<and> lh s' = [] \<and> (\<exists>t. bframe s t \<and> s' = t\<lparr>lh := []\<rparr>) \<and>
    memdisk s' = recovered (lstart s) (memdisk s) \<and> dwrites s' = dwrites s @ recovery_writes (lstart s) (memdisk s)"
proof -
  let ?l = "dec_head (memdisk s (lstart s))" and ?n = "length (dec_head (memdisk s (lstart s)))"
  obtain s1 where s1: "read_head s = Ok () (s1\<lparr>lh := ?l\<rparr>)" "bio_inv s1" "bframe s s1" "bview_of s1 = bview_of s"
    using read_head_run[OF g h] by blast
  let ?s1 = "s1\<lparr>lh := ?l\<rparr>"
  note f1 = bframe_log[OF s1(3)]
  have inv: "bio_inv s" using g by (simp add: log_geom_def)
  have v1: "blk s1 = blk s" "hs s1 = {}" "ds s1 = {}" "memdisk s1 = memdisk s"
    using arg_cong[OF s1(4), of v_blk] arg_cong[OF s1(4), of v_hs] arg_cong[OF s1(4), of v_ds] arg_cong[OF s1(4), of v_dsk] h by simp_all
  have m: "blk s b = memdisk s b" for b using bc.clean[OF inv] h by simp
  have g1: "log_geom ?s1" "heads_ok ?s1 (lh ?s1)"
    using log_geom_frame[OF g s1(3,2)] hd heads_ok_frame[OF s1(3)] by simp_all
  obtain s2 where s2: "install_trans ?s1 = Ok () s2" "bio_inv s2" "bframe ?s1 s2" "bview_of s2 = logged (bview_of ?s1) (home_writes ?s1 [0..<?n])"
    using install_trans_run[OF g1(1) _ _ g1(2)] v1 by auto
  have hw: "home_writes ?s1 [0..<?n] = map (\<lambda>i. (?l ! i, memdisk s (lstart s + i + 1))) [0..<?n]"
    using f1(1) by (simp add: home_writes_def slot_of_def v1 m)
  note f2 = bframe_log[OF s2(3)] and v2 = logged_view[OF s2(4)]
  let ?s2 = "s2\<lparr>lh := []\<rparr>"
  have g2: "log_geom ?s2" "heads_ok ?s2 (lh ?s2)" using log_geom_frame[OF g1(1) s2(3,2)] by (simp_all add: log_geom_def heads_ok_def)
  obtain s3 where s3: "write_head ?s2 = Ok () s3" "bio_inv s3" "bframe ?s2 s3"
    "bview_of s3 = logged (bview_of ?s2) [(lstart s, enc_head (blk s2 (lstart s)) [])]"
    using write_head_run[OF g2(1) _ _ g2(2)] v2(2,3) v1 f1(1) f2(1) by auto
  have "lstart s \<notin> fst ` set (home_writes ?s1 [0..<?n])"
    using heads_start(1)[OF g1] f1(1) by (simp add: hw image_image image_nth)
  then have b: "blk s2 (lstart s) = memdisk s (lstart s)" unfolding v2(1) by (simp add: disk_writes_other v1 m)
  have "bview_of s3 = logged (bview_of s) (recovery_writes (lstart s) (memdisk s))"
    unfolding s3(4) b bio_upd_lh s2(4) s1(4) hw by (simp add: recovery_writes_def Let_def)
  note v3 = logged_view[OF this]
  have len: "length (memdisk s (lstart s)) = BSIZE" using bio_invD(3)[OF inv] .
  have "memdisk s3 (lstart s3) = enc_head (memdisk s (lstart s)) []"
    using v3(4) f1(1) f2(1) bframe_log(1)[OF s3(3)] by (simp add: recovery_writes_def Let_def)
  then have "dec_head (memdisk s3 (lstart s3)) = []" using len by (simp add: dec_enc_head)
  then have "log_inv s3" using log_geom_frame[OF g2(1) s3(3,2)] bframe_log(4)[OF s3(3)] heads_ok_frame[OF s3(3)] g2(2) v3(3) h
    by (simp add: log_inv_def)
  moreover have "lh s3 = []" using bframe_log(4)[OF s3(3)] by simp
  moreover have "\<exists>t. bframe s t \<and> s3 = t\<lparr>lh := []\<rparr>"
  proof (intro exI conjI)
    show "s3 = (s3\<lparr>lh := lh s\<rparr>)\<lparr>lh := []\<rparr>" using \<open>lh s3 = []\<close> by simp
    have "bframe s1 (s2\<lparr>lh := lh s\<rparr>)" using bframe_lh[OF s2(3)] f1(4) by simp
    moreover have "bframe (s2\<lparr>lh := lh s\<rparr>) (s3\<lparr>lh := lh s\<rparr>)" using bframe_lh[of "[]" "s2\<lparr>lh := lh s\<rparr>" s3] s3(3) by simp
    ultimately show "bframe s (s3\<lparr>lh := lh s\<rparr>)" using s1(3) bframe_trans by blast
  qed
  moreover have "recover_from_log s = Ok () s3"
    using s1(1) s2(1) s3(1) by (simp add: recover_from_log_def run_simps bnd_step)
  ultimately show ?thesis using v3 h by (intro exI[of _ s3]) (simp add: recovered_def)
qed

section \<open>Crashes\<close>

text \<open>
  A crash loses the buffers and keeps the disk as the writes done so far left it; a machine
  may crash again while it recovers. \<open>crash_disk st md md'\<close>: interrupted recoveries of the log
  at \<open>st\<close> have turned \<open>md\<close> into \<open>md'\<close>.
\<close>

inductive crash_disk :: "nat \<Rightarrow> (nat \<Rightarrow> uchar list) \<Rightarrow> (nat \<Rightarrow> uchar list) \<Rightarrow> bool" for st md where
  no_crash: "crash_disk st md md"
| crash: "crash_disk st md md' \<Longrightarrow> crash_disk st md (disk_writes (take j (recovery_writes st md')) md')"

text \<open>The kernel after a reboot, before it runs \<open>initlog\<close>: nothing is cached.\<close>

definition rebooted :: "'a klog_scheme \<Rightarrow> 'a klog_scheme \<Rightarrow> bool" where
  "rebooted s r \<longleftrightarrow> bio_inv r \<and> (\<forall>i < NBUF. \<not> b_valid (bufs r ! i)) \<and> ldev r = ldev s \<and> lstart r = lstart s \<and>
     lsize r = lsize s \<and> disksize r = disksize s"

lemma rebooted_clean:
  assumes "rebooted s r" "log_geom s"
  shows "log_geom r" "hs r = {}" "ds r = {}" "in_log r = in_log s" "heads_ok r = heads_ok s"
proof -
  have inv: "bio_inv r" and nv: "\<And>i. i < NBUF \<Longrightarrow> \<not> b_valid (bufs r ! i)" using assms(1) by (auto simp: rebooted_def)
  show "log_geom r" "in_log r = in_log s" "heads_ok r = heads_ok s"
    using assms by (simp_all add: rebooted_def log_geom_def in_log_def heads_ok_def fun_eq_iff)
  show "hs r = {}" using held_valid[OF inv] nv bio_invD(1)[OF inv] by (auto simp: hs_def)
  show "ds r = {}" using held_valid[OF inv] nv bio_invD(1)[OF inv] by (auto simp: ds_def)
qed

lemma take_map_upt: "take k (map f [0..<n] @ ys) = (if k \<le> n then map f [0..<k] else map f [0..<n] @ take (k - n) ys)"
  by (simp add: take_map)

text \<open>
  A disk whose log holds, for each of the blocks \<open>bs\<close>, the contents \<open>new\<close>: recovery gives
  these blocks their new contents and leaves the others, and so it does after having been
  interrupted.
\<close>

lemma recovered_home:
  assumes "heads_ok s (dec_head (md (lstart s)))" "\<not> in_log s b" "log_geom s"
  shows "recovered (lstart s) md b =
    (case first_idx (\<lambda>x. x = b) (dec_head (md (lstart s))) of Some i \<Rightarrow> md (lstart s + i + 1) | None \<Rightarrow> md b)"
proof -
  let ?bs = "dec_head (md (lstart s))" and ?st = "lstart s"
  have st: "b \<noteq> ?st" using assms(2,3) by (auto simp: in_log_def log_geom_def)
  have d: "distinct ?bs" using assms(1) by (simp add: heads_ok_def)
  let ?w = "map (\<lambda>i. (?bs ! i, md (?st + i + 1))) [0..<length ?bs]"
  have r: "recovered ?st md b = disk_writes ?w md b" using st by (simp add: recovered_def recovery_writes_def Let_def)
  show ?thesis
  proof (cases "first_idx (\<lambda>x. x = b) ?bs")
    case None
    then have "b \<notin> fst ` set ?w" by (auto simp: first_idx_None)
    then show ?thesis using None r by (simp add: disk_writes_other)
  next
    case (Some i)
    then have i: "i < length ?bs" "?bs ! i = b" by (auto simp: first_idx_Some)
    have "disk_writes ?w md (?bs ! i) = md (?st + i + 1)"
      using i d by (intro disk_writes_map) (auto simp: map_nth)
    then show ?thesis using Some r i by simp
  qed
qed

lemma interrupted_recovery:
  assumes "heads_ok s (dec_head (md (lstart s)))" "log_geom s" "length (md (lstart s)) = BSIZE" "\<not> in_log s b"
  shows "recovered (lstart s) (disk_writes (take j (recovery_writes (lstart s) md)) md) b = recovered (lstart s) md b"
    "dec_head (disk_writes (take j (recovery_writes (lstart s) md)) md (lstart s)) \<in> {dec_head (md (lstart s)), []}"
    "length (disk_writes (take j (recovery_writes (lstart s) md)) md (lstart s)) = BSIZE"
proof -
  let ?bs = "dec_head (md (lstart s))" and ?st = "lstart s"
  let ?f = "\<lambda>i. (?bs ! i, md (?st + i + 1))"
  let ?m = "disk_writes (take j (recovery_writes ?st md)) md"
  have home: "x \<in> set ?bs \<Longrightarrow> \<not> in_log s x" for x using assms(1) by (simp add: heads_ok_def)
  have log: "i < length ?bs \<Longrightarrow> in_log s (?st + i + 1)" for i using assms(1) by (auto simp: heads_ok_def in_log_def)
  have st: "in_log s ?st" "b \<noteq> ?st" using assms(2,4) by (auto simp: in_log_def log_geom_def)
  have e: "dec_head (enc_head (md ?st) []) = []" using assms(3) by (simp add: dec_enc_head)
  have tk: "take j (recovery_writes ?st md) = (if j \<le> length ?bs then map ?f [0..<j]
      else map ?f [0..<length ?bs] @ take (j - length ?bs) [(?st, enc_head (md ?st) [])])"
    unfolding recovery_writes_def Let_def by (rule take_map_upt)
  consider "j \<le> length ?bs" "take j (recovery_writes ?st md) = map ?f [0..<j]"
    | "take j (recovery_writes ?st md) = map ?f [0..<length ?bs] @ [(?st, enc_head (md ?st) [])]"
    unfolding tk by (cases "j \<le> length ?bs") (auto simp: take_Cons')
  then have "recovered ?st ?m b = recovered ?st md b \<and> dec_head (?m ?st) \<in> {?bs, []} \<and> length (?m ?st) = BSIZE"
  proof cases
    case 1
    have keep: "?m x = md x" if "in_log s x" for x
    proof -
      have "?bs ! i \<in> set ?bs" if "i < j" for i using that 1(1) by simp
      then have "x \<notin> fst ` set (map ?f [0..<j])" using home that by auto
      then show ?thesis unfolding 1(2) by (rule disk_writes_other)
    qed
    have "recovered ?st ?m b = (case first_idx (\<lambda>x. x = b) ?bs of Some i \<Rightarrow> ?m (?st + i + 1) | None \<Rightarrow> ?m b)"
      using recovered_home[of s ?m b] assms keep[OF st(1)] by simp
    also have "\<dots> = (case first_idx (\<lambda>x. x = b) ?bs of Some i \<Rightarrow> md (?st + i + 1) | None \<Rightarrow> md b)"
    proof (cases "first_idx (\<lambda>x. x = b) ?bs")
      case None
      then have "b \<notin> fst ` set (map ?f [0..<j])" using 1(1) by (auto simp: first_idx_None)
      then show ?thesis using None 1(2) by (simp add: disk_writes_other)
    next
      case (Some i)
      then have "i < length ?bs" by (simp add: first_idx_Some)
      then show ?thesis using Some keep[OF log] by simp
    qed
    finally show ?thesis using recovered_home[of s md b, OF assms(1,4,2)] keep[OF st(1)] assms(3) by simp
  next
    case 2
    have "?m = recovered ?st md" using 2 by (simp add: recovered_def recovery_writes_def Let_def)
    moreover have "recovered ?st md ?st = enc_head (md ?st) []" by (simp add: recovered_def recovery_writes_def Let_def)
    ultimately have m: "dec_head (?m ?st) = []" "?m = recovered ?st md" "length (?m ?st) = BSIZE" using e assms(3) by simp_all
    have "heads_ok s []" using assms(2) by (auto simp: heads_ok_def log_geom_def)
    then show ?thesis using recovered_home[of s ?m b] m assms(2,4) by simp
  qed
  then show "recovered ?st ?m b = recovered ?st md b" "dec_head (?m ?st) \<in> {?bs, []}" "length (?m ?st) = BSIZE" by blast+
qed

lemma crash_disk_recovered:
  assumes "crash_disk (lstart s) md md'" "heads_ok s (dec_head (md (lstart s)))" "log_geom s" "length (md (lstart s)) = BSIZE"
  shows "heads_ok s (dec_head (md' (lstart s))) \<and> length (md' (lstart s)) = BSIZE \<and>
    (\<forall>b. \<not> in_log s b \<longrightarrow> recovered (lstart s) md' b = recovered (lstart s) md b)"
  using assms
proof (induction rule: crash_disk.induct)
  case (crash md' j)
  then have IH: "heads_ok s (dec_head (md' (lstart s)))" "length (md' (lstart s)) = BSIZE"
    "\<And>b. \<not> in_log s b \<Longrightarrow> recovered (lstart s) md' b = recovered (lstart s) md b" by blast+
  obtain b where b: "\<not> in_log s b" by (rule that[of "lstart s + lsize s"]) (simp add: in_log_def)
  have "heads_ok s []" using assms(3) by (auto simp: heads_ok_def log_geom_def)
  then show ?case
    using interrupted_recovery(2,3)[of s md' b j, OF IH(1) assms(3) IH(2) b]
      interrupted_recovery(1)[of s md' _ j, OF IH(1) assms(3) IH(2)] IH by auto
qed simp

lemma commit_prefix:
  assumes inv: "log_inv s" and h: "hs s = {}"
  shows "heads_ok s (dec_head (disk_writes (take k (commit_writes s)) (memdisk s) (lstart s))) \<and>
    length (disk_writes (take k (commit_writes s)) (memdisk s) (lstart s)) = BSIZE \<and>
    ((\<forall>b. \<not> in_log s b \<longrightarrow> recovered (lstart s) (disk_writes (take k (commit_writes s)) (memdisk s)) b = memdisk s b) \<or>
     (\<forall>b. \<not> in_log s b \<longrightarrow> recovered (lstart s) (disk_writes (take k (commit_writes s)) (memdisk s)) b = blk s b))"
proof -
  have g: "log_geom s" "heads_ok s (lh s)" "ds s = set (lh s)" "dec_head (memdisk s (lstart s)) = []" "bio_inv s"
    using inv by (simp_all add: log_inv_def log_geom_def)
  let ?n = "length (lh s)" and ?st = "lstart s"
  let ?hd = "enc_head (blk s ?st) (lh s)"
  let ?w1 = "map (\<lambda>i. (slot_of s i, blk s (lh s ! i))) [0..<?n]"
  let ?w3 = "map (\<lambda>i. (lh s ! i, blk s (lh s ! i))) [0..<?n]"
  let ?md = "disk_writes (take k (commit_writes s)) (memdisk s)"
  have len: "length (memdisk s ?st) = BSIZE" "length (blk s ?st) = BSIZE" using bio_invD(3)[OF g(5)] g(5) by simp_all
  have n: "?n \<le> LOGSIZE" "\<forall>b \<in> set (lh s). b < 4294967296" using g(1,2) by (auto simp: heads_ok_def log_geom_def)
  have hd: "dec_head ?hd = lh s" "length ?hd = BSIZE" using dec_enc_head[OF n(1) len(2) n(2)] len n(1) by simp_all
  have e: "dec_head (enc_head ?hd []) = []" "length (enc_head ?hd []) = BSIZE" using hd(2) by (simp_all add: dec_enc_head)
  have nil: "heads_ok s []" using g(1) by (auto simp: heads_ok_def log_geom_def)
  note st = heads_start[OF g(1,2)]
  have clean: "blk s b = memdisk s b" if "b \<notin> set (lh s)" for b using bc.clean[OF g(5), of b] that h g(3) by simp
  have slot: "i < ?n \<Longrightarrow> in_log s (slot_of s i)" for i using slot_in_log(1)[OF g(2)] .
  have w1: "disk_writes (map (\<lambda>i. (slot_of s i, blk s (lh s ! i))) is) m b = m b"
    if "\<not> in_log s b \<or> b = ?st" "set is \<subseteq> {..<?n}" for b m "is"
    using that slot st(2) by (intro disk_writes_other) (auto simp: st(2)[symmetric])
  have cases: "(\<exists>j. take k (commit_writes s) = map (\<lambda>i. (slot_of s i, blk s (lh s ! i))) [0..<j] \<and> j \<le> ?n) \<or>
    (\<exists>j. take k (commit_writes s) = ?w1 @ [(?st, ?hd)] @ map (\<lambda>i. (lh s ! i, blk s (lh s ! i))) [0..<j] \<and> j \<le> ?n) \<or>
    take k (commit_writes s) = commit_writes s"
  proof -
    have t1: "take k (commit_writes s) = (if k \<le> ?n then map (\<lambda>i. (slot_of s i, blk s (lh s ! i))) [0..<k]
        else ?w1 @ take (k - ?n) ([(?st, ?hd)] @ ?w3 @ [(?st, enc_head ?hd [])]))"
      unfolding commit_writes_def Let_def by (rule take_map_upt)
    show ?thesis
    proof (cases "k \<le> ?n")
      case False
      then obtain m where m: "k - ?n = Suc m" by (metis Suc_diff_Suc not_le)
      have t2: "take m (?w3 @ [(?st, enc_head ?hd [])]) = (if m \<le> ?n then map (\<lambda>i. (lh s ! i, blk s (lh s ! i))) [0..<m]
          else ?w3 @ take (m - ?n) [(?st, enc_head ?hd [])])" by (rule take_map_upt)
      show ?thesis
      proof (cases "m \<le> ?n")
        case True
        then show ?thesis using t1 t2 m False by (intro disjI2 disjI1 exI[of _ m]) simp
      next
        case big: False
        have "length (commit_writes s) \<le> k" using big m by (simp add: commit_writes_def Let_def)
        then show ?thesis by simp
      qed
    qed (use t1 in auto)
  qed
  then show ?thesis
  proof (elim disjE exE conjE)
    fix j assume tk: "take k (commit_writes s) = map (\<lambda>i. (slot_of s i, blk s (lh s ! i))) [0..<j]" and j: "j \<le> ?n"
    have keep: "?md b = memdisk s b" if "\<not> in_log s b \<or> b = ?st" for b
    proof -
      have "set [0..<j] \<subseteq> {..<?n}" using j by auto
      from w1[OF that this] show ?thesis unfolding tk .
    qed
    then have m: "?md ?st = memdisk s ?st" by simp
    then have "recovered ?st ?md b = memdisk s b" if "\<not> in_log s b" for b
      using recovered_home[of s ?md b] that g(1,4) nil keep[of b] by simp
    then show ?thesis using m g(4) nil len(1) by simp
  next
    fix j assume tk: "take k (commit_writes s) = ?w1 @ [(?st, ?hd)] @ map (\<lambda>i. (lh s ! i, blk s (lh s ! i))) [0..<j]" and j: "j \<le> ?n"
    let ?w = "map (\<lambda>i. (lh s ! i, blk s (lh s ! i))) [0..<j]"
    have homes: "fst ` set ?w \<subseteq> set (lh s)" using j by auto
    have nolog: "in_log s b \<Longrightarrow> b \<notin> fst ` set ?w" for b using homes g(2) by (auto simp: heads_ok_def)
    have stlog: "in_log s ?st" using g(1) by (simp add: in_log_def log_geom_def)
    have m: "?md ?st = ?hd" unfolding tk using disk_writes_other[OF nolog[OF stlog]] by simp
    have sl: "?md (slot_of s i) = blk s (lh s ! i)" if "i < ?n" for i
    proof -
      have "?md (slot_of s i) = disk_writes ?w1 (memdisk s) (slot_of s i)"
        unfolding tk using disk_writes_other[OF nolog[OF slot[OF that]]] st(2)[of i] by simp
      also have "\<dots> = blk s (lh s ! i)" using that by (intro disk_writes_map) (auto simp: distinct_map inj_on_def slot_of_def)
      finally show ?thesis .
    qed
    have "recovered ?st ?md b = blk s b" if b: "\<not> in_log s b" for b
    proof (cases "first_idx (\<lambda>x. x = b) (lh s)")
      case None
      then have "b \<notin> set (lh s)" by (auto simp: first_idx_None)
      moreover have "?md b = memdisk s b"
      proof -
        have "b \<notin> fst ` set ?w" using calculation homes by blast
        moreover have "b \<noteq> ?st" using b stlog by auto
        ultimately show ?thesis unfolding tk using w1[of b "[0..<?n]"] b by (simp add: disk_writes_other atLeast0LessThan)
      qed
      ultimately show ?thesis using recovered_home[of s ?md b] m hd(1) g(1,2) b None clean by simp
    next
      case (Some i)
      then have "i < ?n" "lh s ! i = b" by (auto simp: first_idx_Some)
      then show ?thesis using recovered_home[of s ?md b] m hd(1) g(1,2) b Some sl[of i] by (simp add: slot_of_def)
    qed
    then show ?thesis using m hd g(2) by simp
  next
    assume tk: "take k (commit_writes s) = commit_writes s"
    have m: "?md ?st = enc_head ?hd []" unfolding tk by (simp add: commit_writes_def Let_def)
    have "recovered ?st ?md b = blk s b" if b: "\<not> in_log s b" for b
    proof -
      have bs: "b \<noteq> ?st" using b g(1) by (auto simp: in_log_def log_geom_def)
      have "?md b = disk_writes ?w3 (disk_writes ?w1 (memdisk s)) b"
      proof (cases "b \<in> set (lh s)")
        case True
        then obtain i where i: "i < ?n" "lh s ! i = b" by (auto simp: in_set_conv_nth)
        have "disk_writes ?w3 x (lh s ! i) = blk s (lh s ! i)" for x
          using i(1) g(2) by (intro disk_writes_map) (auto simp: heads_ok_def map_nth)
        then show ?thesis unfolding tk using bs i by (simp add: commit_writes_def Let_def)
      next
        case False
        then have "b \<notin> fst ` set ?w3" by auto
        then show ?thesis unfolding tk using bs by (simp add: commit_writes_def Let_def disk_writes_other)
      qed
      also have "\<dots> = blk s b"
      proof (cases "b \<in> set (lh s)")
        case True
        then obtain i where i: "i < ?n" "lh s ! i = b" by (auto simp: in_set_conv_nth)
        have "disk_writes ?w3 x (lh s ! i) = blk s (lh s ! i)" for x
          using i(1) g(2) by (intro disk_writes_map) (auto simp: heads_ok_def map_nth)
        then show ?thesis using i by simp
      next
        case False
        then have "b \<notin> fst ` set ?w3" by auto
        then show ?thesis using w1[of b "[0..<?n]"] b clean[OF False] by (simp add: disk_writes_other atLeast0LessThan)
      qed
      finally show ?thesis using recovered_home[of s ?md b] m e(1) nil g(1) b by simp
    qed
    then show ?thesis using m e nil by simp
  qed
qed

text \<open>A machine to run the theorems on: 40 blocks, the log in 2 to 31, and block 35 changed.\<close>

definition demo_log :: klog where
  "demo_log = \<lparr>held = {}, mem = (\<lambda>_. 0), freelist = 0, use_lock = True, kend = 0,
     ptable = [zero_proc\<lparr>p_state := RUNNING, p_pid := 1\<rparr>], initproc = Some 0, nextpid = 2, curproc = Some 0, pipes = (\<lambda>_. None),
     bufs = zero_buf\<lparr>b_valid := True, b_dirty := True, b_dev := 1, b_blockno := 35, b_data := replicate BSIZE 7\<rparr> # replicate 29 zero_buf,
     lru = [0..<NBUF], memdisk = (\<lambda>_. replicate BSIZE 0), disksize = 40, dwrites = [],
     lstart = 2, lsize = 30, outstanding = 0, committing = False, ldev = 1, lh = [35]\<rparr>"

definition demo_boot :: "(nat \<Rightarrow> uchar list) \<Rightarrow> klog" where
  "demo_boot md = demo_log\<lparr>bufs := replicate NBUF zero_buf, memdisk := md, lh := []\<rparr>"

lemma zero_buf_ok: "buf_ok me md n zero_buf"
  by (simp add: buf_ok_def zero_buf_def)

lemma demo_bio: "bio_inv demo_log"
  unfolding bio_inv_def
proof (intro conjI allI impI)
  fix i assume i: "i < NBUF"
  show "buf_ok (mypid demo_log) (memdisk demo_log) (disksize demo_log) (bufs demo_log ! i)"
    using i by (cases i) (auto simp: demo_log_def zero_buf_ok, simp add: buf_ok_def zero_buf_def)
next
  fix i j assume "i < NBUF" "j < NBUF"
    "b_valid (bufs demo_log ! i) \<and> b_valid (bufs demo_log ! j) \<and> b_blockno (bufs demo_log ! i) = b_blockno (bufs demo_log ! j)"
  then show "i = j" by (cases i; cases j) (simp_all add: demo_log_def zero_buf_def)
qed (auto simp: demo_log_def)

lemma demo_bufs:
  "length (bufs demo_log) = NBUF"
  "i < NBUF \<Longrightarrow> bufs demo_log ! i = (if i = 0 then zero_buf\<lparr>b_valid := True, b_dirty := True, b_dev := 1, b_blockno := 35,
     b_data := replicate BSIZE 7\<rparr> else zero_buf)"
  by (simp_all add: demo_log_def nth_Cons split: nat.splits)

lemma demo_hs: "hs demo_log = {}"
  by (auto simp: hs_def demo_bufs zero_buf_def)

lemma demo_log_inv: "log_inv demo_log"
proof -
  have "ds demo_log = {35}"
    by (auto simp: ds_def demo_bufs zero_buf_def split: if_splits intro!: exI[of _ 0])
  moreover have "dec_head (memdisk demo_log (lstart demo_log)) = []" by (simp add: dec_head_def demo_log_def)
  ultimately show ?thesis
    using demo_bio by (simp add: log_inv_def log_geom_def heads_ok_def in_log_def) (simp add: demo_log_def)
qed

lemma demo_boot_rebooted:
  assumes "\<And>b. length (md b) = BSIZE"
  shows "rebooted demo_log (demo_boot md)"
proof -
  have "bio_inv (demo_boot md)"
    unfolding bio_inv_def
  proof (intro conjI allI impI)
    fix i assume "i < NBUF"
    then show "buf_ok (mypid (demo_boot md)) (memdisk (demo_boot md)) (disksize (demo_boot md)) (bufs (demo_boot md) ! i)"
      by (simp add: demo_boot_def zero_buf_ok)
  next
    fix i j assume "i < NBUF" "j < NBUF"
      "b_valid (bufs (demo_boot md) ! i) \<and> b_valid (bufs (demo_boot md) ! j) \<and> b_blockno (bufs (demo_boot md) ! i) = b_blockno (bufs (demo_boot md) ! j)"
    then show "i = j" by (simp add: demo_boot_def zero_buf_def)
  qed (auto simp: demo_boot_def demo_log_def assms)
  then show ?thesis by (simp add: rebooted_def demo_boot_def zero_buf_def)
qed

section \<open>The properties of the log\<close>



subsection \<open>Ending an operation\<close>

lemma commit_home:
  assumes "log_inv s" "hs s = {}"
  shows "\<not> in_log s b \<Longrightarrow> disk_writes (commit_writes s) (memdisk s) b = blk s b"
proof -
  have g: "log_geom s" "heads_ok s (lh s)" "ds s = set (lh s)" "bio_inv s" using assms(1) by (simp_all add: log_inv_def log_geom_def)
  let ?n = "length (lh s)"
  let ?w1 = "map (\<lambda>i. (slot_of s i, blk s (lh s ! i))) [0..<?n]"
  let ?w3 = "map (\<lambda>i. (lh s ! i, blk s (lh s ! i))) [0..<?n]"
  assume b: "\<not> in_log s b"
  then have bs: "b \<noteq> lstart s" using g(1) by (auto simp: in_log_def log_geom_def)
  show "disk_writes (commit_writes s) (memdisk s) b = blk s b"
  proof (cases "b \<in> set (lh s)")
    case True
    then obtain i where i: "i < ?n" "lh s ! i = b" by (auto simp: in_set_conv_nth)
    have "disk_writes ?w3 x (lh s ! i) = blk s (lh s ! i)" for x
      using i(1) g(2) by (intro disk_writes_map) (auto simp: heads_ok_def map_nth)
    then show ?thesis using bs i by (simp add: commit_writes_def Let_def)
  next
    case False
    then have "b \<notin> fst ` set ?w3" by auto
    moreover have "b \<notin> fst ` set ?w1" using b slot_in_log(1)[OF g(2)] by auto
    moreover have "blk s b = memdisk s b" using bc.clean[OF g(4), of b] False assms(2) g(3) by simp
    ultimately show ?thesis using bs by (simp add: commit_writes_def Let_def disk_writes_other)
  qed
qed

lemma end_op_run:
  assumes "log_inv s" "hs s = {}" "outstanding s = 1" "\<not> committing s"
  shows "\<exists>t. end_op s = Ok () t \<and> log_inv t \<and> hs t = {} \<and> lh t = [] \<and> outstanding t = 0 \<and> \<not> committing t \<and> blk t = disk_writes (if lh s = [] then [] else commit_writes s) (blk s) \<and>
    memdisk t = disk_writes (if lh s = [] then [] else commit_writes s) (memdisk s)"
proof -
  have h: "held s = {}" "bio_inv s" using assms(1) bio_invD(2) by (auto simp: log_inv_def log_geom_def)
  let ?s = "s\<lparr>outstanding := 0, committing := True\<rparr>"
  have s: "log_inv ?s" "hs ?s = {}" "lh ?s = lh s" "commit_writes ?s = commit_writes s"
    using assms by (simp_all add: log_inv_def commit_writes_def slot_of_def Let_def)
  have "\<exists>u. commit ?s = Ok () u \<and> log_inv u \<and> hs u = {} \<and> lh u = [] \<and> (\<exists>t. bframe ?s t \<and> u = t\<lparr>lh := []\<rparr>) \<and>
      bview_of u = logged (bview_of ?s) (if lh s = [] then [] else commit_writes s)"
  proof (cases "lh s = []")
    case True
    then show ?thesis using s by (intro exI[of _ ?s]) (auto simp: commit_def run_simps intro!: exI[of _ ?s])
  next
    case False
    then show ?thesis using commit_run[OF s(1,2)] s(3,4) by simp
  qed
  then obtain u where u: "commit ?s = Ok () u" "log_inv u" "hs u = {}" "lh u = []" "\<exists>t. bframe ?s t \<and> u = t\<lparr>lh := []\<rparr>"
      "bview_of u = logged (bview_of ?s) (if lh s = [] then [] else commit_writes s)" by blast
  have ui: "bio_inv u" "held u = {}" using u(2) bio_invD(2) by (auto simp: log_inv_def log_geom_def)
  have fr: "outstanding u = 0" "committing u" using u(5) bframe_log(5,6) by fastforce+
  let ?t = "u\<lparr>committing := False, ptable := wakeup1 (Some ChLog) (ptable u)\<rparr>"
  have e: "?s\<lparr>held := {}\<rparr> = ?s" by (rule held_id) (simp add: h)
  have e': "(u\<lparr>committing := False, ptable := p\<rparr>)\<lparr>held := {}\<rparr> = u\<lparr>committing := False, ptable := p\<rparr>" for p
    by (rule held_id) (simp add: ui)
  have run: "end_op s = Ok () ?t"
    using assms(3,4) h ui u(1) by (simp add: e e' end_op_def run_simps bnd_step wakeup_def krelease_def)
  have w: "bio_inv ?t"
  proof -
    have "mypid ?t = mypid u" by (rule mypid_woken[OF ui(1)]) simp_all
    then show ?thesis using ui(1) unfolding bio_inv_def by simp
  qed
  have v: "blk ?t = blk u" "hs ?t = hs u" "ds ?t = ds u" by (simp_all add: blk_def hs_def ds_def fun_eq_iff cong: option.case_cong)
  have "log_inv ?t" using u(2) w v by (simp add: log_inv_def log_geom_def heads_ok_def in_log_def)
  then show ?thesis unfolding run using u(3,4) fr v logged_view(1,4)[OF u(6)] by simp
qed



section \<open>The reservation of \<open>begin_op\<close>\<close>



end
