(* ===== verification/Blocks.thy ===== *)
theory Blocks
  imports Log
begin

text \<open>
  The state of the file system, \<^verbatim>\<open>fs.h\<close>, \<^verbatim>\<open>file.h\<close> and \<^verbatim>\<open>fs.c\<close>, and its lowest layer: the bitmap
  of disk blocks in use. Block and inode numbers, sizes and offsets are natural numbers; where
  the 32-bit arithmetic of the source can wrap around, the test is written out.
\<close>

abbreviation (input) NDIRECT :: nat where "NDIRECT \<equiv> 12"
abbreviation (input) NINDIRECT :: nat where "NINDIRECT \<equiv> 128"
abbreviation (input) MAXFILE :: nat where "MAXFILE \<equiv> 140"
abbreviation (input) IPB :: nat where "IPB \<equiv> 8"
abbreviation (input) BPB :: nat where "BPB \<equiv> 4096"
abbreviation (input) NINODE :: nat where "NINODE \<equiv> 50"
abbreviation (input) ROOTINO :: nat where "ROOTINO \<equiv> 1"
abbreviation (input) ROOTDEV :: nat where "ROOTDEV \<equiv> 1"

abbreviation (input) T_DIR :: ushort where "T_DIR \<equiv> 1"
abbreviation (input) T_FILE :: ushort where "T_FILE \<equiv> 2"
abbreviation (input) T_DEV :: ushort where "T_DEV \<equiv> 3"

definition IBLOCK :: "nat \<Rightarrow> superblock \<Rightarrow> nat" where
  "IBLOCK i sb = i div IPB + sb_inodestart sb"

definition BBLOCK :: "nat \<Rightarrow> superblock \<Rightarrow> nat" where
  "BBLOCK b sb = b div BPB + sb_bmapstart sb"

text \<open>
  \<^verbatim>\<open>struct inode\<close>, the copy of an inode in memory. A \<^verbatim>\<open>short\<close> is kept as its 16 bits; block
  numbers are those of \<^verbatim>\<open>addrs\<close>.
\<close>

record inode =
  i_dev :: nat
  i_inum :: nat
  i_ref :: int
  i_lock :: sleeplock
  i_valid :: bool
  i_type :: ushort
  i_major :: ushort
  i_minor :: ushort
  i_nlink :: ushort
  i_size :: nat
  i_addrs :: "nat list"

text \<open>The global superblock and the inode cache \<^verbatim>\<open>icache\<close>.\<close>

record kfs = klog +
  sb :: superblock
  icache :: "inode list"

definition bzero :: "nat \<Rightarrow> nat \<Rightarrow> ('a klog_scheme, unit) kop" where
  "bzero dev bno =
     bnd (bread dev bno) (\<lambda>bp.
     seq (set_data bp (replicate BSIZE 0))
     (seq (log_write bp)
     (brelse bp)))"

text \<open>
  The bit of block \<open>bi\<close> in a block of the bitmap, \<^verbatim>\<open>data[bi/8] & (1 << (bi % 8))\<close>, and the
  two assignments that set and clear it.
\<close>

definition bit_mask :: "nat \<Rightarrow> uchar" where
  "bit_mask bi = push_bit (bi mod 8) 1"

definition bm_used :: "uchar list \<Rightarrow> nat \<Rightarrow> bool" where
  "bm_used d bi \<longleftrightarrow> (d ! (bi div 8)) AND bit_mask bi \<noteq> 0"

definition bm_set :: "uchar list \<Rightarrow> nat \<Rightarrow> uchar list" where
  "bm_set d bi = d[bi div 8 := (d ! (bi div 8)) OR bit_mask bi]"

definition bm_clear :: "uchar list \<Rightarrow> nat \<Rightarrow> uchar list" where
  "bm_clear d bi = d[bi div 8 := (d ! (bi div 8)) AND NOT (bit_mask bi)]"

text \<open>The inner loop of \<open>balloc\<close>: the first free bit from \<open>bi\<close> on.\<close>

function balloc_scan :: "nat \<Rightarrow> nat \<Rightarrow> uchar list \<Rightarrow> nat \<Rightarrow> nat option" where
  "balloc_scan sz b d bi =
     (if bi < BPB \<and> b + bi < sz then
        if \<not> bm_used d bi then Some bi else balloc_scan sz b d (bi + 1)
      else None)"
  by pat_completeness auto
termination by (relation "measure (\<lambda>(_, _, _, bi). BPB - bi)") auto

declare balloc_scan.simps [simp del]

function balloc_loop :: "nat \<Rightarrow> superblock \<Rightarrow> nat \<Rightarrow> ('a klog_scheme, nat) kop" where
  "balloc_loop dev sblk b =
     (if b < sb_size sblk then
        bnd (bread dev (BBLOCK b sblk)) (\<lambda>bp.
        bnd (get_data bp) (\<lambda>d.
        case balloc_scan (sb_size sblk) b d 0 of
          Some bi \<Rightarrow>
            seq (set_data bp (bm_set d bi))
            (seq (log_write bp)
            (seq (brelse bp)
            (seq (bzero dev (b + bi))
            (ret (b + bi)))))
        | None \<Rightarrow>
            seq (brelse bp)
            (balloc_loop dev sblk (b + BPB))))
      else kpanic ''balloc: out of blocks'')"
  by pat_completeness auto
termination by (relation "measure (\<lambda>(_, sblk, b). sb_size sblk - b)") auto

declare balloc_loop.simps [simp del]

definition balloc :: "nat \<Rightarrow> ('a kfs_scheme, nat) kop" where
  "balloc dev = bnd (fetch sb) (\<lambda>sblk. balloc_loop dev sblk 0)"

definition bfree :: "nat \<Rightarrow> nat \<Rightarrow> ('a kfs_scheme, unit) kop" where
  "bfree dev b =
     bnd (fetch sb) (\<lambda>sblk.
     bnd (bread dev (BBLOCK b sblk)) (\<lambda>bp.
     bnd (get_data bp) (\<lambda>d.
     let bi = b mod BPB in
     seq (panic_if (\<not> bm_used d bi) ''freeing free block'')
     (seq (set_data bp (bm_clear d bi))
     (seq (log_write bp)
     (brelse bp))))))"

end
