(* ===== verification/Inode.thy ===== *)
theory Inode
  imports Blocks
begin

text \<open>
  The inode layer of \<^verbatim>\<open>fs.c\<close>: inodes on the disk, the inode cache with its reference counts
  and sleep locks, and the contents of files. An inode pointer is an index of the cache; the
  routines are never called with a null pointer, so the tests \<^verbatim>\<open>ip == 0\<close> are left out.
\<close>

text \<open>\<^verbatim>\<open>struct dinode\<close> and its 64 bytes in an inode block.\<close>

record dinode =
  di_type :: ushort
  di_major :: ushort
  di_minor :: ushort
  di_nlink :: ushort
  di_size :: nat
  di_addrs :: "nat list"

abbreviation (input) DINODE :: nat where "DINODE \<equiv> 64"

definition dec_dinode :: "uchar list \<Rightarrow> dinode" where
  "dec_dinode d = \<lparr>di_type = get16 d 0, di_major = get16 d 2, di_minor = get16 d 4, di_nlink = get16 d 6,
     di_size = unat (get32 d 8), di_addrs = map (\<lambda>i. unat (get32 d (12 + 4 * i))) [0..<13]\<rparr>"

definition enc_dinode :: "dinode \<Rightarrow> uchar list" where
  "enc_dinode x = le16 (di_type x) @ le16 (di_major x) @ le16 (di_minor x) @ le16 (di_nlink x) @
     le32 (of_nat (di_size x)) @ concat (map (\<lambda>a. le32 (of_nat a)) (di_addrs x))"

definition zero_dinode :: dinode where
  "zero_dinode = \<lparr>di_type = 0, di_major = 0, di_minor = 0, di_nlink = 0, di_size = 0, di_addrs = replicate 13 0\<rparr>"

text \<open>Inode \<open>inum\<close> in its block, \<^verbatim>\<open>(struct dinode*)bp->data + inum%IPB\<close>.\<close>

definition get_dinode :: "uchar list \<Rightarrow> nat \<Rightarrow> dinode" where
  "get_dinode d inum = dec_dinode (slice d (inum mod IPB * DINODE) DINODE)"

definition put_dinode :: "uchar list \<Rightarrow> nat \<Rightarrow> dinode \<Rightarrow> uchar list" where
  "put_dinode d inum x = splice d (inum mod IPB * DINODE) (enc_dinode x)"

section \<open>The inode cache\<close>

definition upd_inode :: "nat \<Rightarrow> (inode \<Rightarrow> inode) \<Rightarrow> ('a kfs_scheme, unit) kop" where
  "upd_inode ip f = modify (\<lambda>s. s\<lparr>icache := (icache s)[ip := f (icache s ! ip)]\<rparr>)"

definition the_inode :: "nat \<Rightarrow> ('a kfs_scheme, inode) kop" where
  "the_inode ip = fetch (\<lambda>s. icache s ! ip)"

definition inode_lock :: "nat \<Rightarrow> 'a kfs_scheme slref" where
  "inode_lock ip = \<lparr>sl_get = (\<lambda>s. i_lock (icache s ! ip)),
     sl_set = (\<lambda>l s. s\<lparr>icache := (icache s)[ip := (icache s ! ip)\<lparr>i_lock := l\<rparr>]\<rparr>),
     sl_lk = L_inode ip, sl_chan = ChInodeLock ip\<rparr>"

definition iinit :: "nat \<Rightarrow> ('a kfs_scheme, unit) kop" where
  "iinit dev =
     seq (foreach [0..<NINODE] (\<lambda>i. initsleeplock (inode_lock i)))
     (bnd (readsb dev) (\<lambda>x.
     modify (\<lambda>s. s\<lparr>sb := x\<rparr>)))"

definition iget :: "nat \<Rightarrow> nat \<Rightarrow> ('a kfs_scheme, nat) kop" where
  "iget dev inum =
     seq (kacquire L_icache)
     (bnd (fetch (\<lambda>s. (first_idx (\<lambda>ip. i_ref ip > 0 \<and> i_dev ip = dev \<and> i_inum ip = inum) (icache s),
                        first_idx (\<lambda>ip. i_ref ip = 0) (icache s)))) (\<lambda>(cached, empty).
     case cached of
       Some ip \<Rightarrow>
         seq (upd_inode ip (\<lambda>i. i\<lparr>i_ref := i_ref i + 1\<rparr>))
         (seq (krelease L_icache)
         (ret ip))
     | None \<Rightarrow>
         (case empty of
            None \<Rightarrow> kpanic ''iget: no inodes''
          | Some ip \<Rightarrow>
              seq (upd_inode ip (\<lambda>i. i\<lparr>i_dev := dev, i_inum := inum, i_ref := 1, i_valid := False\<rparr>))
              (seq (krelease L_icache)
              (ret ip)))))"

definition idup :: "nat \<Rightarrow> ('a kfs_scheme, nat) kop" where
  "idup ip =
     seq (kacquire L_icache)
     (seq (upd_inode ip (\<lambda>i. i\<lparr>i_ref := i_ref i + 1\<rparr>))
     (seq (krelease L_icache)
     (ret ip)))"

function ialloc_loop :: "nat \<Rightarrow> ushort \<Rightarrow> superblock \<Rightarrow> nat \<Rightarrow> ('a kfs_scheme, nat) kop" where
  "ialloc_loop dev type sblk inum =
     (if inum < sb_ninodes sblk then
        bnd (bread dev (IBLOCK inum sblk)) (\<lambda>bp.
        bnd (get_data bp) (\<lambda>d.
        if di_type (get_dinode d inum) = 0 then
          seq (set_data bp (put_dinode d inum (zero_dinode\<lparr>di_type := type\<rparr>)))
          (seq (log_write bp)
          (seq (brelse bp)
          (iget dev inum)))
        else
          seq (brelse bp)
          (ialloc_loop dev type sblk (inum + 1))))
      else kpanic ''ialloc: no inodes'')"
  by pat_completeness auto
termination by (relation "measure (\<lambda>(_, _, sblk, inum). sb_ninodes sblk - inum)") auto

declare ialloc_loop.simps [simp del]

definition ialloc :: "nat \<Rightarrow> ushort \<Rightarrow> ('a kfs_scheme, nat) kop" where
  "ialloc dev type = bnd (fetch sb) (\<lambda>sblk. ialloc_loop dev type sblk 1)"

text \<open>The fields of an inode that are on the disk.\<close>

definition to_dinode :: "inode \<Rightarrow> dinode" where
  "to_dinode i = \<lparr>di_type = i_type i, di_major = i_major i, di_minor = i_minor i, di_nlink = i_nlink i,
     di_size = i_size i, di_addrs = i_addrs i\<rparr>"

definition of_dinode :: "dinode \<Rightarrow> inode \<Rightarrow> inode" where
  "of_dinode x i = i\<lparr>i_type := di_type x, i_major := di_major x, i_minor := di_minor x, i_nlink := di_nlink x,
     i_size := di_size x, i_addrs := di_addrs x\<rparr>"

definition iupdate :: "nat \<Rightarrow> ('a kfs_scheme, unit) kop" where
  "iupdate ip =
     bnd (the_inode ip) (\<lambda>i.
     bnd (fetch sb) (\<lambda>sblk.
     bnd (bread (i_dev i) (IBLOCK (i_inum i) sblk)) (\<lambda>bp.
     bnd (get_data bp) (\<lambda>d.
     seq (set_data bp (put_dinode d (i_inum i) (to_dinode i)))
     (seq (log_write bp)
     (brelse bp))))))"

definition ilock :: "nat \<Rightarrow> ('a kfs_scheme, unit) kop" where
  "ilock ip =
     bnd (the_inode ip) (\<lambda>i.
     seq (panic_if (i_ref i < 1) ''ilock'')
     (seq (acquiresleep (inode_lock ip))
     (bnd (the_inode ip) (\<lambda>i.
     if \<not> i_valid i then
       bnd (fetch sb) (\<lambda>sblk.
       bnd (bread (i_dev i) (IBLOCK (i_inum i) sblk)) (\<lambda>bp.
       bnd (get_data bp) (\<lambda>d.
       seq (upd_inode ip (of_dinode (get_dinode d (i_inum i))))
       (seq (brelse bp)
       (seq (upd_inode ip (\<lambda>i. i\<lparr>i_valid := True\<rparr>))
       (bnd (the_inode ip) (\<lambda>i.
       panic_if (i_type i = 0) ''ilock: no type'')))))))
     else ret ()))))"

definition iunlock :: "nat \<Rightarrow> ('a kfs_scheme, unit) kop" where
  "iunlock ip =
     bnd (holdingsleep (inode_lock ip)) (\<lambda>h.
     bnd (the_inode ip) (\<lambda>i.
     seq (panic_if (\<not> h \<or> i_ref i < 1) ''iunlock'')
     (releasesleep (inode_lock ip))))"

section \<open>The blocks of a file\<close>

definition bmap :: "nat \<Rightarrow> nat \<Rightarrow> ('a kfs_scheme, nat) kop" where
  "bmap ip bn =
     bnd (the_inode ip) (\<lambda>i.
     if bn < NDIRECT then
       if i_addrs i ! bn = 0 then
         bnd (balloc (i_dev i)) (\<lambda>addr.
         seq (upd_inode ip (\<lambda>i. i\<lparr>i_addrs := (i_addrs i)[bn := addr]\<rparr>))
         (ret addr))
       else ret (i_addrs i ! bn)
     else if bn - NDIRECT < NINDIRECT then
       bnd (if i_addrs i ! NDIRECT = 0 then
              bnd (balloc (i_dev i)) (\<lambda>addr.
              seq (upd_inode ip (\<lambda>i. i\<lparr>i_addrs := (i_addrs i)[NDIRECT := addr]\<rparr>))
              (ret addr))
            else ret (i_addrs i ! NDIRECT)) (\<lambda>ind.
       bnd (bread (i_dev i) ind) (\<lambda>bp.
       bnd (get_data bp) (\<lambda>a.
       bnd (if get32 a (4 * (bn - NDIRECT)) = 0 then
              bnd (balloc (i_dev i)) (\<lambda>addr.
              seq (set_data bp (put32 a (4 * (bn - NDIRECT)) (of_nat addr)))
              (seq (log_write bp)
              (ret addr)))
            else ret (unat (get32 a (4 * (bn - NDIRECT))))) (\<lambda>addr.
       seq (brelse bp)
       (ret addr)))))
     else kpanic ''bmap: out of range'')"

definition itrunc_direct :: "nat \<Rightarrow> nat \<Rightarrow> ('a kfs_scheme, unit) kop" where
  "itrunc_direct ip k =
     bnd (the_inode ip) (\<lambda>i.
     if i_addrs i ! k \<noteq> 0 then
       seq (bfree (i_dev i) (i_addrs i ! k))
       (upd_inode ip (\<lambda>i. i\<lparr>i_addrs := (i_addrs i)[k := 0]\<rparr>))
     else ret ())"

definition itrunc_indirect :: "nat \<Rightarrow> uchar list \<Rightarrow> nat \<Rightarrow> ('a kfs_scheme, unit) kop" where
  "itrunc_indirect dev a j = (if get32 a (4 * j) \<noteq> 0 then bfree dev (unat (get32 a (4 * j))) else ret ())"

definition itrunc :: "nat \<Rightarrow> ('a kfs_scheme, unit) kop" where
  "itrunc ip =
     seq (foreach [0..<NDIRECT] (itrunc_direct ip))
     (bnd (the_inode ip) (\<lambda>i.
     seq (if i_addrs i ! NDIRECT \<noteq> 0 then
            bnd (bread (i_dev i) (i_addrs i ! NDIRECT)) (\<lambda>bp.
            bnd (get_data bp) (\<lambda>a.
            seq (foreach [0..<NINDIRECT] (itrunc_indirect (i_dev i) a))
            (seq (brelse bp)
            (seq (bfree (i_dev i) (i_addrs i ! NDIRECT))
            (upd_inode ip (\<lambda>i. i\<lparr>i_addrs := (i_addrs i)[NDIRECT := 0]\<rparr>))))))
          else ret ())
     (seq (upd_inode ip (\<lambda>i. i\<lparr>i_size := 0\<rparr>))
     (iupdate ip))))"

definition iput :: "nat \<Rightarrow> ('a kfs_scheme, unit) kop" where
  "iput ip =
     seq (acquiresleep (inode_lock ip))
     (bnd (the_inode ip) (\<lambda>i.
     seq (if i_valid i \<and> i_nlink i = 0 then
            seq (kacquire L_icache)
            (bnd (the_inode ip) (\<lambda>i.
            seq (krelease L_icache)
            (if i_ref i = 1 then
               seq (itrunc ip)
               (seq (upd_inode ip (\<lambda>i. i\<lparr>i_type := 0\<rparr>))
               (seq (iupdate ip)
               (upd_inode ip (\<lambda>i. i\<lparr>i_valid := False\<rparr>))))
             else ret ())))
          else ret ())
     (seq (releasesleep (inode_lock ip))
     (seq (kacquire L_icache)
     (seq (upd_inode ip (\<lambda>i. i\<lparr>i_ref := i_ref i - 1\<rparr>))
     (krelease L_icache))))))"

definition iunlockput :: "nat \<Rightarrow> ('a kfs_scheme, unit) kop" where
  "iunlockput ip = seq (iunlock ip) (iput ip)"

text \<open>\<^verbatim>\<open>struct stat\<close>.\<close>

record stat =
  st_type :: ushort
  st_dev :: nat
  st_ino :: nat
  st_nlink :: ushort
  st_size :: nat

definition stati :: "nat \<Rightarrow> ('a kfs_scheme, stat) kop" where
  "stati ip =
     bnd (the_inode ip) (\<lambda>i.
     ret \<lparr>st_type = i_type i, st_dev = i_dev i, st_ino = i_inum i, st_nlink = i_nlink i, st_size = i_size i\<rparr>)"

section \<open>Reading and writing\<close>

text \<open>The copy loops. The bytes read are the result; the bytes to write are an argument.\<close>

function readi_loop :: "nat \<Rightarrow> nat \<Rightarrow> nat \<Rightarrow> ('a kfs_scheme, uchar list) kop" where
  "readi_loop ip off n =
     (if n = 0 then ret []
      else
        bnd (the_inode ip) (\<lambda>i.
        bnd (bmap ip (off div BSIZE)) (\<lambda>b.
        bnd (bread (i_dev i) b) (\<lambda>bp.
        let m = min n (BSIZE - off mod BSIZE) in
        bnd (get_data bp) (\<lambda>d.
        seq (brelse bp)
        (bnd (readi_loop ip (off + m) (n - m)) (\<lambda>rest.
        ret (slice d (off mod BSIZE) m @ rest))))))))"
  by pat_completeness auto
termination by (relation "measure (\<lambda>(_, _, n). n)") auto

declare readi_loop.simps [simp del]

function writei_loop :: "nat \<Rightarrow> uchar list \<Rightarrow> nat \<Rightarrow> ('a kfs_scheme, nat) kop" where
  "writei_loop ip src off =
     (if src = [] then ret off
      else
        bnd (the_inode ip) (\<lambda>i.
        bnd (bmap ip (off div BSIZE)) (\<lambda>b.
        bnd (bread (i_dev i) b) (\<lambda>bp.
        let m = min (length src) (BSIZE - off mod BSIZE) in
        bnd (get_data bp) (\<lambda>d.
        seq (set_data bp (splice d (off mod BSIZE) (take m src)))
        (seq (log_write bp)
        (seq (brelse bp)
        (writei_loop ip (drop m src) (off + m)))))))))"
  by pat_completeness auto
termination by (relation "measure (\<lambda>(_, src, _). length src)") (auto simp: min_def)

declare writei_loop.simps [simp del]

text \<open>
  The part of \<open>readi\<close> and \<open>writei\<close> for files and directories; the devices come in through the
  table \<^verbatim>\<open>devsw\<close>, an argument here, since the console's routines call back into this layer.
  \<^verbatim>\<open>off + n < off\<close> on 32-bit integers is \<open>off + n \<ge> 2 ^ 32\<close>.
\<close>

definition readi_file :: "nat \<Rightarrow> nat \<Rightarrow> nat \<Rightarrow> ('a kfs_scheme, int \<times> uchar list) kop" where
  "readi_file ip off n =
     bnd (the_inode ip) (\<lambda>i.
     if off > i_size i \<or> off + n \<ge> 2 ^ 32 then ret (- 1, [])
     else
       let n = (if off + n > i_size i then i_size i - off else n) in
       bnd (readi_loop ip off n) (\<lambda>bs.
       ret (int n, bs)))"

definition writei_file :: "nat \<Rightarrow> uchar list \<Rightarrow> nat \<Rightarrow> ('a kfs_scheme, int) kop" where
  "writei_file ip src off =
     bnd (the_inode ip) (\<lambda>i.
     if off > i_size i \<or> off + length src \<ge> 2 ^ 32 then ret (- 1)
     else if off + length src > MAXFILE * BSIZE then ret (- 1)
     else
       bnd (writei_loop ip src off) (\<lambda>off.
       bnd (the_inode ip) (\<lambda>i.
       seq (if length src > 0 \<and> off > i_size i then
              seq (upd_inode ip (\<lambda>i. i\<lparr>i_size := off\<rparr>))
              (iupdate ip)
            else ret ())
       (ret (int (length src))))))"

abbreviation (input) NDEV :: int where "NDEV \<equiv> 10"

text \<open>\<^verbatim>\<open>struct devsw\<close>: the device's routines, by major number.\<close>

record 's devsw =
  dev_read :: "nat \<Rightarrow> nat \<Rightarrow> ('s, int \<times> uchar list) kop"
  dev_write :: "nat \<Rightarrow> uchar list \<Rightarrow> ('s, int) kop"

definition readi :: "(int \<Rightarrow> 'a kfs_scheme devsw option) \<Rightarrow> nat \<Rightarrow> nat \<Rightarrow> nat \<Rightarrow> ('a kfs_scheme, int \<times> uchar list) kop" where
  "readi devs ip off n =
     bnd (the_inode ip) (\<lambda>i.
     if i_type i = T_DEV then
       (if sint (i_major i) < 0 \<or> sint (i_major i) \<ge> NDEV then ret (- 1, [])
        else case devs (sint (i_major i)) of None \<Rightarrow> ret (- 1, []) | Some d \<Rightarrow> dev_read d ip n)
     else readi_file ip off n)"

definition writei :: "(int \<Rightarrow> 'a kfs_scheme devsw option) \<Rightarrow> nat \<Rightarrow> uchar list \<Rightarrow> nat \<Rightarrow> ('a kfs_scheme, int) kop" where
  "writei devs ip src off =
     bnd (the_inode ip) (\<lambda>i.
     if i_type i = T_DEV then
       (if sint (i_major i) < 0 \<or> sint (i_major i) \<ge> NDEV then ret (- 1)
        else case devs (sint (i_major i)) of None \<Rightarrow> ret (- 1) | Some d \<Rightarrow> dev_write d ip src)
     else writei_file ip src off)"

end
