(* ===== verification/Dir.thy ===== *)
theory Dir
  imports Inode
begin

text \<open>
  Directories and path names of \<^verbatim>\<open>fs.c\<close>. A directory is a file of 16-byte entries. A name is the
  contents of a buffer of \<open>DIRSIZ\<close> bytes; a path is the bytes of a C string up to its NUL. The
  directory routines have checked that the inode is a directory before they read it, so they
  use the part of \<open>readi\<close> and \<open>writei\<close> for files.
\<close>

abbreviation (input) DIRSIZ :: nat where "DIRSIZ \<equiv> 14"
abbreviation (input) DIRENT :: nat where "DIRENT \<equiv> 16"

text \<open>\<^verbatim>\<open>struct dirent\<close>.\<close>

record dirent =
  de_inum :: nat
  de_name :: "uchar list"

definition dec_dirent :: "uchar list \<Rightarrow> dirent" where
  "dec_dirent d = \<lparr>de_inum = unat (get16 d 0), de_name = slice d 2 DIRSIZ\<rparr>"

definition enc_dirent :: "dirent \<Rightarrow> uchar list" where
  "enc_dirent e = le16 (of_nat (de_inum e)) @ de_name e"

text \<open>A string literal as a name.\<close>

definition name14 :: "string \<Rightarrow> uchar list" where
  "name14 s = take DIRSIZ (str s @ replicate DIRSIZ 0)"

definition namecmp :: "uchar list \<Rightarrow> uchar list \<Rightarrow> int" where
  "namecmp s t = ncmp (take DIRSIZ s) (take DIRSIZ t)"

definition read_dirent :: "string \<Rightarrow> nat \<Rightarrow> nat \<Rightarrow> ('a kfs_scheme, dirent) kop" where
  "read_dirent msg dp off =
     bnd (readi_file dp off DIRENT) (\<lambda>(r, bs).
     seq (panic_if (r \<noteq> int DIRENT) msg)
     (ret (dec_dirent bs)))"

function dirlookup_loop :: "nat \<Rightarrow> uchar list \<Rightarrow> nat \<Rightarrow> nat \<Rightarrow> ('a kfs_scheme, (nat \<times> nat) option) kop" where
  "dirlookup_loop dp name sz off =
     (if off < sz then
        bnd (read_dirent ''dirlookup read'' dp off) (\<lambda>de.
        if de_inum de = 0 then dirlookup_loop dp name sz (off + DIRENT)
        else if namecmp name (de_name de) = 0 then
          bnd (the_inode dp) (\<lambda>i.
          bnd (iget (i_dev i) (de_inum de)) (\<lambda>ip.
          ret (Some (ip, off))))
        else dirlookup_loop dp name sz (off + DIRENT))
      else ret None)"
  by pat_completeness auto
termination by (relation "measure (\<lambda>(_, _, sz, off). sz - off)") auto

declare dirlookup_loop.simps [simp del]

text \<open>The inode found and the offset of its entry, which the source stores through \<^verbatim>\<open>poff\<close>.\<close>

definition dirlookup :: "nat \<Rightarrow> uchar list \<Rightarrow> ('a kfs_scheme, (nat \<times> nat) option) kop" where
  "dirlookup dp name =
     bnd (the_inode dp) (\<lambda>i.
     seq (panic_if (i_type i \<noteq> T_DIR) ''dirlookup not DIR'')
     (dirlookup_loop dp name (i_size i) 0))"

text \<open>The search for a free entry in \<open>dirlink\<close>.\<close>

function dirlink_loop :: "nat \<Rightarrow> nat \<Rightarrow> nat \<Rightarrow> ('a kfs_scheme, nat) kop" where
  "dirlink_loop dp sz off =
     (if off < sz then
        bnd (read_dirent ''dirlink read'' dp off) (\<lambda>de.
        if de_inum de = 0 then ret off else dirlink_loop dp sz (off + DIRENT))
      else ret off)"
  by pat_completeness auto
termination by (relation "measure (\<lambda>(_, sz, off). sz - off)") auto

declare dirlink_loop.simps [simp del]

definition dirlink :: "nat \<Rightarrow> uchar list \<Rightarrow> nat \<Rightarrow> ('a kfs_scheme, int) kop" where
  "dirlink dp name inum =
     bnd (dirlookup dp name) (\<lambda>r.
     case r of
       Some (ip, _) \<Rightarrow> seq (iput ip) (ret (- 1))
     | None \<Rightarrow>
         bnd (the_inode dp) (\<lambda>i.
         bnd (dirlink_loop dp (i_size i) 0) (\<lambda>off.
         bnd (writei_file dp (enc_dirent \<lparr>de_inum = inum, de_name = ncpy (take DIRSIZ name)\<rparr>) off) (\<lambda>r.
         seq (panic_if (r \<noteq> int DIRENT) ''dirlink'')
         (ret 0)))))"

section \<open>Paths\<close>

definition slash :: uchar where "slash = chr (CHR ''/'')"

text \<open>The first element of the path goes to the buffer \<open>name\<close>; the result is the rest and the buffer.\<close>

definition skipelem :: "uchar list \<Rightarrow> uchar list \<Rightarrow> (uchar list \<times> uchar list) option" where
  "skipelem path name =
     (let path = dropWhile (\<lambda>c. c = slash) path in
      if path = [] then None
      else
        let s = takeWhile (\<lambda>c. c \<noteq> slash) path;
            rest = dropWhile (\<lambda>c. c \<noteq> slash) path;
            name = (if length s \<ge> DIRSIZ then take DIRSIZ s else splice name 0 (s @ [0]))
        in Some (dropWhile (\<lambda>c. c = slash) rest, name))"

lemma skipelem_shorter:
  assumes "skipelem path name = Some (rest, nm)"
  shows "length rest < length path"
proof -
  define p where "p = dropWhile (\<lambda>c. c = slash) path"
  have ne: "p \<noteq> []" and r: "rest = dropWhile (\<lambda>c. c = slash) (dropWhile (\<lambda>c. c \<noteq> slash) p)"
    using assms unfolding skipelem_def Let_def p_def[symmetric] by (simp_all split: if_splits)
  from ne obtain c cs where c: "p = c # cs" by (cases p) auto
  have "hd p \<noteq> slash" using hd_dropWhile[of "\<lambda>c. c = slash" path] ne unfolding p_def by simp
  then have "dropWhile (\<lambda>c. c \<noteq> slash) p = dropWhile (\<lambda>c. c \<noteq> slash) cs" using c by simp
  then have "length rest \<le> length (dropWhile (\<lambda>c. c \<noteq> slash) cs)" unfolding r by (simp add: length_dropWhile_le)
  also have "\<dots> \<le> length cs" by (rule length_dropWhile_le)
  also have "\<dots> < length p" using c by simp
  also have "\<dots> \<le> length path" unfolding p_def by (rule length_dropWhile_le)
  finally show ?thesis .
qed

function namex_loop :: "uchar list \<Rightarrow> bool \<Rightarrow> uchar list \<Rightarrow> nat \<Rightarrow> ('a kfs_scheme, (nat \<times> uchar list) option) kop" where
  "namex_loop path nameiparent name ip =
     (case skipelem path name of
        None \<Rightarrow>
          if nameiparent then seq (iput ip) (ret None)
          else ret (Some (ip, name))
      | Some (path, name) \<Rightarrow>
          seq (ilock ip)
          (bnd (the_inode ip) (\<lambda>i.
          if i_type i \<noteq> T_DIR then seq (iunlockput ip) (ret None)
          else if nameiparent \<and> path = [] then seq (iunlock ip) (ret (Some (ip, name)))
          else
            bnd (dirlookup ip name) (\<lambda>r.
            case r of
              None \<Rightarrow> seq (iunlockput ip) (ret None)
            | Some (next, _) \<Rightarrow>
                seq (iunlockput ip)
                (namex_loop path nameiparent name next)))))"
  by pat_completeness auto
termination by (relation "measure (\<lambda>(path, _, _, _). length path)") (auto dest: skipelem_shorter)

declare namex_loop.simps [simp del]

text \<open>The result is the inode, with the contents of the name buffer.\<close>

definition namex :: "uchar list \<Rightarrow> bool \<Rightarrow> uchar list \<Rightarrow> ('a kfs_scheme, (nat \<times> uchar list) option) kop" where
  "namex path nameiparent name =
     bnd (if path \<noteq> [] \<and> hd path = slash then iget ROOTDEV ROOTINO
          else bnd (fetch (\<lambda>s. the (p_cwd (ptable s ! the (curproc s))))) idup) (\<lambda>ip.
     namex_loop path nameiparent name ip)"

definition namei :: "uchar list \<Rightarrow> ('a kfs_scheme, nat option) kop" where
  "namei path = bnd (namex path False (replicate DIRSIZ 0)) (\<lambda>r. ret (map_option fst r))"

definition nameiparent :: "uchar list \<Rightarrow> ('a kfs_scheme, (nat \<times> uchar list) option) kop" where
  "nameiparent path = namex path True (replicate DIRSIZ 0)"

end
