(* ===== verification/File.thy ===== *)
theory File
  imports Dir
begin

text \<open>
  The file table of \<^verbatim>\<open>file.c\<close> and the routines on open files: reference counting, reading and
  writing pipes, files and devices, and \<open>pipealloc\<close> of \<^verbatim>\<open>pipe.c\<close>. A file pointer is an index of the
  table.
\<close>

abbreviation (input) NFILE :: nat where "NFILE \<equiv> 100"

datatype fdtype = FD_NONE | FD_PIPE | FD_INODE

record openfile =
  f_type :: fdtype
  f_ref :: int
  f_readable :: bool
  f_writable :: bool
  f_pipe :: uint
  f_ip :: nat
  f_off :: nat

record kfile = kfs +
  ftable :: "openfile list"

definition upd_file :: "nat \<Rightarrow> (openfile \<Rightarrow> openfile) \<Rightarrow> ('a kfile_scheme, unit) kop" where
  "upd_file f g = modify (\<lambda>s. s\<lparr>ftable := (ftable s)[f := g (ftable s ! f)]\<rparr>)"

definition the_file :: "nat \<Rightarrow> ('a kfile_scheme, openfile) kop" where
  "the_file f = fetch (\<lambda>s. ftable s ! f)"

definition filealloc :: "('a kfile_scheme, nat option) kop" where
  "filealloc =
     seq (kacquire L_ftable)
     (bnd (fetch (\<lambda>s. first_idx (\<lambda>f. f_ref f = 0) (ftable s))) (\<lambda>r.
     case r of
       Some f \<Rightarrow>
         seq (upd_file f (\<lambda>x. x\<lparr>f_ref := 1\<rparr>))
         (seq (krelease L_ftable)
         (ret (Some f)))
     | None \<Rightarrow>
         seq (krelease L_ftable)
         (ret None)))"

definition filedup :: "nat \<Rightarrow> ('a kfile_scheme, nat) kop" where
  "filedup f =
     seq (kacquire L_ftable)
     (bnd (the_file f) (\<lambda>x.
     seq (panic_if (f_ref x < 1) ''filedup'')
     (seq (upd_file f (\<lambda>x. x\<lparr>f_ref := f_ref x + 1\<rparr>))
     (seq (krelease L_ftable)
     (ret f)))))"

definition fileclose :: "nat \<Rightarrow> ('a kfile_scheme, unit) kop" where
  "fileclose f =
     seq (kacquire L_ftable)
     (bnd (the_file f) (\<lambda>x.
     seq (panic_if (f_ref x < 1) ''fileclose'')
     (seq (upd_file f (\<lambda>x. x\<lparr>f_ref := f_ref x - 1\<rparr>))
     (bnd (the_file f) (\<lambda>ff.
     if f_ref ff > 0 then krelease L_ftable
     else
       seq (upd_file f (\<lambda>x. x\<lparr>f_ref := 0, f_type := FD_NONE\<rparr>))
       (seq (krelease L_ftable)
       (case f_type ff of
          FD_PIPE \<Rightarrow> pipeclose (f_pipe ff) (f_writable ff)
        | FD_INODE \<Rightarrow>
            seq begin_op
            (seq (iput (f_ip ff))
            end_op)
        | FD_NONE \<Rightarrow> ret ())))))))"

definition filestat :: "nat \<Rightarrow> ('a kfile_scheme, int \<times> stat option) kop" where
  "filestat f =
     bnd (the_file f) (\<lambda>x.
     if f_type x = FD_INODE then
       seq (ilock (f_ip x))
       (bnd (stati (f_ip x)) (\<lambda>st.
       seq (iunlock (f_ip x))
       (ret (0, Some st))))
     else ret (- 1, None))"

text \<open>A C \<^verbatim>\<open>int\<close> passed where the callee takes a \<^verbatim>\<open>uint\<close>.\<close>

definition to_uint :: "int \<Rightarrow> nat" where
  "to_uint n = unat (word_of_int n :: uint)"

definition fileread :: "(int \<Rightarrow> 'a kfile_scheme devsw option) \<Rightarrow> nat \<Rightarrow> int \<Rightarrow> ('a kfile_scheme, int \<times> uchar list) kop" where
  "fileread devs f n =
     bnd (the_file f) (\<lambda>x.
     if \<not> f_readable x then ret (- 1, [])
     else case f_type x of
       FD_PIPE \<Rightarrow> piperead (f_pipe x) n
     | FD_INODE \<Rightarrow>
         seq (ilock (f_ip x))
         (bnd (readi devs (f_ip x) (f_off x) (to_uint n)) (\<lambda>(r, bs).
         seq (if r > 0 then upd_file f (\<lambda>x. x\<lparr>f_off := f_off x + nat r\<rparr>) else ret ())
         (seq (iunlock (f_ip x))
         (ret (r, bs)))))
     | FD_NONE \<Rightarrow> kpanic ''fileread'')"

text \<open>\<^verbatim>\<open>max\<close> of \<open>filewrite\<close>: \<^verbatim>\<open>((MAXOPBLOCKS-1-1-2) / 2) * 512\<close>.\<close>

abbreviation (input) MAXWRITE :: nat where "MAXWRITE \<equiv> 1536"

text \<open>The loop of \<open>filewrite\<close> over the bytes still to write; whether all were written.\<close>

function filewrite_loop :: "(int \<Rightarrow> 'a kfile_scheme devsw option) \<Rightarrow> nat \<Rightarrow> uchar list \<Rightarrow> ('a kfile_scheme, bool) kop" where
  "filewrite_loop devs f src =
     (if src \<noteq> [] then
        let n1 = min (length src) MAXWRITE in
        seq begin_op
        (bnd (the_file f) (\<lambda>x.
        seq (ilock (f_ip x))
        (bnd (writei devs (f_ip x) (take n1 src) (f_off x)) (\<lambda>r.
        seq (if r > 0 then upd_file f (\<lambda>x. x\<lparr>f_off := f_off x + nat r\<rparr>) else ret ())
        (seq (iunlock (f_ip x))
        (seq end_op
        (if r < 0 then ret False
         else
           seq (panic_if (r \<noteq> int n1) ''short filewrite'')
           (filewrite_loop devs f (drop n1 src)))))))))
      else ret True)"
  by pat_completeness auto
termination by (relation "measure (\<lambda>(_, _, src). length src)") (auto simp: min_def)

declare filewrite_loop.simps [simp del]

definition filewrite :: "(int \<Rightarrow> 'a kfile_scheme devsw option) \<Rightarrow> nat \<Rightarrow> uchar list \<Rightarrow> ('a kfile_scheme, int) kop" where
  "filewrite devs f src =
     bnd (the_file f) (\<lambda>x.
     if \<not> f_writable x then ret (- 1)
     else case f_type x of
       FD_PIPE \<Rightarrow> pipewrite (f_pipe x) src
     | FD_INODE \<Rightarrow>
         bnd (filewrite_loop devs f src) (\<lambda>all.
         ret (if all then int (length src) else - 1))
     | FD_NONE \<Rightarrow> kpanic ''filewrite'')"

text \<open>
  \<open>pipealloc\<close> of \<^verbatim>\<open>pipe.c\<close>. The page of the pipe becomes a pipe structure, whose data bytes
  are whatever the page held after the spin lock of 52 bytes. \<open>init_pipe\<close> is the assignments to the new structure.
\<close>

definition init_pipe :: "uint \<Rightarrow> ('a kfile_scheme, unit) kop" where
  "init_pipe p = modify (\<lambda>s. s\<lparr>pipes := (pipes s)(p := Some \<lparr>pi_data = bytes (mem s) (p + 52) PIPESIZE, pi_nread = 0,
     pi_nwrite = 0, pi_readopen = True, pi_writeopen = True\<rparr>)\<rparr>)"

definition pipealloc :: "('a kfile_scheme, (nat \<times> nat) option) kop" where
  "pipealloc =
     bnd filealloc (\<lambda>f0. case f0 of
       None \<Rightarrow> ret None
     | Some f0 \<Rightarrow>
         bnd filealloc (\<lambda>f1. case f1 of
           None \<Rightarrow> seq (fileclose f0) (ret None)
         | Some f1 \<Rightarrow>
             bnd kalloc (\<lambda>p.
             if p = 0 then seq (fileclose f0) (seq (fileclose f1) (ret None))
             else
               seq (init_pipe p)
               (seq (upd_file f0 (\<lambda>x. x\<lparr>f_type := FD_PIPE, f_readable := True, f_writable := False, f_pipe := p\<rparr>))
               (seq (upd_file f1 (\<lambda>x. x\<lparr>f_type := FD_PIPE, f_readable := False, f_writable := True, f_pipe := p\<rparr>))
               (ret (Some (f0, f1))))))))"

end
