(* ===== verification/Procsys.thy ===== *)
theory Procsys
  imports Syscall File
begin

text \<open>
  The process calls of \<^verbatim>\<open>proc.c\<close> that need the page tables and the file system: \<open>growproc\<close>,
  \<open>fork\<close>, \<open>exit\<close>, \<open>wait\<close> and \<open>userinit\<close>. The addresses of \<^verbatim>\<open>forkret\<close> and \<^verbatim>\<open>trapret\<close>, the linker
  symbol \<^verbatim>\<open>data\<close> and the bytes of the first program are arguments. Of \<open>switchuvm\<close> the model has
  the checks; the task state and the page table register are hardware.
\<close>

definition switchuvm :: "nat \<Rightarrow> ('a kproc_scheme, unit) kop" where
  "switchuvm p =
     bnd (fetch (\<lambda>s. ptable s ! p)) (\<lambda>q.
     seq (panic_if (p_kstack q = 0) ''switchuvm: no kstack'')
     (panic_if (p_pgdir q = 0) ''switchuvm: no pgdir''))"

definition growproc :: "int \<Rightarrow> ('a kproc_scheme, int) kop" where
  "growproc n =
     bnd (fetch (\<lambda>s. the (curproc s))) (\<lambda>p.
     bnd (fetch cur_proc) (\<lambda>q.
     bnd (if n > 0 then allocuvm (p_pgdir q) (p_sz q) (p_sz q + word_of_int n)
          else if n < 0 then deallocuvm (p_pgdir q) (p_sz q) (p_sz q + word_of_int n)
          else ret (p_sz q)) (\<lambda>sz.
     if n \<noteq> 0 \<and> sz = 0 then ret (- 1)
     else
       seq (upd_proc p (\<lambda>q. q\<lparr>p_sz := sz\<rparr>))
       (seq (switchuvm p)
       (ret 0)))))"

text \<open>\<open>safestrcpy\<close> into the array \<open>old\<close>, with \<open>n\<close> its length: see \<open>Strings\<close>.\<close>

definition scpy :: "nat \<Rightarrow> uchar list \<Rightarrow> uchar list \<Rightarrow> uchar list" where
  "scpy n old src =
     (let cs = cstr (take (n - 1) src)
      in splice old 0 (cs @ (if length cs < length (take (n - 1) src) then [0, 0] else [0])))"

text \<open>The loop of \<open>fork\<close> over the open files.\<close>

definition fork_fd :: "nat \<Rightarrow> nat \<Rightarrow> nat \<Rightarrow> ('a kfile_scheme, unit) kop" where
  "fork_fd cur np i =
     bnd (fetch (\<lambda>s. p_ofile (ptable s ! cur) ! i)) (\<lambda>f.
     case f of
       None \<Rightarrow> ret ()
     | Some f \<Rightarrow>
         bnd (filedup f) (\<lambda>f.
         upd_proc np (\<lambda>q. q\<lparr>p_ofile := (p_ofile q)[i := Some f]\<rparr>)))"

definition fork :: "uint \<Rightarrow> uint \<Rightarrow> uint \<Rightarrow> ('a kfile_scheme, int) kop" where
  "fork forkret trapret dat =
     bnd (allocproc forkret trapret) (\<lambda>r. case r of
       None \<Rightarrow> ret (- 1)
     | Some np \<Rightarrow>
         bnd (fetch (\<lambda>s. the (curproc s))) (\<lambda>cur.
         bnd (fetch cur_proc) (\<lambda>q.
         bnd (copyuvm dat (p_pgdir q) (p_sz q)) (\<lambda>d.
         seq (upd_proc np (\<lambda>n. n\<lparr>p_pgdir := d\<rparr>))
         (if d = 0 then
            bnd (fetch (\<lambda>s. p_kstack (ptable s ! np))) (\<lambda>k.
            seq (kfree k)
            (seq (upd_proc np (\<lambda>n. n\<lparr>p_kstack := 0, p_state := UNUSED\<rparr>))
            (ret (- 1))))
          else
            seq (upd_proc np (\<lambda>n. n\<lparr>p_sz := p_sz q, p_parent := Some cur, p_tf := (p_tf q)\<lparr>tf_eax := 0\<rparr>\<rparr>))
            (seq (foreach [0..<NOFILE] (fork_fd cur np))
            (bnd (idup (the (p_cwd q))) (\<lambda>cwd.
            seq (upd_proc np (\<lambda>n. n\<lparr>p_cwd := Some cwd, p_name := scpy 16 (p_name n) (p_name q)\<rparr>))
            (bnd (fetch (\<lambda>s. p_pid (ptable s ! np))) (\<lambda>pid.
            seq (kacquire L_ptable)
            (seq (upd_proc np (\<lambda>n. n\<lparr>p_state := RUNNABLE\<rparr>))
            (seq (krelease L_ptable)
            (ret pid)))))))))))))"

definition exit_fd :: "nat \<Rightarrow> nat \<Rightarrow> ('a kfile_scheme, unit) kop" where
  "exit_fd cur fd =
     bnd (fetch (\<lambda>s. p_ofile (ptable s ! cur) ! fd)) (\<lambda>f.
     case f of
       None \<Rightarrow> ret ()
     | Some f \<Rightarrow>
         seq (fileclose f)
         (upd_proc cur (\<lambda>q. q\<lparr>p_ofile := (p_ofile q)[fd := None]\<rparr>)))"

definition exit :: "('a kfile_scheme, unit) kop" where
  "exit =
     bnd (fetch (\<lambda>s. the (curproc s))) (\<lambda>cur.
     bnd (fetch initproc) (\<lambda>ini.
     seq (panic_if (Some cur = ini) ''init exiting'')
     (seq (foreach [0..<NOFILE] (exit_fd cur))
     (seq begin_op
     (bnd (fetch (\<lambda>s. the (p_cwd (ptable s ! cur)))) (\<lambda>cwd.
     seq (iput cwd)
     (seq end_op
     (seq (upd_proc cur (\<lambda>q. q\<lparr>p_cwd := None\<rparr>))
     exit_end))))))))"

text \<open>\<open>wait\<close> from the head of its loop on; with children but no zombie the process sleeps.\<close>

definition wait_loop :: "nat \<Rightarrow> ('a kproc_scheme, int) kop" where
  "wait_loop cur =
     bnd (fetch (\<lambda>s. wait_scan cur (ptable s))) (\<lambda>(havekids, z).
     case z of
       Some i \<Rightarrow>
         bnd (fetch (\<lambda>s. ptable s ! i)) (\<lambda>q.
         seq (kfree (p_kstack q))
         (seq (upd_proc i (\<lambda>q. q\<lparr>p_kstack := 0\<rparr>))
         (seq (freevm (p_pgdir q))
         (seq (upd_proc i reap)
         (seq (krelease L_ptable)
         (ret (p_pid q)))))))
     | None \<Rightarrow>
         bnd (fetch (\<lambda>s. p_killed (ptable s ! cur))) (\<lambda>killed.
         if \<not> havekids \<or> killed then seq (krelease L_ptable) (ret (- 1))
         else seq (sleep (ChProc cur) L_ptable) (ret 0)))"

definition wait :: "('a kproc_scheme, int) kop" where
  "wait =
     bnd (fetch (\<lambda>s. the (curproc s))) (\<lambda>cur.
     seq (kacquire L_ptable)
     (wait_loop cur))"

text \<open>
  \<open>userinit\<close> does not check the result of \<open>allocproc\<close>; a null pointer counts as a panic here.
  \<^verbatim>\<open>(SEG_UCODE << 3) | DPL_USER\<close> is 0x1B, \<^verbatim>\<open>(SEG_UDATA << 3) | DPL_USER\<close> is 0x23 and \<^verbatim>\<open>FL_IF\<close> 0x200.
\<close>

definition userinit :: "uint \<Rightarrow> uint \<Rightarrow> uint \<Rightarrow> uchar list \<Rightarrow> ('a kfile_scheme, unit) kop" where
  "userinit forkret trapret dat initcode =
     bnd (allocproc forkret trapret) (\<lambda>r. case r of
       None \<Rightarrow> kpanic ''null pointer''
     | Some p \<Rightarrow>
         seq (modify (\<lambda>s. s\<lparr>initproc := Some p\<rparr>))
         (bnd (setupkvm dat) (\<lambda>d.
         seq (upd_proc p (\<lambda>q. q\<lparr>p_pgdir := d\<rparr>))
         (seq (panic_if (d = 0) ''userinit: out of memory?'')
         (seq (inituvm d initcode)
         (seq (upd_proc p (\<lambda>q. q\<lparr>p_sz := PGSIZE,
            p_tf := zero_tf\<lparr>tf_cs := 0x1B, tf_ds := 0x23, tf_es := 0x23, tf_ss := 0x23, tf_eflags := 0x200,
              tf_esp := PGSIZE, tf_eip := 0\<rparr>,
            p_name := scpy 16 (p_name q) (str ''initcode'' @ [0])\<rparr>))
         (bnd (namei [slash]) (\<lambda>cwd.
         seq (upd_proc p (\<lambda>q. q\<lparr>p_cwd := cwd\<rparr>))
         (seq (kacquire L_ptable)
         (seq (upd_proc p (\<lambda>q. q\<lparr>p_state := RUNNABLE\<rparr>))
         (krelease L_ptable)))))))))))"

end
