(* ===== verification/Exec.thy ===== *)
theory Exec
  imports Procsys
begin

text \<open>
  \<^verbatim>\<open>exec.c\<close> with the ELF structures of \<^verbatim>\<open>elf.h\<close>, and \<open>loaduvm\<close> of \<^verbatim>\<open>vm.c\<close>. The path and the argument
  strings are given by their bytes. A jump to the label \<^verbatim>\<open>bad\<close> is the value \<open>None\<close> of the part of the
  routine it leaves.
\<close>

abbreviation (input) MAXARG :: nat where "MAXARG \<equiv> 32"
abbreviation (input) ELF_MAGIC :: uint where "ELF_MAGIC \<equiv> 0x464C457F"
abbreviation (input) ELFHDR :: nat where "ELFHDR \<equiv> 52"
abbreviation (input) PROGHDR :: nat where "PROGHDR \<equiv> 32"

text \<open>The fields of \<^verbatim>\<open>struct elfhdr\<close> and \<^verbatim>\<open>struct proghdr\<close> that the kernel uses.\<close>

record elfhdr =
  eh_magic :: uint
  eh_entry :: uint
  eh_phoff :: uint
  eh_phnum :: ushort

record proghdr =
  ph_type :: uint
  ph_off :: uint
  ph_vaddr :: uint
  ph_filesz :: uint
  ph_memsz :: uint

definition dec_elfhdr :: "uchar list \<Rightarrow> elfhdr" where
  "dec_elfhdr d = \<lparr>eh_magic = get32 d 0, eh_entry = get32 d 24, eh_phoff = get32 d 28, eh_phnum = get16 d 44\<rparr>"

definition dec_proghdr :: "uchar list \<Rightarrow> proghdr" where
  "dec_proghdr d = \<lparr>ph_type = get32 d 0, ph_off = get32 d 4, ph_vaddr = get32 d 8, ph_filesz = get32 d 16,
     ph_memsz = get32 d 20\<rparr>"

function loaduvm_loop :: "(int \<Rightarrow> 'a kfs_scheme devsw option) \<Rightarrow> uint \<Rightarrow> uint \<Rightarrow> nat \<Rightarrow> uint \<Rightarrow> uint \<Rightarrow> nat \<Rightarrow> ('a kfs_scheme, int) kop" where
  "loaduvm_loop devs pgdir addr ip offset sz i =
     (if i < unat sz then
        bnd (walkpgdir pgdir (addr + of_nat i) False) (\<lambda>pte.
        seq (panic_if (pte = 0) ''loaduvm: address should exist'')
        (bnd (load pte) (\<lambda>e.
        let n = (if unat sz - i < 4096 then unat sz - i else 4096) in
        bnd (readi devs ip (unat (offset + of_nat i)) n) (\<lambda>(r, bs).
        if r \<noteq> int n then ret (- 1)
        else
          seq (modify (\<lambda>s. s\<lparr>mem := put_bytes (mem s) (P2V (PTE_ADDR e)) bs\<rparr>))
          (loaduvm_loop devs pgdir addr ip offset sz (i + 4096))))))
      else ret 0)"
  by pat_completeness auto
termination by (relation "measure (\<lambda>(_, _, _, _, _, sz, i). unat sz - i)") auto

declare loaduvm_loop.simps [simp del]

definition loaduvm :: "(int \<Rightarrow> 'a kfs_scheme devsw option) \<Rightarrow> uint \<Rightarrow> uint \<Rightarrow> nat \<Rightarrow> uint \<Rightarrow> uint \<Rightarrow> ('a kfs_scheme, int) kop" where
  "loaduvm devs pgdir addr ip offset sz =
     seq (panic_if (addr mod PGSIZE \<noteq> 0) ''loaduvm: addr must be page aligned'')
     (loaduvm_loop devs pgdir addr ip offset sz 0)"

text \<open>The loop over the program headers: the size of the image, or \<open>None\<close>.\<close>

fun exec_load :: "(int \<Rightarrow> 'a kfs_scheme devsw option) \<Rightarrow> nat \<Rightarrow> uint \<Rightarrow> nat \<Rightarrow> uint \<Rightarrow> uint \<Rightarrow> ('a kfs_scheme, uint option) kop" where
  "exec_load devs ip pgdir 0 off sz = ret (Some sz)"
| "exec_load devs ip pgdir (Suc k) off sz =
     bnd (readi devs ip (unat off) PROGHDR) (\<lambda>(r, bs).
     if r \<noteq> int PROGHDR then ret None
     else
       let ph = dec_proghdr bs in
       if ph_type ph \<noteq> 1 then exec_load devs ip pgdir k (off + of_nat PROGHDR) sz
       else if ph_memsz ph < ph_filesz ph then ret None
       else if ph_vaddr ph + ph_memsz ph < ph_vaddr ph then ret None
       else
         bnd (allocuvm pgdir sz (ph_vaddr ph + ph_memsz ph)) (\<lambda>sz.
         if sz = 0 then ret None
         else if ph_vaddr ph mod PGSIZE \<noteq> 0 then ret None
         else
           bnd (loaduvm devs pgdir (ph_vaddr ph) ip (ph_off ph) (ph_filesz ph)) (\<lambda>r.
           if r < 0 then ret None
           else exec_load devs ip pgdir k (off + of_nat PROGHDR) sz)))"

text \<open>
  The loop that pushes the argument strings: the stack pointer and the addresses of the
  strings (the entries of \<^verbatim>\<open>ustack\<close> from the fourth on), or \<open>None\<close>.
\<close>

fun exec_args :: "uint \<Rightarrow> uchar list list \<Rightarrow> uint \<Rightarrow> uint list \<Rightarrow> ('a kmem_scheme, (uint \<times> uint list) option) kop" where
  "exec_args pgdir [] sp us = ret (Some (sp, us))"
| "exec_args pgdir (arg # argv) sp us =
     (if length us \<ge> MAXARG then ret None
      else
        let sp = (sp - (of_nat (length arg) + 1)) AND NOT 3 in
        bnd (copyout pgdir sp (arg @ [0])) (\<lambda>r.
        if r < 0 then ret None
        else exec_args pgdir argv sp (us @ [sp])))"

text \<open>The rest of the stack, \<^verbatim>\<open>ustack\<close>: a fake return address, \<^verbatim>\<open>argc\<close>, \<^verbatim>\<open>argv\<close> and the array.\<close>

definition ustack :: "uint \<Rightarrow> uint list \<Rightarrow> uint list" where
  "ustack sp us = [0xFFFFFFFF, of_nat (length us), sp - (of_nat (length us) + 1) * 4] @ us @ [0]"

text \<open>The part of a path after its last slash.\<close>

definition last_elem :: "uchar list \<Rightarrow> uchar list" where
  "last_elem path = rev (takeWhile (\<lambda>c. c \<noteq> slash) (rev path))"

text \<open>From the allocation of the user stack on; \<open>None\<close> is a jump to \<^verbatim>\<open>bad\<close>, where \<^verbatim>\<open>ip\<close> is 0.\<close>

definition exec_stack :: "uint \<Rightarrow> uint \<Rightarrow> uchar list list \<Rightarrow> ('a kmem_scheme, (uint \<times> uint) option) kop" where
  "exec_stack pgdir sz argv =
     (let sz = PGROUNDUP sz in
      bnd (allocuvm pgdir sz (sz + 2 * PGSIZE)) (\<lambda>sz.
      if sz = 0 then ret None
      else
        seq (clearpteu pgdir (sz - 2 * PGSIZE))
        (bnd (exec_args pgdir argv sz []) (\<lambda>r. case r of
           None \<Rightarrow> ret None
         | Some (sp, us) \<Rightarrow>
             let st = ustack sp us; sp = sp - (3 + of_nat (length us) + 1) * 4 in
             bnd (copyout pgdir sp (concat (map le32 st))) (\<lambda>r.
             if r < 0 then ret None else ret (Some (sz, sp)))))))"

definition exec_bad :: "uint \<Rightarrow> nat option \<Rightarrow> ('a kfs_scheme, int) kop" where
  "exec_bad pgdir ip =
     seq (if pgdir \<noteq> 0 then freevm pgdir else ret ())
     (seq (case ip of None \<Rightarrow> ret () | Some ip \<Rightarrow> seq (iunlockput ip) end_op)
     (ret (- 1)))"

definition exec_commit :: "uint \<Rightarrow> uint \<Rightarrow> uint \<Rightarrow> uint \<Rightarrow> uchar list \<Rightarrow> ('a kproc_scheme, int) kop" where
  "exec_commit pgdir sz eip sp path =
     bnd (fetch (\<lambda>s. the (curproc s))) (\<lambda>cur.
     seq (upd_proc cur (\<lambda>q. q\<lparr>p_name := scpy 16 (p_name q) (last_elem path @ [0])\<rparr>))
     (bnd (fetch (\<lambda>s. p_pgdir (ptable s ! cur))) (\<lambda>oldpgdir.
     seq (upd_proc cur (\<lambda>q. q\<lparr>p_pgdir := pgdir, p_sz := sz, p_tf := (p_tf q)\<lparr>tf_eip := eip, tf_esp := sp\<rparr>\<rparr>))
     (seq (switchuvm cur)
     (seq (freevm oldpgdir)
     (ret 0))))))"

definition exec :: "(int \<Rightarrow> 'a kfs_scheme devsw option) \<Rightarrow> uint \<Rightarrow> uchar list \<Rightarrow> uchar list list \<Rightarrow> ('a kfs_scheme, int) kop" where
  "exec devs dat path argv =
     seq begin_op
     (bnd (namei path) (\<lambda>r. case r of
       None \<Rightarrow> seq end_op (ret (- 1))
     | Some ip \<Rightarrow>
         seq (ilock ip)
         (bnd (readi devs ip 0 ELFHDR) (\<lambda>(r, bs).
         if r \<noteq> int ELFHDR then exec_bad 0 (Some ip)
         else
           let elf = dec_elfhdr bs in
           if eh_magic elf \<noteq> ELF_MAGIC then exec_bad 0 (Some ip)
           else
             bnd (setupkvm dat) (\<lambda>pgdir.
             if pgdir = 0 then exec_bad 0 (Some ip)
             else
               bnd (exec_load devs ip pgdir (unat (eh_phnum elf)) (eh_phoff elf) 0) (\<lambda>r. case r of
                 None \<Rightarrow> exec_bad pgdir (Some ip)
               | Some sz \<Rightarrow>
                   seq (iunlockput ip)
                   (seq end_op
                   (bnd (exec_stack pgdir sz argv) (\<lambda>r. case r of
                      None \<Rightarrow> exec_bad pgdir None
                    | Some (sz, sp) \<Rightarrow> exec_commit pgdir sz (eh_entry elf) sp path)))))))))"

end
