(* ===== verification/Sysfile.thy ===== *)
theory Sysfile
  imports Exec
begin

text \<open>
  The system calls on files, \<^verbatim>\<open>sysfile.c\<close>. Arguments come from the user stack through \<open>Syscall\<close>;
  results are stored in user memory where the source does so. \<open>devs\<close> is the device table and \<open>dat\<close>
  the linker symbol \<^verbatim>\<open>data\<close>.
\<close>

abbreviation (input) O_RDONLY :: uint where "O_RDONLY \<equiv> 0"
abbreviation (input) O_WRONLY :: uint where "O_WRONLY \<equiv> 1"
abbreviation (input) O_RDWR :: uint where "O_RDWR \<equiv> 2"
abbreviation (input) O_CREATE :: uint where "O_CREATE \<equiv> 0x200"

definition argfd :: "nat \<Rightarrow> ('a kfile_scheme, (nat \<times> nat) option) kop" where
  "argfd n =
     bnd (argint n) (\<lambda>r. case r of
       None \<Rightarrow> ret None
     | Some w \<Rightarrow>
         let fd = sint w in
         if fd < 0 \<or> fd \<ge> int NOFILE then ret None
         else
           bnd (fetch (\<lambda>s. p_ofile (cur_proc s) ! nat fd)) (\<lambda>f. case f of
             None \<Rightarrow> ret None
           | Some f \<Rightarrow> ret (Some (nat fd, f))))"

definition set_ofile :: "nat \<Rightarrow> nat option \<Rightarrow> ('a kfile_scheme, unit) kop" where
  "set_ofile fd f =
     bnd (fetch (\<lambda>s. the (curproc s))) (\<lambda>p.
     upd_proc p (\<lambda>q. q\<lparr>p_ofile := (p_ofile q)[fd := f]\<rparr>))"

definition fdalloc :: "nat \<Rightarrow> ('a kfile_scheme, int) kop" where
  "fdalloc f =
     bnd (fetch (\<lambda>s. first_idx (\<lambda>x. x = None) (take NOFILE (p_ofile (cur_proc s))))) (\<lambda>r. case r of
       Some fd \<Rightarrow> seq (set_ofile fd (Some f)) (ret (int fd))
     | None \<Rightarrow> ret (- 1))"

definition sys_dup :: "('a kfile_scheme, int) kop" where
  "sys_dup =
     bnd (argfd 0) (\<lambda>r. case r of
       None \<Rightarrow> ret (- 1)
     | Some (_, f) \<Rightarrow>
         bnd (fdalloc f) (\<lambda>fd.
         if fd < 0 then ret (- 1)
         else seq (filedup f) (ret fd)))"

text \<open>\<^verbatim>\<open>argfd(0, 0, &f) < 0 || argint(2, &n) < 0 || argptr(1, &p, n) < 0\<close>.\<close>

definition rw_args :: "('a kfile_scheme, (nat \<times> int \<times> uint) option) kop" where
  "rw_args =
     bnd (argfd 0) (\<lambda>r. case r of
       None \<Rightarrow> ret None
     | Some (_, f) \<Rightarrow>
         bnd (argint 2) (\<lambda>r. case r of
           None \<Rightarrow> ret None
         | Some n \<Rightarrow>
             bnd (argptr 1 (sint n)) (\<lambda>r. case r of
               None \<Rightarrow> ret None
             | Some p \<Rightarrow> ret (Some (f, sint n, p)))))"

definition sys_read :: "(int \<Rightarrow> 'a kfile_scheme devsw option) \<Rightarrow> ('a kfile_scheme, int) kop" where
  "sys_read devs =
     bnd rw_args (\<lambda>r. case r of
       None \<Rightarrow> ret (- 1)
     | Some (f, n, p) \<Rightarrow>
         bnd (fileread devs f n) (\<lambda>(r, bs).
         seq (uwrite p bs)
         (ret r)))"

definition sys_write :: "(int \<Rightarrow> 'a kfile_scheme devsw option) \<Rightarrow> ('a kfile_scheme, int) kop" where
  "sys_write devs =
     bnd rw_args (\<lambda>r. case r of
       None \<Rightarrow> ret (- 1)
     | Some (f, n, p) \<Rightarrow>
         bnd (uread p (nat n)) (\<lambda>bs.
         filewrite devs f bs))"

definition sys_close :: "('a kfile_scheme, int) kop" where
  "sys_close =
     bnd (argfd 0) (\<lambda>r. case r of
       None \<Rightarrow> ret (- 1)
     | Some (fd, f) \<Rightarrow>
         seq (set_ofile fd None)
         (seq (fileclose f)
         (ret 0)))"

text \<open>\<^verbatim>\<open>struct stat\<close> in user memory: 20 bytes with two gaps.\<close>

definition uwrite_stat :: "uint \<Rightarrow> stat \<Rightarrow> ('a kproc_scheme, unit) kop" where
  "uwrite_stat p st =
     seq (uwrite (p + 4) (le32 (of_nat (st_dev st))))
     (seq (uwrite (p + 8) (le32 (of_nat (st_ino st))))
     (seq (uwrite p (le16 (st_type st)))
     (seq (uwrite (p + 12) (le16 (st_nlink st)))
     (uwrite (p + 16) (le32 (of_nat (st_size st)))))))"

definition sys_fstat :: "('a kfile_scheme, int) kop" where
  "sys_fstat =
     bnd (argfd 0) (\<lambda>r. case r of
       None \<Rightarrow> ret (- 1)
     | Some (_, f) \<Rightarrow>
         bnd (argptr 1 20) (\<lambda>r. case r of
           None \<Rightarrow> ret (- 1)
         | Some p \<Rightarrow>
             bnd (filestat f) (\<lambda>(r, st).
             seq (case st of None \<Rightarrow> ret () | Some st \<Rightarrow> uwrite_stat p st)
             (ret r))))"

text \<open>An operation that ends the transaction and fails.\<close>

definition fail_op :: "('a klog_scheme, int) kop" where
  "fail_op = seq end_op (ret (- 1))"

definition sys_link_bad :: "nat \<Rightarrow> ('a kfs_scheme, int) kop" where
  "sys_link_bad ip =
     seq (ilock ip)
     (seq (upd_inode ip (\<lambda>i. i\<lparr>i_nlink := i_nlink i - 1\<rparr>))
     (seq (iupdate ip)
     (seq (iunlockput ip)
     fail_op)))"

definition sys_link :: "('a kfile_scheme, int) kop" where
  "sys_link =
     bnd (argstr 0) (\<lambda>a. case a of None \<Rightarrow> ret (- 1) | Some old \<Rightarrow>
     bnd (argstr 1) (\<lambda>a. case a of None \<Rightarrow> ret (- 1) | Some new \<Rightarrow>
     seq begin_op
     (bnd (namei old) (\<lambda>r. case r of
       None \<Rightarrow> fail_op
     | Some ip \<Rightarrow>
         seq (ilock ip)
         (bnd (the_inode ip) (\<lambda>i.
         if i_type i = T_DIR then seq (iunlockput ip) fail_op
         else
           seq (upd_inode ip (\<lambda>i. i\<lparr>i_nlink := i_nlink i + 1\<rparr>))
           (seq (iupdate ip)
           (seq (iunlock ip)
           (bnd (nameiparent new) (\<lambda>r. case r of
             None \<Rightarrow> sys_link_bad ip
           | Some (dp, name) \<Rightarrow>
               seq (ilock dp)
               (bnd (the_inode dp) (\<lambda>d.
               bnd (the_inode ip) (\<lambda>i.
               bnd (if i_dev d \<noteq> i_dev i then ret (- 1) else dirlink dp name (i_inum i)) (\<lambda>r.
               if r < 0 then seq (iunlockput dp) (sys_link_bad ip)
               else
                 seq (iunlockput dp)
                 (seq (iput ip)
                 (seq end_op
                 (ret 0)))))))))))))))))"

text \<open>The loop of \<open>isdirempty\<close>.\<close>

function isdirempty_loop :: "nat \<Rightarrow> nat \<Rightarrow> nat \<Rightarrow> ('a kfs_scheme, bool) kop" where
  "isdirempty_loop dp sz off =
     (if off < sz then
        bnd (read_dirent ''isdirempty: readi'' dp off) (\<lambda>de.
        if de_inum de \<noteq> 0 then ret False else isdirempty_loop dp sz (off + DIRENT))
      else ret True)"
  by pat_completeness auto
termination by (relation "measure (\<lambda>(_, sz, off). sz - off)") auto

declare isdirempty_loop.simps [simp del]

definition isdirempty :: "nat \<Rightarrow> ('a kfs_scheme, bool) kop" where
  "isdirempty dp = bnd (the_inode dp) (\<lambda>i. isdirempty_loop dp (i_size i) (2 * DIRENT))"

definition sys_unlink :: "('a kfile_scheme, int) kop" where
  "sys_unlink =
     bnd (argstr 0) (\<lambda>a. case a of None \<Rightarrow> ret (- 1) | Some path \<Rightarrow>
     seq begin_op
     (bnd (nameiparent path) (\<lambda>r. case r of
       None \<Rightarrow> fail_op
     | Some (dp, name) \<Rightarrow>
         seq (ilock dp)
         (if namecmp name (name14 ''.'') = 0 \<or> namecmp name (name14 ''..'') = 0 then
            seq (iunlockput dp) fail_op
          else
            bnd (dirlookup dp name) (\<lambda>r. case r of
              None \<Rightarrow> seq (iunlockput dp) fail_op
            | Some (ip, off) \<Rightarrow>
                seq (ilock ip)
                (bnd (the_inode ip) (\<lambda>i.
                seq (panic_if (sint (i_nlink i) < 1) ''unlink: nlink < 1'')
                (bnd (if i_type i = T_DIR then isdirempty ip else ret True) (\<lambda>empty.
                if \<not> empty then seq (iunlockput ip) (seq (iunlockput dp) fail_op)
                else
                  bnd (writei_file dp (replicate DIRENT 0) off) (\<lambda>r.
                  seq (panic_if (r \<noteq> int DIRENT) ''unlink: writei'')
                  (seq (if i_type i = T_DIR then
                          seq (upd_inode dp (\<lambda>d. d\<lparr>i_nlink := i_nlink d - 1\<rparr>))
                          (iupdate dp)
                        else ret ())
                  (seq (iunlockput dp)
                  (seq (upd_inode ip (\<lambda>i. i\<lparr>i_nlink := i_nlink i - 1\<rparr>))
                  (seq (iupdate ip)
                  (seq (iunlockput ip)
                  (seq end_op
                  (ret 0)))))))))))))))))"

definition create :: "uchar list \<Rightarrow> ushort \<Rightarrow> ushort \<Rightarrow> ushort \<Rightarrow> ('a kfs_scheme, nat option) kop" where
  "create path type major minor =
     bnd (nameiparent path) (\<lambda>r. case r of
       None \<Rightarrow> ret None
     | Some (dp, name) \<Rightarrow>
         seq (ilock dp)
         (bnd (dirlookup dp name) (\<lambda>r. case r of
           Some (ip, _) \<Rightarrow>
             seq (iunlockput dp)
             (seq (ilock ip)
             (bnd (the_inode ip) (\<lambda>i.
             if type = T_FILE \<and> i_type i = T_FILE then ret (Some ip)
             else seq (iunlockput ip) (ret None))))
         | None \<Rightarrow>
             bnd (the_inode dp) (\<lambda>d.
             bnd (ialloc (i_dev d) type) (\<lambda>ip.
             seq (ilock ip)
             (seq (upd_inode ip (\<lambda>i. i\<lparr>i_major := major, i_minor := minor, i_nlink := 1\<rparr>))
             (seq (iupdate ip)
             (seq (if type = T_DIR then
                     seq (upd_inode dp (\<lambda>d. d\<lparr>i_nlink := i_nlink d + 1\<rparr>))
                     (seq (iupdate dp)
                     (bnd (the_inode ip) (\<lambda>i.
                     bnd (dirlink ip (name14 ''.'') (i_inum i)) (\<lambda>r1.
                     bnd (if r1 < 0 then ret (- 1) else dirlink ip (name14 ''..'') (i_inum d)) (\<lambda>r2.
                     panic_if (r2 < 0) ''create dots'')))))
                   else ret ())
             (bnd (the_inode ip) (\<lambda>i.
             bnd (dirlink dp name (i_inum i)) (\<lambda>r.
             seq (panic_if (r < 0) ''create: dirlink'')
             (seq (iunlockput dp)
             (ret (Some ip))))))))))))))"

definition open_file :: "nat \<Rightarrow> uint \<Rightarrow> ('a kfile_scheme, int) kop" where
  "open_file ip omode =
     bnd filealloc (\<lambda>f. case f of
       None \<Rightarrow> seq (iunlockput ip) fail_op
     | Some f \<Rightarrow>
         bnd (fdalloc f) (\<lambda>fd.
         if fd < 0 then seq (fileclose f) (seq (iunlockput ip) fail_op)
         else
           seq (iunlock ip)
           (seq end_op
           (seq (upd_file f (\<lambda>x. x\<lparr>f_type := FD_INODE, f_ip := ip, f_off := 0,
              f_readable := (omode AND O_WRONLY = 0),
              f_writable := (omode AND O_WRONLY \<noteq> 0 \<or> omode AND O_RDWR \<noteq> 0)\<rparr>))
           (ret fd)))))"

definition sys_open :: "('a kfile_scheme, int) kop" where
  "sys_open =
     bnd (argstr 0) (\<lambda>a. case a of None \<Rightarrow> ret (- 1) | Some path \<Rightarrow>
     bnd (argint 1) (\<lambda>a. case a of None \<Rightarrow> ret (- 1) | Some omode \<Rightarrow>
     seq begin_op
     (if omode AND O_CREATE \<noteq> 0 then
        bnd (create path T_FILE 0 0) (\<lambda>r. case r of
          None \<Rightarrow> fail_op
        | Some ip \<Rightarrow> open_file ip omode)
      else
        bnd (namei path) (\<lambda>r. case r of
          None \<Rightarrow> fail_op
        | Some ip \<Rightarrow>
            seq (ilock ip)
            (bnd (the_inode ip) (\<lambda>i.
            if i_type i = T_DIR \<and> omode \<noteq> O_RDONLY then seq (iunlockput ip) fail_op
            else open_file ip omode))))))"

definition sys_mkdir :: "('a kfile_scheme, int) kop" where
  "sys_mkdir =
     seq begin_op
     (bnd (argstr 0) (\<lambda>a.
     bnd (case a of None \<Rightarrow> ret None | Some path \<Rightarrow> create path T_DIR 0 0) (\<lambda>r. case r of
       None \<Rightarrow> fail_op
     | Some ip \<Rightarrow>
         seq (iunlockput ip)
         (seq end_op
         (ret 0)))))"

definition sys_mknod :: "('a kfile_scheme, int) kop" where
  "sys_mknod =
     seq begin_op
     (bnd (argstr 0) (\<lambda>a. case a of None \<Rightarrow> fail_op | Some path \<Rightarrow>
     bnd (argint 1) (\<lambda>a. case a of None \<Rightarrow> fail_op | Some major \<Rightarrow>
     bnd (argint 2) (\<lambda>a. case a of None \<Rightarrow> fail_op | Some minor \<Rightarrow>
     bnd (create path T_DEV (ucast major) (ucast minor)) (\<lambda>r. case r of
       None \<Rightarrow> fail_op
     | Some ip \<Rightarrow>
         seq (iunlockput ip)
         (seq end_op
         (ret 0)))))))"

definition sys_chdir :: "('a kfile_scheme, int) kop" where
  "sys_chdir =
     seq begin_op
     (bnd (argstr 0) (\<lambda>a.
     bnd (case a of None \<Rightarrow> ret None | Some path \<Rightarrow> namei path) (\<lambda>r. case r of
       None \<Rightarrow> fail_op
     | Some ip \<Rightarrow>
         seq (ilock ip)
         (bnd (the_inode ip) (\<lambda>i.
         if i_type i \<noteq> T_DIR then seq (iunlockput ip) fail_op
         else
           seq (iunlock ip)
           (bnd (fetch (\<lambda>s. the (p_cwd (cur_proc s)))) (\<lambda>old.
           seq (iput old)
           (seq end_op
           (bnd (fetch (\<lambda>s. the (curproc s))) (\<lambda>p.
           seq (upd_proc p (\<lambda>q. q\<lparr>p_cwd := Some ip\<rparr>))
           (ret 0)))))))))))"

text \<open>The loop of \<open>sys_exec\<close> that fetches the argument strings, from number \<open>i\<close> on.\<close>

function sys_exec_args :: "uint \<Rightarrow> nat \<Rightarrow> ('a kproc_scheme, uchar list list option) kop" where
  "sys_exec_args uargv i =
     (if i \<ge> MAXARG then ret None
      else
        bnd (fetchint (uargv + 4 * of_nat i)) (\<lambda>r. case r of
          None \<Rightarrow> ret None
        | Some uarg \<Rightarrow>
            if uarg = 0 then ret (Some [])
            else
              bnd (fetchstr uarg) (\<lambda>r. case r of
                None \<Rightarrow> ret None
              | Some arg \<Rightarrow>
                  bnd (sys_exec_args uargv (i + 1)) (\<lambda>r. ret (map_option (\<lambda>args. arg # args) r)))))"
  by pat_completeness auto
termination by (relation "measure (\<lambda>(_, i). MAXARG - i)") auto

declare sys_exec_args.simps [simp del]

definition sys_exec :: "(int \<Rightarrow> 'a kfile_scheme devsw option) \<Rightarrow> uint \<Rightarrow> ('a kfile_scheme, int) kop" where
  "sys_exec devs dat =
     bnd (argstr 0) (\<lambda>a. case a of None \<Rightarrow> ret (- 1) | Some path \<Rightarrow>
     bnd (argint 1) (\<lambda>a. case a of None \<Rightarrow> ret (- 1) | Some uargv \<Rightarrow>
     bnd (sys_exec_args uargv 0) (\<lambda>a. case a of None \<Rightarrow> ret (- 1) | Some argv \<Rightarrow>
     exec devs dat path argv)))"

definition sys_pipe :: "('a kfile_scheme, int) kop" where
  "sys_pipe =
     bnd (argptr 0 8) (\<lambda>a. case a of None \<Rightarrow> ret (- 1) | Some fd \<Rightarrow>
     bnd pipealloc (\<lambda>r. case r of
       None \<Rightarrow> ret (- 1)
     | Some (rfile, wfile) \<Rightarrow>
         bnd (fdalloc rfile) (\<lambda>fd0.
         bnd (if fd0 < 0 then ret (- 1) else fdalloc wfile) (\<lambda>fd1.
         if fd0 < 0 \<or> fd1 < 0 then
           seq (if fd0 \<ge> 0 then set_ofile (nat fd0) None else ret ())
           (seq (fileclose rfile)
           (seq (fileclose wfile)
           (ret (- 1))))
         else
           seq (uwrite fd (le32 (word_of_int fd0)))
           (seq (uwrite (fd + 4) (le32 (word_of_int fd1)))
           (ret 0))))))"

end
