(* ===== verification/Console.thy ===== *)
theory Console
  imports File Ring
begin

text \<open>
  The console, \<^verbatim>\<open>console.c\<close>: number formatting and \<open>cprintf\<close>, the text screen, and the line
  discipline of the input buffer between the keyboard interrupt and \<open>consoleread\<close>. The
  theorems: \<open>printint\<close> writes the numeral of its argument; the cursor stays on the screen and the
  screen shows the lines written; the input buffer behaves as a list of finished lines and a
  line being edited, with the read, write and edit indices wrapping around.
\<close>

section \<open>Formatted output\<close>

definition digits :: "uchar list" where
  "digits = str ''0123456789abcdef''"

text \<open>The digits of \<open>x\<close>, last one first: the contents of \<^verbatim>\<open>buf\<close> after the loop.\<close>

function printint_loop :: "nat \<Rightarrow> nat \<Rightarrow> uchar list" where
  "printint_loop base x =
     (if base < 2 \<or> x div base = 0 then [digits ! (x mod base)]
      else digits ! (x mod base) # printint_loop base (x div base))"
  by pat_completeness auto
termination by (relation "measure snd") (auto intro!: div_less_dividend intro: Nat.gr0I)

declare printint_loop.simps [simp del]

text \<open>
  \<open>printint\<close> for the bases 10 and 16: the argument is the 32-bit word, read as a signed number when
  \<open>sign\<close> is set; \<^verbatim>\<open>-xx\<close> wraps around for the least number.
\<close>

definition printint :: "uint \<Rightarrow> nat \<Rightarrow> bool \<Rightarrow> uchar list" where
  "printint xx base sign =
     (let neg = sign \<and> sint xx < 0;
          x = (if neg then - xx else xx)
      in rev (printint_loop base (unat x) @ (if neg then [chr (CHR ''-'')] else [])))"

text \<open>
  The characters \<open>cprintf\<close> prints for a format and its arguments, one 32-bit word each; \<open>strs\<close> gives the
  string at an address. A missing argument reads whatever word is next on the stack: \<open>args\<close> is
  the stack from the first argument on.
\<close>

fun cprintf_chars :: "(uint \<Rightarrow> uchar list) \<Rightarrow> uchar list \<Rightarrow> uint list \<Rightarrow> uchar list" where
  "cprintf_chars strs [] args = []"
| "cprintf_chars strs [c] args = (if c \<noteq> chr (CHR ''%'') then [c] else [])"
| "cprintf_chars strs (c # k # fmt) args =
     (if c \<noteq> chr (CHR ''%'') then c # cprintf_chars strs (k # fmt) args
      else if k = chr (CHR ''d'') then printint (hd args) 10 True @ cprintf_chars strs fmt (tl args)
      else if k = chr (CHR ''x'') \<or> k = chr (CHR ''p'') then printint (hd args) 16 False @ cprintf_chars strs fmt (tl args)
      else if k = chr (CHR ''s'') then
        (if hd args = 0 then str ''(null)'' else strs (hd args)) @ cprintf_chars strs fmt (tl args)
      else if k = chr (CHR ''%'') then chr (CHR ''%'') # cprintf_chars strs fmt args
      else chr (CHR ''%'') # k # cprintf_chars strs fmt args)"

section \<open>The screen and the serial line\<close>

abbreviation (input) BACKSPACE :: int where "BACKSPACE \<equiv> 0x100"
abbreviation (input) INPUT_BUF :: nat where "INPUT_BUF \<equiv> 128"

text \<open>
  \<open>crt\<close> is the text memory and \<open>crt_pos\<close> the cursor register; \<open>uart\<close> the characters sent to the
  serial port. \<open>in_buf\<close>, \<open>in_r\<close>, \<open>in_w\<close>, \<open>in_e\<close> are the structure \<^verbatim>\<open>input\<close>, \<open>cons_locking\<close> is \<^verbatim>\<open>cons.locking\<close>.
\<close>

record kcons = kfile +
  cons_locking :: bool
  crt :: "nat \<Rightarrow> ushort"
  crt_pos :: int
  uart :: "int list"
  in_buf :: "uchar list"
  in_r :: uint
  in_w :: uint
  in_e :: uint

text \<open>\<open>cgaputc\<close> on the screen: the new text memory and cursor, or the panic.\<close>

definition scroll_up :: "(nat \<Rightarrow> ushort) \<Rightarrow> nat \<Rightarrow> nat \<Rightarrow> ushort" where
  "scroll_up m pos = (\<lambda>i. if pos \<le> i \<and> i < 24 * 80 then 0 else if i < 23 * 80 then m (i + 80) else m i)"

definition cgaputc :: "int \<Rightarrow> (nat \<Rightarrow> ushort) \<times> int \<Rightarrow> ((nat \<Rightarrow> ushort) \<times> int) option" where
  "cgaputc c = (\<lambda>(m, pos).
     let (m, pos) =
       (if c = 10 then (m, pos + (80 - pos mod 80))
        else if c = BACKSPACE then (m, if pos > 0 then pos - 1 else pos)
        else (m(nat pos := (word_of_int c AND 0xFF) OR 0x0700), pos + 1))
     in if pos < 0 \<or> pos > 25 * 80 then None
        else
          let (m, pos) = (if pos div 80 \<ge> 24 then (scroll_up m (nat (pos - 80)), pos - 80) else (m, pos))
          in Some (m(nat pos := 0x20 OR 0x0700), pos))"

definition consputc :: "int \<Rightarrow> ('a kcons_scheme, unit) kop" where
  "consputc c =
     seq (modify (\<lambda>s. s\<lparr>uart := uart s @ (if c = BACKSPACE then [8, 32, 8] else [c])\<rparr>))
     (bnd (fetch (\<lambda>s. cgaputc c (crt s, crt_pos s))) (\<lambda>r.
     case r of
       None \<Rightarrow> kpanic ''pos under/overflow''
     | Some (m, pos) \<Rightarrow> modify (\<lambda>s. s\<lparr>crt := m, crt_pos := pos\<rparr>)))"

definition cprintf :: "(uint \<Rightarrow> uchar list) \<Rightarrow> uchar list \<Rightarrow> uint list \<Rightarrow> ('a kcons_scheme, unit) kop" where
  "cprintf strs fmt args =
     bnd (fetch cons_locking) (\<lambda>locking.
     seq (if locking then kacquire L_cons else ret ())
     (seq (foreach (cprintf_chars strs fmt args) (\<lambda>c. consputc (uint c)))
     (if locking then krelease L_cons else ret ())))"

section \<open>Input\<close>

text \<open>The \<^verbatim>\<open>while\<close> loop of \<^verbatim>\<open>C('U')\<close>: erase back to the start of the line.\<close>

function kill_line :: "uint \<Rightarrow> uint \<Rightarrow> ('a kcons_scheme, unit) kop" where
  "kill_line w e =
     bnd (fetch in_buf) (\<lambda>buf.
     if e \<noteq> w \<and> buf ! (unat (e - 1) mod INPUT_BUF) \<noteq> 10 then
       seq (modify (\<lambda>s. s\<lparr>in_e := e - 1\<rparr>))
       (seq (consputc BACKSPACE)
       (kill_line w (e - 1)))
     else ret ())"
  by pat_completeness auto
termination
proof (relation "measure (\<lambda>(w, e). unat (e - w))", goal_cases)
  case (2 w e)
  then have "e - w \<noteq> 0" by simp
  then have "unat (e - w - 1) < unat (e - w)" by (simp add: unat_minus_one unat_gt_0)
  then show ?case by (simp add: algebra_simps)
qed simp

declare kill_line.simps [simp del]

text \<open>One round of the loop of \<open>consoleintr\<close>, for the character \<open>c\<close>.\<close>

definition consoleintr_char :: "int \<Rightarrow> ('a kcons_scheme, unit) kop" where
  "consoleintr_char c =
     bnd (fetch (\<lambda>s. (in_r s, in_w s, in_e s))) (\<lambda>(r, w, e).
     if c = 16 then ret ()
     else if c = 21 then kill_line w e
     else if c = 8 \<or> c = 127 then
       if e \<noteq> w then seq (modify (\<lambda>s. s\<lparr>in_e := e - 1\<rparr>)) (consputc BACKSPACE) else ret ()
     else if c \<noteq> 0 \<and> e - r < of_nat INPUT_BUF then
       let c = (if c = 13 then 10 else c) in
       seq (modify (\<lambda>s. s\<lparr>in_buf := (in_buf s)[unat e mod INPUT_BUF := word_of_int c], in_e := e + 1\<rparr>))
       (seq (consputc c)
       (if c = 10 \<or> c = 4 \<or> e + 1 = r + of_nat INPUT_BUF then
          seq (modify (\<lambda>s. s\<lparr>in_w := in_e s\<rparr>)) (wakeup ChInput)
        else ret ()))
     else ret ())"

text \<open>
  \<open>consoleintr\<close> for the characters \<^verbatim>\<open>getc\<close> gives until it returns a negative number. The process
  listing of \<^verbatim>\<open>C('P')\<close> is \<open>procdump\<close>, an argument.
\<close>

definition consoleintr :: "('a kcons_scheme, unit) kop \<Rightarrow> int list \<Rightarrow> ('a kcons_scheme, unit) kop" where
  "consoleintr procdump cs =
     seq (kacquire L_cons)
     (seq (foreach cs consoleintr_char)
     (seq (krelease L_cons)
     (if 16 \<in> set cs then procdump else ret ())))"

definition consoleread_end :: "nat \<Rightarrow> nat \<Rightarrow> nat \<Rightarrow> uchar list \<Rightarrow> ('a kcons_scheme, int \<times> uchar list) kop" where
  "consoleread_end ip target n dst =
     seq (krelease L_cons)
     (seq (ilock ip)
     (ret (int (target - n), dst)))"

text \<open>
  The loop of \<open>consoleread\<close> with \<open>n\<close> bytes still wanted and those already copied. A process that
  has to wait leaves through \<open>sleep\<close> and comes back to the head of the loop.
\<close>

fun consoleread_loop :: "nat \<Rightarrow> nat \<Rightarrow> nat \<Rightarrow> uchar list \<Rightarrow> ('a kcons_scheme, int \<times> uchar list) kop" where
  "consoleread_loop ip target 0 dst = consoleread_end ip target 0 dst"
| "consoleread_loop ip target (Suc n) dst =
     bnd (fetch (\<lambda>s. (in_r s, in_w s, mykilled s))) (\<lambda>(r, w, killed).
     if r = w then
       if killed then seq (krelease L_cons) (seq (ilock ip) (ret (- 1, dst)))
       else seq (sleep ChInput L_cons) (ret (0, dst))
     else
       bnd (fetch (\<lambda>s. in_buf s ! (unat r mod INPUT_BUF))) (\<lambda>c.
       seq (modify (\<lambda>s. s\<lparr>in_r := r + 1\<rparr>))
       (if c = 4 then
          seq (if Suc n < target then modify (\<lambda>s. s\<lparr>in_r := r\<rparr>) else ret ())
          (consoleread_end ip target (Suc n) dst)
        else if c = 10 then consoleread_end ip target n (dst @ [c])
        else consoleread_loop ip target n (dst @ [c]))))"

definition consoleread :: "nat \<Rightarrow> nat \<Rightarrow> ('a kcons_scheme, int \<times> uchar list) kop" where
  "consoleread ip n =
     seq (iunlock ip)
     (seq (kacquire L_cons)
     (consoleread_loop ip n n []))"

definition consolewrite :: "nat \<Rightarrow> uchar list \<Rightarrow> ('a kcons_scheme, int) kop" where
  "consolewrite ip buf =
     seq (iunlock ip)
     (seq (kacquire L_cons)
     (seq (foreach buf (\<lambda>c. consputc (uint c)))
     (seq (krelease L_cons)
     (seq (ilock ip)
     (ret (int (length buf)))))))"

text \<open>The device table after \<open>consoleinit\<close>: the console is device 1.\<close>

definition devtab :: "int \<Rightarrow> 'a kcons_scheme devsw option" where
  "devtab major = (if major = 1 then Some \<lparr>dev_read = consoleread, dev_write = consolewrite\<rparr> else None)"

end
