(* ===== verification/Trap.thy ===== *)
theory Trap
  imports Sysfile Console
begin

text \<open>
  The remaining system calls, \<^verbatim>\<open>sysproc.c\<close>, the table of all of them, and \<open>trap\<close> of \<^verbatim>\<open>trap.c\<close>. The
  interrupt controller and the device interrupts other than the clock are arguments; \<open>exit\<close> inside
  \<open>trap\<close> does not come back.
\<close>

text \<open>The clock, \<^verbatim>\<open>ticks\<close>.\<close>

record ksys = kcons +
  ticks :: uint

record kparams =
  k_forkret :: uint
  k_trapret :: uint
  k_data :: uint

definition sys_fork :: "kparams \<Rightarrow> ('a ksys_scheme, int) kop" where
  "sys_fork kp = fork (k_forkret kp) (k_trapret kp) (k_data kp)"

definition sys_exit :: "('a ksys_scheme, int) kop" where
  "sys_exit = seq exit (ret 0)"

definition sys_wait :: "('a ksys_scheme, int) kop" where
  "sys_wait = wait"

definition sys_kill :: "('a ksys_scheme, int) kop" where
  "sys_kill =
     bnd (argint 0) (\<lambda>a. case a of None \<Rightarrow> ret (- 1) | Some pid \<Rightarrow> kill (sint pid))"

definition sys_getpid :: "('a ksys_scheme, int) kop" where
  "sys_getpid = fetch (\<lambda>s. p_pid (cur_proc s))"

definition sys_sbrk :: "('a ksys_scheme, int) kop" where
  "sys_sbrk =
     bnd (argint 0) (\<lambda>a. case a of None \<Rightarrow> ret (- 1) | Some n \<Rightarrow>
     bnd (fetch (\<lambda>s. sint (p_sz (cur_proc s)))) (\<lambda>addr.
     bnd (growproc (sint n)) (\<lambda>r.
     if r < 0 then ret (- 1) else ret addr)))"

text \<open>
  \<open>sys_sleep\<close> from the head of its loop on. The comparison \<^verbatim>\<open>ticks - ticks0 < n\<close> is between a \<^verbatim>\<open>uint\<close>
  and an \<^verbatim>\<open>int\<close>, so C makes it unsigned: \<open>n\<close> is the 32-bit word here.
\<close>

definition sys_sleep_loop :: "uint \<Rightarrow> uint \<Rightarrow> ('a ksys_scheme, int) kop" where
  "sys_sleep_loop n ticks0 =
     bnd (fetch (\<lambda>s. (ticks s, mykilled s))) (\<lambda>(t, killed).
     if t - ticks0 < n then
       if killed then seq (krelease L_tickslock) (ret (- 1))
       else seq (sleep ChTicks L_tickslock) (ret 0)
     else seq (krelease L_tickslock) (ret 0))"

definition sys_sleep :: "('a ksys_scheme, int) kop" where
  "sys_sleep =
     bnd (argint 0) (\<lambda>a. case a of None \<Rightarrow> ret (- 1) | Some n \<Rightarrow>
     seq (kacquire L_tickslock)
     (bnd (fetch ticks) (\<lambda>ticks0.
     sys_sleep_loop n ticks0)))"

definition sys_uptime :: "('a ksys_scheme, int) kop" where
  "sys_uptime =
     seq (kacquire L_tickslock)
     (bnd (fetch ticks) (\<lambda>xticks.
     seq (krelease L_tickslock)
     (ret (sint xticks))))"

text \<open>The array \<^verbatim>\<open>syscalls\<close>, with the numbers of \<^verbatim>\<open>syscall.h\<close>.\<close>

definition syscalls :: "kparams \<Rightarrow> nat \<Rightarrow> ('a ksys_scheme, int) kop option" where
  "syscalls kp n = map_of
     [(1, sys_fork kp), (2, sys_exit), (3, sys_wait), (4, sys_pipe), (5, sys_read devtab), (6, sys_kill),
      (7, sys_exec devtab (k_data kp)), (8, sys_fstat), (9, sys_chdir), (10, sys_dup), (11, sys_getpid),
      (12, sys_sbrk), (13, sys_sleep), (14, sys_uptime), (15, sys_open), (16, sys_write devtab), (17, sys_mknod),
      (18, sys_unlink), (19, sys_link), (20, sys_mkdir), (21, sys_close)] n"

text \<open>The clock interrupt: only processor 0 counts.\<close>

definition timer_tick :: "nat \<Rightarrow> ('a ksys_scheme, unit) kop" where
  "timer_tick cpuid =
     (if cpuid = 0 then
        seq (kacquire L_tickslock)
        (seq (modify (\<lambda>s. s\<lparr>ticks := ticks s + 1\<rparr>))
        (seq (wakeup ChTicks)
        (krelease L_tickslock)))
      else ret ())"

definition exit_if :: "('a ksys_scheme \<Rightarrow> bool) \<Rightarrow> ('a ksys_scheme, unit) kop" where
  "exit_if c = bnd (fetch c) (\<lambda>b. if b then exit else ret ())"

definition cur_killed :: "'a kproc_scheme \<Rightarrow> bool" where
  "cur_killed s \<longleftrightarrow> curproc s \<noteq> None \<and> p_killed (cur_proc s)"

text \<open>
  \<open>trap\<close> on processor \<open>cpuid\<close> with the trap frame \<open>tf\<close>. \<open>dev\<close> handles the interrupts of the disk, the
  keyboard and the serial port.
\<close>

definition trap :: "kparams \<Rightarrow> nat \<Rightarrow> (nat \<Rightarrow> ('a ksys_scheme, unit) kop) \<Rightarrow> trapframe \<Rightarrow> ('a ksys_scheme, unit) kop" where
  "trap kp cpuid dev tf =
     (let no = unat (tf_trapno tf); user = (tf_cs tf AND 3 = 3) in
      if no = 64 then
        seq (exit_if (\<lambda>s. p_killed (cur_proc s)))
        (bnd (fetch (\<lambda>s. the (curproc s))) (\<lambda>p.
        seq (upd_proc p (\<lambda>q. q\<lparr>p_tf := tf\<rparr>))
        (seq (syscall (syscalls kp))
        (exit_if (\<lambda>s. p_killed (cur_proc s))))))
      else
        seq (if no = 32 then timer_tick cpuid
             else if no = 46 \<or> no = 33 \<or> no = 36 then dev no
             else if no = 47 \<or> no = 39 \<or> no = 63 then ret ()
             else
               bnd (fetch curproc) (\<lambda>p. case p of
                 None \<Rightarrow> kpanic ''trap''
               | Some p \<Rightarrow>
                   seq (panic_if (tf_cs tf AND 3 = 0) ''trap'')
                   (upd_proc p (\<lambda>q. q\<lparr>p_killed := True\<rparr>))))
        (seq (exit_if (\<lambda>s. cur_killed s \<and> user))
        (bnd (fetch (\<lambda>s. curproc s \<noteq> None \<and> p_state (cur_proc s) = RUNNING \<and> no = 32)) (\<lambda>y.
        seq (if y then yield else ret ())
        (exit_if (\<lambda>s. cur_killed s \<and> user))))))"

end
