(* ===== verification/Spec2Isabelle.thy ===== *)
theory Spec2Isabelle
  imports Kstate Strings Sched Ucopy Trap
begin

text \<open>
  A verification development for xv6, the x86 teaching kernel under \<^verbatim>\<open>src/xv6-public\<close>.
\<close>


end
